theory Spec2Isabelle
  imports Main "HOL-Library.Word" "HOL-Library.Monad_Syntax"
begin

section \<open>The node store\<close>

text \<open>
  The container \<open>jp::ordered_set\<close> of \<open>include/jp/ordered_set.hpp\<close> is a red-black tree
  with parent links, one sentinel node per tree and a subtree-size counter in every node.
  Nodes live in an explicit store. A pointer is a 64-bit address, \<open>nullptr\<close> is address 0,
  and a \<open>size_t\<close> is a 64-bit word whose arithmetic wraps around. Reading or writing
  through a pointer that holds no node (a null or a dangling pointer) is undefined
  behaviour in the source; here it makes the operation return \<open>None\<close>.
  The key type is a linear order compared by \<open><\<close> (the source's default
  \<open>Cmp_Fn = std::less<Key>\<close>), and \<open>Key{}\<close> is \<open>0\<close>.
\<close>

type_synonym ptr = "64 word"
type_synonym size_t = "64 word"

definition nullptr :: ptr where
  "nullptr = 0"

definition RED :: bool where
  "RED = False"

definition BLACK :: bool where
  "BLACK = True"

record 'k node =
  nsize :: size_t
  left :: ptr
  right :: ptr
  parent :: ptr
  key :: 'k
  color :: bool

text \<open>
  The store maps addresses to nodes. \<open>new\<close> hands out the addresses \<open>next_free\<close>,
  \<open>next_free + 1\<close>, ... and never reuses one; when the address space is used up it fails
  (\<open>std::bad_alloc\<close>).
\<close>

record 'k heap =
  cells :: "ptr \<Rightarrow> 'k node option"
  next_free :: ptr

record ordered_set =
  m_nil :: ptr
  m_root :: ptr

definition new_node :: "'k node \<Rightarrow> 'k heap \<Rightarrow> (ptr \<times> 'k heap) option" where
  "new_node n h =
     (if next_free h = nullptr then None
      else Some (next_free h,
                 h\<lparr>cells := (cells h)(next_free h \<mapsto> n), next_free := next_free h + 1\<rparr>))"

definition delete_node :: "ptr \<Rightarrow> 'k heap \<Rightarrow> 'k heap option" where
  "delete_node p h =
     (case cells h p of None \<Rightarrow> None
      | Some n \<Rightarrow> Some (h\<lparr>cells := (cells h)(p := None)\<rparr>))"

definition modify :: "ptr \<Rightarrow> ('k node \<Rightarrow> 'k node) \<Rightarrow> 'k heap \<Rightarrow> 'k heap option" where
  "modify p f h =
     (case cells h p of None \<Rightarrow> None
      | Some n \<Rightarrow> Some (h\<lparr>cells := (cells h)(p \<mapsto> f n)\<rparr>))"

definition get_size :: "'k heap \<Rightarrow> ptr \<Rightarrow> size_t option" where
  "get_size h p = map_option nsize (cells h p)"

definition get_left :: "'k heap \<Rightarrow> ptr \<Rightarrow> ptr option" where
  "get_left h p = map_option left (cells h p)"

definition get_right :: "'k heap \<Rightarrow> ptr \<Rightarrow> ptr option" where
  "get_right h p = map_option right (cells h p)"

definition get_parent :: "'k heap \<Rightarrow> ptr \<Rightarrow> ptr option" where
  "get_parent h p = map_option parent (cells h p)"

definition get_key :: "'k heap \<Rightarrow> ptr \<Rightarrow> 'k option" where
  "get_key h p = map_option key (cells h p)"

definition get_color :: "'k heap \<Rightarrow> ptr \<Rightarrow> bool option" where
  "get_color h p = map_option color (cells h p)"

definition set_size :: "ptr \<Rightarrow> size_t \<Rightarrow> 'k heap \<Rightarrow> 'k heap option" where
  "set_size p v h = modify p (\<lambda>n. n\<lparr>nsize := v\<rparr>) h"

definition set_left :: "ptr \<Rightarrow> ptr \<Rightarrow> 'k heap \<Rightarrow> 'k heap option" where
  "set_left p v h = modify p (\<lambda>n. n\<lparr>left := v\<rparr>) h"

definition set_right :: "ptr \<Rightarrow> ptr \<Rightarrow> 'k heap \<Rightarrow> 'k heap option" where
  "set_right p v h = modify p (\<lambda>n. n\<lparr>right := v\<rparr>) h"

definition set_parent :: "ptr \<Rightarrow> ptr \<Rightarrow> 'k heap \<Rightarrow> 'k heap option" where
  "set_parent p v h = modify p (\<lambda>n. n\<lparr>parent := v\<rparr>) h"

definition set_color :: "ptr \<Rightarrow> bool \<Rightarrow> 'k heap \<Rightarrow> 'k heap option" where
  "set_color p v h = modify p (\<lambda>n. n\<lparr>color := v\<rparr>) h"

text \<open>\<open>equal\<close> and \<open>not_equal\<close>: key equivalence from the ordering predicate alone.\<close>

definition equal :: "'k::linorder \<Rightarrow> 'k \<Rightarrow> bool" where
  "equal lhs rhs = ((\<not> lhs < rhs) \<and> (\<not> rhs < lhs))"

definition not_equal :: "'k::linorder \<Rightarrow> 'k \<Rightarrow> bool" where
  "not_equal lhs rhs = (lhs < rhs \<or> rhs < lhs)"

section \<open>Search and rank\<close>

text \<open>\<open>min(node* x)\<close> and \<open>max(node* x)\<close>.\<close>

partial_function (option) min_loop :: "'k heap \<Rightarrow> ptr \<Rightarrow> ptr \<Rightarrow> ptr option" where
  "min_loop h nil x =
     (case cells h x of None \<Rightarrow> None
      | Some xn \<Rightarrow> if left xn \<noteq> nil then min_loop h nil (left xn) else Some x)"

definition min_node :: "ordered_set \<Rightarrow> 'k heap \<Rightarrow> ptr \<Rightarrow> ptr option" where
  "min_node T h x = (if x \<noteq> m_nil T then min_loop h (m_nil T) x else Some x)"

partial_function (option) max_loop :: "'k heap \<Rightarrow> ptr \<Rightarrow> ptr \<Rightarrow> ptr option" where
  "max_loop h nil x =
     (case cells h x of None \<Rightarrow> None
      | Some xn \<Rightarrow> if right xn \<noteq> nil then max_loop h nil (right xn) else Some x)"

definition max_node :: "ordered_set \<Rightarrow> 'k heap \<Rightarrow> ptr \<Rightarrow> ptr option" where
  "max_node T h x = (if x \<noteq> m_nil T then max_loop h (m_nil T) x else Some x)"

text \<open>\<open>successor\<close> and \<open>predecessor\<close>: the climb through the parent links.\<close>

partial_function (option) successor_loop :: "'k heap \<Rightarrow> ptr \<Rightarrow> ptr \<Rightarrow> ptr option" where
  "successor_loop h nil x =
     (if x \<noteq> nil then
        (case cells h x of None \<Rightarrow> None
         | Some xn \<Rightarrow>
            (case cells h (parent xn) of None \<Rightarrow> None
             | Some pn \<Rightarrow> if x = left pn then Some (parent xn)
                          else successor_loop h nil (parent xn)))
      else Some nil)"

definition successor :: "ordered_set \<Rightarrow> 'k heap \<Rightarrow> ptr \<Rightarrow> ptr option" where
  "successor T h x =
     (case cells h x of None \<Rightarrow> None
      | Some xn \<Rightarrow> if right xn \<noteq> m_nil T then min_node T h (right xn)
                   else successor_loop h (m_nil T) x)"

partial_function (option) predecessor_loop :: "'k heap \<Rightarrow> ptr \<Rightarrow> ptr \<Rightarrow> ptr option" where
  "predecessor_loop h nil x =
     (if x \<noteq> nil then
        (case cells h x of None \<Rightarrow> None
         | Some xn \<Rightarrow>
            (case cells h (parent xn) of None \<Rightarrow> None
             | Some pn \<Rightarrow> if x = right pn then Some (parent xn)
                          else predecessor_loop h nil (parent xn)))
      else Some nil)"

definition predecessor :: "ordered_set \<Rightarrow> 'k heap \<Rightarrow> ptr \<Rightarrow> ptr option" where
  "predecessor T h x =
     (case cells h x of None \<Rightarrow> None
      | Some xn \<Rightarrow> if left xn \<noteq> m_nil T then max_node T h (left xn)
                   else predecessor_loop h (m_nil T) x)"

text \<open>\<open>search(key)\<close>: the descent; the sentinel when the key is absent.\<close>

partial_function (option) search_loop :: "'k::linorder heap \<Rightarrow> ptr \<Rightarrow> 'k \<Rightarrow> ptr \<Rightarrow> ptr option" where
  "search_loop h nil k x =
     (if x \<noteq> nil then
        (case cells h x of None \<Rightarrow> None
         | Some xn \<Rightarrow>
            if not_equal k (key xn) then
              (if k < key xn then search_loop h nil k (left xn)
               else search_loop h nil k (right xn))
            else Some x)
      else Some x)"

definition search :: "ordered_set \<Rightarrow> 'k::linorder heap \<Rightarrow> 'k \<Rightarrow> ptr option" where
  "search T h k = search_loop h (m_nil T) k (m_root T)"

text \<open>\<open>order_of_key\<close>: the loop state is \<open>(current, x)\<close>.\<close>

partial_function (option) order_of_key_loop ::
  "'k::linorder heap \<Rightarrow> ptr \<Rightarrow> 'k \<Rightarrow> size_t \<Rightarrow> ptr \<Rightarrow> (size_t \<times> ptr) option" where
  "order_of_key_loop h nil k current x =
     (if x \<noteq> nil then
        (case cells h x of None \<Rightarrow> None
         | Some xn \<Rightarrow>
            if not_equal k (key xn) then
              (if k < key xn then
                 (if right xn \<noteq> nil then
                    (case cells h (right xn) of None \<Rightarrow> None
                     | Some rn \<Rightarrow> order_of_key_loop h nil k (current - 1 - nsize rn) (left xn))
                  else order_of_key_loop h nil k (current - 1) (left xn))
               else order_of_key_loop h nil k current (right xn))
            else Some (current, x))
      else Some (current, x))"

definition order_of_key :: "ordered_set \<Rightarrow> 'k::linorder heap \<Rightarrow> 'k \<Rightarrow> size_t option" where
  "order_of_key T h k = do {
     current \<leftarrow> get_size h (m_root T);
     (current, x) \<leftarrow> order_of_key_loop h (m_nil T) k current (m_root T);
     xr \<leftarrow> get_right h x;
     current \<leftarrow> (if xr \<noteq> m_nil T then do { s \<leftarrow> get_size h xr; Some (current - s) }
                 else Some current);
     Some (if x \<noteq> m_nil T then current - 1 else current)
   }"

text \<open>\<open>find_by_order\<close>: the loop state is \<open>(current, x)\<close>; the result is the node \<open>x\<close>.\<close>

partial_function (option) find_by_order_loop ::
  "'k heap \<Rightarrow> ptr \<Rightarrow> size_t \<Rightarrow> size_t \<Rightarrow> ptr \<Rightarrow> ptr option" where
  "find_by_order_loop h nil order current x =
     (if x \<noteq> nil \<and> current \<noteq> order then
        (case cells h x of None \<Rightarrow> None
         | Some xn \<Rightarrow>
            if current > order then
              (case cells h (left xn) of None \<Rightarrow> None
               | Some ln \<Rightarrow>
                  (case cells h (left ln) of None \<Rightarrow> None
                   | Some lln \<Rightarrow>
                      find_by_order_loop h nil order (current - nsize ln + nsize lln) (left xn)))
            else
              (case cells h (right xn) of None \<Rightarrow> None
               | Some rn \<Rightarrow>
                  (case cells h (left rn) of None \<Rightarrow> None
                   | Some rln \<Rightarrow>
                      find_by_order_loop h nil order (current + (1 + nsize rln)) (right xn))))
      else Some x)"

definition find_by_order :: "ordered_set \<Rightarrow> 'k heap \<Rightarrow> size_t \<Rightarrow> ptr option" where
  "find_by_order T h order = do {
     rl \<leftarrow> get_left h (m_root T);
     current \<leftarrow> get_size h rl;
     find_by_order_loop h (m_nil T) order current (m_root T)
   }"

definition find_os :: "ordered_set \<Rightarrow> 'k::linorder heap \<Rightarrow> 'k \<Rightarrow> ptr option" where
  "find_os T h k = search T h k"

definition size_os :: "ordered_set \<Rightarrow> 'k heap \<Rightarrow> size_t option" where
  "size_os T h = get_size h (m_root T)"

definition empty_os :: "ordered_set \<Rightarrow> 'k heap \<Rightarrow> bool option" where
  "empty_os T h = map_option (\<lambda>s. s = 0) (get_size h (m_root T))"

definition begin_os :: "ordered_set \<Rightarrow> 'k heap \<Rightarrow> ptr option" where
  "begin_os T h = find_by_order T h 0"

definition end_os :: "ordered_set \<Rightarrow> ptr" where
  "end_os T = m_nil T"

section \<open>Balancing\<close>

text \<open>
  The rotations re-link the pivot \<open>x\<close> and its child \<open>y\<close> and repair the \<open>size\<close> of these
  two nodes. Every statement of the source reads the store as the statements before it
  left it.
\<close>

definition rotate_left :: "ordered_set \<Rightarrow> 'k heap \<Rightarrow> ptr \<Rightarrow> (ordered_set \<times> 'k heap) option" where
  "rotate_left T h x = do {
     y \<leftarrow> get_right h x;
     yl \<leftarrow> get_left h y;
     h \<leftarrow> set_right x yl h;
     yl \<leftarrow> get_left h y;
     h \<leftarrow> (if yl \<noteq> m_nil T then set_parent yl x h else Some h);
     xp \<leftarrow> get_parent h x;
     h \<leftarrow> set_parent y xp h;
     xp \<leftarrow> get_parent h x;
     (T, h) \<leftarrow> (if xp = m_nil T then Some (T\<lparr>m_root := y\<rparr>, h)
                else do {
                  xpl \<leftarrow> get_left h xp;
                  h \<leftarrow> (if x = xpl then set_left xp y h else set_right xp y h);
                  Some (T, h)
                });
     h \<leftarrow> set_left y x h;
     h \<leftarrow> set_parent x y h;
     xl \<leftarrow> get_left h x;
     h \<leftarrow> (if xl \<noteq> m_nil T then do {
               s \<leftarrow> get_size h xl;
               ys \<leftarrow> get_size h y;
               set_size y (ys + s) h
             } else Some h);
     ys \<leftarrow> get_size h y;
     h \<leftarrow> set_size y (ys + 1) h;
     yr \<leftarrow> get_right h y;
     h \<leftarrow> (if yr \<noteq> m_nil T then do {
               s \<leftarrow> get_size h yr;
               xs \<leftarrow> get_size h x;
               set_size x (xs - s) h
             } else Some h);
     xs \<leftarrow> get_size h x;
     h \<leftarrow> set_size x (xs - 1) h;
     Some (T, h)
   }"

definition rotate_right :: "ordered_set \<Rightarrow> 'k heap \<Rightarrow> ptr \<Rightarrow> (ordered_set \<times> 'k heap) option" where
  "rotate_right T h x = do {
     y \<leftarrow> get_left h x;
     yr \<leftarrow> get_right h y;
     h \<leftarrow> set_left x yr h;
     yr \<leftarrow> get_right h y;
     h \<leftarrow> (if yr \<noteq> m_nil T then set_parent yr x h else Some h);
     xp \<leftarrow> get_parent h x;
     h \<leftarrow> set_parent y xp h;
     xp \<leftarrow> get_parent h x;
     (T, h) \<leftarrow> (if xp = m_nil T then Some (T\<lparr>m_root := y\<rparr>, h)
                else do {
                  xpl \<leftarrow> get_left h xp;
                  h \<leftarrow> (if x = xpl then set_left xp y h else set_right xp y h);
                  Some (T, h)
                });
     h \<leftarrow> set_right y x h;
     h \<leftarrow> set_parent x y h;
     xr \<leftarrow> get_right h x;
     h \<leftarrow> (if xr \<noteq> m_nil T then do {
               s \<leftarrow> get_size h xr;
               ys \<leftarrow> get_size h y;
               set_size y (ys + s) h
             } else Some h);
     ys \<leftarrow> get_size h y;
     h \<leftarrow> set_size y (ys + 1) h;
     yl \<leftarrow> get_left h y;
     h \<leftarrow> (if yl \<noteq> m_nil T then do {
               s \<leftarrow> get_size h yl;
               xs \<leftarrow> get_size h x;
               set_size x (xs - s) h
             } else Some h);
     xs \<leftarrow> get_size h x;
     h \<leftarrow> set_size x (xs - 1) h;
     Some (T, h)
   }"

definition transplant ::
  "ordered_set \<Rightarrow> 'k heap \<Rightarrow> ptr \<Rightarrow> ptr \<Rightarrow> (ordered_set \<times> 'k heap) option" where
  "transplant T h u v = do {
     up \<leftarrow> get_parent h u;
     (T, h) \<leftarrow> (if up = m_nil T then Some (T\<lparr>m_root := v\<rparr>, h)
                else do {
                  upl \<leftarrow> get_left h up;
                  h \<leftarrow> (if u = upl then set_left up v h else set_right up v h);
                  Some (T, h)
                });
     up \<leftarrow> get_parent h u;
     h \<leftarrow> set_parent v up h;
     Some (T, h)
   }"

partial_function (option) updateSize :: "'k heap \<Rightarrow> ptr \<Rightarrow> ptr \<Rightarrow> size_t \<Rightarrow> 'k heap option" where
  "updateSize h start end_p v =
     (if start \<noteq> end_p then
        (case cells h start of None \<Rightarrow> None
         | Some sn \<Rightarrow>
             updateSize (h\<lparr>cells := (cells h)(start \<mapsto> sn\<lparr>nsize := nsize sn + v\<rparr>)\<rparr>)
               (parent sn) end_p v)
      else Some h)"

text \<open>One round of the loop of \<open>fixup_insert\<close>, entered when \<open>z->parent\<close> is RED.\<close>

definition fixup_insert_body ::
  "ordered_set \<Rightarrow> 'k heap \<Rightarrow> ptr \<Rightarrow> (ordered_set \<times> 'k heap \<times> ptr) option" where
  "fixup_insert_body T h z = do {
     zp \<leftarrow> get_parent h z;
     zpp \<leftarrow> get_parent h zp;
     zppl \<leftarrow> get_left h zpp;
     if zp = zppl then do {
       y \<leftarrow> get_right h zpp;
       yc \<leftarrow> get_color h y;
       if yc = RED then do {
         h \<leftarrow> set_color zp BLACK h;
         h \<leftarrow> set_color y BLACK h;
         zp \<leftarrow> get_parent h z;
         zpp \<leftarrow> get_parent h zp;
         h \<leftarrow> set_color zpp RED h;
         zp \<leftarrow> get_parent h z;
         zpp \<leftarrow> get_parent h zp;
         Some (T, h, zpp)
       } else do {
         zp \<leftarrow> get_parent h z;
         zpr \<leftarrow> get_right h zp;
         (T, h, z) \<leftarrow> (if z = zpr then do {
                         (T, h) \<leftarrow> rotate_left T h zp;
                         Some (T, h, zp)
                       } else Some (T, h, z));
         zp \<leftarrow> get_parent h z;
         h \<leftarrow> set_color zp BLACK h;
         zp \<leftarrow> get_parent h z;
         zpp \<leftarrow> get_parent h zp;
         h \<leftarrow> set_color zpp RED h;
         zp \<leftarrow> get_parent h z;
         zpp \<leftarrow> get_parent h zp;
         (T, h) \<leftarrow> rotate_right T h zpp;
         Some (T, h, z)
       }
     } else do {
       y \<leftarrow> get_left h zpp;
       yc \<leftarrow> get_color h y;
       if yc = RED then do {
         h \<leftarrow> set_color zp BLACK h;
         h \<leftarrow> set_color y BLACK h;
         zp \<leftarrow> get_parent h z;
         zpp \<leftarrow> get_parent h zp;
         h \<leftarrow> set_color zpp RED h;
         zp \<leftarrow> get_parent h z;
         zpp \<leftarrow> get_parent h zp;
         Some (T, h, zpp)
       } else do {
         zp \<leftarrow> get_parent h z;
         zpl \<leftarrow> get_left h zp;
         (T, h, z) \<leftarrow> (if z = zpl then do {
                         (T, h) \<leftarrow> rotate_right T h zp;
                         Some (T, h, zp)
                       } else Some (T, h, z));
         zp \<leftarrow> get_parent h z;
         h \<leftarrow> set_color zp BLACK h;
         zp \<leftarrow> get_parent h z;
         zpp \<leftarrow> get_parent h zp;
         h \<leftarrow> set_color zpp RED h;
         zp \<leftarrow> get_parent h z;
         zpp \<leftarrow> get_parent h zp;
         (T, h) \<leftarrow> rotate_left T h zpp;
         Some (T, h, z)
       }
     }
   }"

partial_function (option) fixup_insert_loop ::
  "ordered_set \<Rightarrow> 'k heap \<Rightarrow> ptr \<Rightarrow> (ordered_set \<times> 'k heap) option" where
  "fixup_insert_loop T h z =
     (case get_parent h z of None \<Rightarrow> None
      | Some zp \<Rightarrow>
         (case get_color h zp of None \<Rightarrow> None
          | Some c \<Rightarrow>
             if c = RED then
               (case fixup_insert_body T h z of None \<Rightarrow> None
                | Some (T', h', z') \<Rightarrow> fixup_insert_loop T' h' z')
             else Some (T, h)))"

definition fixup_insert :: "ordered_set \<Rightarrow> 'k heap \<Rightarrow> ptr \<Rightarrow> (ordered_set \<times> 'k heap) option" where
  "fixup_insert T h z = do {
     (T, h) \<leftarrow> fixup_insert_loop T h z;
     h \<leftarrow> set_color (m_root T) BLACK h;
     Some (T, h)
   }"

text \<open>
  \<open>insert\<close>: the descent returns \<open>Inl x\<close> when it meets a node \<open>x\<close> with an equal key, and
  \<open>Inr y\<close> with the last node visited when it falls off the tree. The result of \<open>insert\<close>
  is the position, the \<open>inserted\<close> flag, the tree object and the store.
\<close>

partial_function (option) insert_loop ::
  "'k::linorder heap \<Rightarrow> ptr \<Rightarrow> 'k \<Rightarrow> ptr \<Rightarrow> ptr \<Rightarrow> (ptr + ptr) option" where
  "insert_loop h nil k x y =
     (if x \<noteq> nil then
        (case cells h x of None \<Rightarrow> None
         | Some xn \<Rightarrow>
            if equal k (key xn) then Some (Inl x)
            else if k < key xn then insert_loop h nil k (left xn) x
            else insert_loop h nil k (right xn) x)
      else Some (Inr y))"

definition insert_os ::
  "ordered_set \<Rightarrow> 'k::linorder heap \<Rightarrow> 'k \<Rightarrow> ((ptr \<times> bool) \<times> ordered_set \<times> 'k heap) option" where
  "insert_os T h k =
     (case insert_loop h (m_nil T) k (m_root T) (m_nil T) of None \<Rightarrow> None
      | Some (Inl x) \<Rightarrow> Some ((x, False), T, h)
      | Some (Inr y) \<Rightarrow> do {
          (z, h) \<leftarrow> new_node \<lparr>nsize = 1, left = m_nil T, right = m_nil T, parent = y,
                               key = k, color = RED\<rparr> h;
          (T, h) \<leftarrow> (if y = m_nil T then Some (T\<lparr>m_root := z\<rparr>, h)
                     else do {
                       zk \<leftarrow> get_key h z;
                       yk \<leftarrow> get_key h y;
                       h \<leftarrow> (if zk < yk then set_left y z h else set_right y z h);
                       Some (T, h)
                     });
          zp \<leftarrow> get_parent h z;
          h \<leftarrow> updateSize h zp (m_nil T) 1;
          (T, h) \<leftarrow> fixup_insert T h z;
          Some ((z, True), T, h)
        })"

text \<open>One round of the loop of \<open>fixup_erase\<close>, entered when \<open>x\<close> is not the root and is BLACK.\<close>

definition fixup_erase_body ::
  "ordered_set \<Rightarrow> 'k heap \<Rightarrow> ptr \<Rightarrow> (ordered_set \<times> 'k heap \<times> ptr) option" where
  "fixup_erase_body T h x = do {
     xp \<leftarrow> get_parent h x;
     xpl \<leftarrow> get_left h xp;
     if x = xpl then do {
       w \<leftarrow> get_right h xp;
       wc \<leftarrow> get_color h w;
       (T, h, w) \<leftarrow> (if wc = RED then do {
                       h \<leftarrow> set_color w BLACK h;
                       xp \<leftarrow> get_parent h x;
                       h \<leftarrow> set_color xp RED h;
                       xp \<leftarrow> get_parent h x;
                       (T, h) \<leftarrow> rotate_left T h xp;
                       xp \<leftarrow> get_parent h x;
                       w \<leftarrow> get_right h xp;
                       Some (T, h, w)
                     } else Some (T, h, w));
       wl \<leftarrow> get_left h w;
       wlc \<leftarrow> get_color h wl;
       both \<leftarrow> (if wlc = BLACK then do {
                  wr \<leftarrow> get_right h w;
                  wrc \<leftarrow> get_color h wr;
                  Some (wrc = BLACK)
                } else Some False);
       if both then do {
         h \<leftarrow> set_color w RED h;
         xp \<leftarrow> get_parent h x;
         Some (T, h, xp)
       } else do {
         wr \<leftarrow> get_right h w;
         wrc \<leftarrow> get_color h wr;
         (T, h, w) \<leftarrow> (if wrc = BLACK then do {
                         wl \<leftarrow> get_left h w;
                         h \<leftarrow> set_color wl BLACK h;
                         h \<leftarrow> set_color w RED h;
                         (T, h) \<leftarrow> rotate_right T h w;
                         xp \<leftarrow> get_parent h x;
                         w \<leftarrow> get_right h xp;
                         Some (T, h, w)
                       } else Some (T, h, w));
         xp \<leftarrow> get_parent h x;
         xpc \<leftarrow> get_color h xp;
         h \<leftarrow> set_color w xpc h;
         xp \<leftarrow> get_parent h x;
         h \<leftarrow> set_color xp BLACK h;
         wr \<leftarrow> get_right h w;
         h \<leftarrow> set_color wr BLACK h;
         xp \<leftarrow> get_parent h x;
         (T, h) \<leftarrow> rotate_left T h xp;
         Some (T, h, m_root T)
       }
     } else do {
       w \<leftarrow> get_left h xp;
       wc \<leftarrow> get_color h w;
       (T, h, w) \<leftarrow> (if wc = RED then do {
                       h \<leftarrow> set_color w BLACK h;
                       xp \<leftarrow> get_parent h x;
                       h \<leftarrow> set_color xp RED h;
                       xp \<leftarrow> get_parent h x;
                       (T, h) \<leftarrow> rotate_right T h xp;
                       xp \<leftarrow> get_parent h x;
                       w \<leftarrow> get_left h xp;
                       Some (T, h, w)
                     } else Some (T, h, w));
       wr \<leftarrow> get_right h w;
       wrc \<leftarrow> get_color h wr;
       both \<leftarrow> (if wrc = BLACK then do {
                  wl \<leftarrow> get_left h w;
                  wlc \<leftarrow> get_color h wl;
                  Some (wlc = BLACK)
                } else Some False);
       if both then do {
         h \<leftarrow> set_color w RED h;
         xp \<leftarrow> get_parent h x;
         Some (T, h, xp)
       } else do {
         wl \<leftarrow> get_left h w;
         wlc \<leftarrow> get_color h wl;
         (T, h, w) \<leftarrow> (if wlc = BLACK then do {
                         wr \<leftarrow> get_right h w;
                         h \<leftarrow> set_color wr BLACK h;
                         h \<leftarrow> set_color w RED h;
                         (T, h) \<leftarrow> rotate_left T h w;
                         xp \<leftarrow> get_parent h x;
                         w \<leftarrow> get_left h xp;
                         Some (T, h, w)
                       } else Some (T, h, w));
         xp \<leftarrow> get_parent h x;
         xpc \<leftarrow> get_color h xp;
         h \<leftarrow> set_color w xpc h;
         xp \<leftarrow> get_parent h x;
         h \<leftarrow> set_color xp BLACK h;
         wl \<leftarrow> get_left h w;
         h \<leftarrow> set_color wl BLACK h;
         xp \<leftarrow> get_parent h x;
         (T, h) \<leftarrow> rotate_right T h xp;
         Some (T, h, m_root T)
       }
     }
   }"

partial_function (option) fixup_erase_loop ::
  "ordered_set \<Rightarrow> 'k heap \<Rightarrow> ptr \<Rightarrow> (ordered_set \<times> 'k heap \<times> ptr) option" where
  "fixup_erase_loop T h x =
     (if x \<noteq> m_root T then
        (case get_color h x of None \<Rightarrow> None
         | Some c \<Rightarrow>
            if c = BLACK then
              (case fixup_erase_body T h x of None \<Rightarrow> None
               | Some (T', h', x') \<Rightarrow> fixup_erase_loop T' h' x')
            else Some (T, h, x))
      else Some (T, h, x))"

definition fixup_erase :: "ordered_set \<Rightarrow> 'k heap \<Rightarrow> ptr \<Rightarrow> (ordered_set \<times> 'k heap) option" where
  "fixup_erase T h x = do {
     (T, h, x) \<leftarrow> fixup_erase_loop T h x;
     h \<leftarrow> set_color x BLACK h;
     Some (T, h)
   }"

text \<open>
  \<open>erase(node* z)\<close>. The result is the position computed by \<open>successor(z)\<close> before the
  splice, the tree object and the store. The \<open>assert\<close> on the sentinel's colour is a
  failure when it does not hold.
\<close>

definition erase_node ::
  "ordered_set \<Rightarrow> 'k heap \<Rightarrow> ptr \<Rightarrow> (ptr \<times> ordered_set \<times> 'k heap) option" where
  "erase_node T h z = do {
     zp \<leftarrow> get_parent h z;
     h \<leftarrow> updateSize h zp (m_nil T) (- 1);
     it \<leftarrow> successor T h z;
     y_original_color \<leftarrow> get_color h z;
     zl \<leftarrow> get_left h z;
     (T, h, x, y_original_color) \<leftarrow>
       (if zl = m_nil T then do {
          x \<leftarrow> get_right h z;
          zr \<leftarrow> get_right h z;
          (T, h) \<leftarrow> transplant T h z zr;
          Some (T, h, x, y_original_color)
        } else do {
          zr \<leftarrow> get_right h z;
          if zr = m_nil T then do {
            x \<leftarrow> get_left h z;
            zl \<leftarrow> get_left h z;
            (T, h) \<leftarrow> transplant T h z zl;
            Some (T, h, x, y_original_color)
          } else do {
            zr \<leftarrow> get_right h z;
            y \<leftarrow> min_node T h zr;
            y_original_color \<leftarrow> get_color h y;
            x \<leftarrow> get_right h y;
            yp \<leftarrow> get_parent h y;
            (T, h) \<leftarrow> (if yp = z then do {
                         h \<leftarrow> set_parent x y h;
                         Some (T, h)
                       } else do {
                         yp \<leftarrow> get_parent h y;
                         h \<leftarrow> updateSize h yp z (- 1);
                         yr \<leftarrow> get_right h y;
                         s \<leftarrow> get_size h yr;
                         ys \<leftarrow> get_size h y;
                         h \<leftarrow> set_size y (ys - s) h;
                         yr \<leftarrow> get_right h y;
                         (T, h) \<leftarrow> transplant T h y yr;
                         zr \<leftarrow> get_right h z;
                         h \<leftarrow> set_right y zr h;
                         yr \<leftarrow> get_right h y;
                         h \<leftarrow> set_parent yr y h;
                         yr \<leftarrow> get_right h y;
                         s \<leftarrow> get_size h yr;
                         ys \<leftarrow> get_size h y;
                         h \<leftarrow> set_size y (ys + s) h;
                         Some (T, h)
                       });
            (T, h) \<leftarrow> transplant T h z y;
            zl \<leftarrow> get_left h z;
            h \<leftarrow> set_left y zl h;
            yl \<leftarrow> get_left h y;
            h \<leftarrow> set_parent yl y h;
            zc \<leftarrow> get_color h z;
            h \<leftarrow> set_color y zc h;
            yl \<leftarrow> get_left h y;
            s \<leftarrow> get_size h yl;
            ys \<leftarrow> get_size h y;
            h \<leftarrow> set_size y (ys + s) h;
            Some (T, h, x, y_original_color)
          }
        });
     (T, h) \<leftarrow> (if y_original_color = BLACK then fixup_erase T h x else Some (T, h));
     h \<leftarrow> set_parent (m_nil T) (m_nil T) h;
     nc \<leftarrow> get_color h (m_nil T);
     if nc = BLACK then do {
       h \<leftarrow> delete_node z h;
       Some (it, T, h)
     } else None
   }"

definition erase_os ::
  "ordered_set \<Rightarrow> 'k::linorder heap \<Rightarrow> 'k \<Rightarrow> (ptr \<times> ordered_set \<times> 'k heap) option" where
  "erase_os T h k = do {
     z \<leftarrow> search T h k;
     if z = m_nil T then Some (m_nil T, T, h) else erase_node T h z
   }"

section \<open>Construction, copy, move, teardown\<close>

text \<open>\<open>erase_tree\<close>: the breadth-first teardown; the loop state is the queue and the store.\<close>

partial_function (option) erase_tree_loop :: "'k heap \<Rightarrow> ptr \<Rightarrow> ptr list \<Rightarrow> 'k heap option" where
  "erase_tree_loop h nil buffor =
     (case buffor of [] \<Rightarrow> Some h
      | x # rest \<Rightarrow>
         (case cells h x of None \<Rightarrow> None
          | Some xn \<Rightarrow>
              erase_tree_loop (h\<lparr>cells := (cells h)(x := None)\<rparr>) nil
                (rest @ (if left xn \<noteq> nil then [left xn] else [])
                      @ (if right xn \<noteq> nil then [right xn] else []))))"

definition erase_tree :: "ordered_set \<Rightarrow> 'k heap \<Rightarrow> ptr \<Rightarrow> 'k heap option" where
  "erase_tree T h root = (if root = m_nil T then Some h else erase_tree_loop h (m_nil T) [root])"

definition clear :: "ordered_set \<Rightarrow> 'k heap \<Rightarrow> (ordered_set \<times> 'k heap) option" where
  "clear T h = do {
     h \<leftarrow> erase_tree T h (m_root T);
     Some (T\<lparr>m_root := m_nil T\<rparr>, h)
   }"

definition delete_all_memory :: "ordered_set \<Rightarrow> 'k heap \<Rightarrow> (ordered_set \<times> 'k heap) option" where
  "delete_all_memory T h = do {
     h \<leftarrow> erase_tree T h (m_root T);
     h \<leftarrow> delete_node (m_nil T) h;
     Some (T\<lparr>m_nil := nullptr, m_root := nullptr\<rparr>, h)
   }"

text \<open>The default constructor: a sentinel whose three links point to itself.\<close>

definition ordered_set_ctor :: "'k::zero heap \<Rightarrow> (ordered_set \<times> 'k heap) option" where
  "ordered_set_ctor h = do {
     (p, h) \<leftarrow> new_node \<lparr>nsize = 0, left = nullptr, right = nullptr, parent = nullptr,
                          key = 0, color = BLACK\<rparr> h;
     h \<leftarrow> set_left p p h;
     h \<leftarrow> set_right p p h;
     h \<leftarrow> set_parent p p h;
     Some (\<lparr>m_nil = p, m_root = p\<rparr>, h)
   }"

text \<open>
  \<open>deep_copy(src, dst)\<close>: a breadth-first walk of \<open>src\<close> that inserts every key into \<open>dst\<close>.
  The loop state is the queue, the destination and the store.
\<close>

partial_function (option) deep_copy_loop ::
  "ordered_set \<Rightarrow> ordered_set \<Rightarrow> 'k::linorder heap \<Rightarrow> ptr list \<Rightarrow> (ordered_set \<times> 'k heap) option" where
  "deep_copy_loop src dst h buffor =
     (case buffor of [] \<Rightarrow> Some (dst, h)
      | x # rest \<Rightarrow>
         (case get_key h x of None \<Rightarrow> None
          | Some k \<Rightarrow>
             (case insert_os dst h k of None \<Rightarrow> None
              | Some (r, dst', h') \<Rightarrow>
                 (case cells h' x of None \<Rightarrow> None
                  | Some xn \<Rightarrow>
                      deep_copy_loop src dst' h'
                        (rest @ (if left xn \<noteq> m_nil src then [left xn] else [])
                              @ (if right xn \<noteq> m_nil src then [right xn] else []))))))"

definition deep_copy ::
  "ordered_set \<Rightarrow> ordered_set \<Rightarrow> 'k::linorder heap \<Rightarrow> (ordered_set \<times> 'k heap) option" where
  "deep_copy src dst h =
     (if m_root src = m_nil src then Some (dst, h) else deep_copy_loop src dst h [m_root src])"

text \<open>The copy constructor: the new object and the store.\<close>

definition copy_ctor ::
  "ordered_set \<Rightarrow> 'k::{linorder,zero} heap \<Rightarrow> (ordered_set \<times> 'k heap) option" where
  "copy_ctor other h = do {
     (this, h) \<leftarrow> ordered_set_ctor h;
     deep_copy other this h
   }"

text \<open>
  The move constructor: the new object, the moved-from object and the store. The
  moved-from object gets a new sentinel, whose links are the \<open>nullptr\<close> of its initialiser.
\<close>

definition move_ctor ::
  "ordered_set \<Rightarrow> 'k::zero heap \<Rightarrow> (ordered_set \<times> ordered_set \<times> 'k heap) option" where
  "move_ctor other h = do {
     let this = \<lparr>m_nil = m_nil other, m_root = m_root other\<rparr>;
     (p, h) \<leftarrow> new_node \<lparr>nsize = 0, left = nullptr, right = nullptr, parent = nullptr,
                          key = 0, color = BLACK\<rparr> h;
     let other = other\<lparr>m_nil := p\<rparr>;
     let other = other\<lparr>m_root := m_nil other\<rparr>;
     Some (this, other, h)
   }"

text \<open>
  The assignment operators. Both return \<open>ordered_set\<close> by value, so \<open>return *this\<close> copy
  constructs the returned temporary. Two objects are the same object (\<open>&other == this\<close>)
  when they own the same sentinel. The results are the returned temporary, \<open>*this\<close>, (for
  the move) \<open>other\<close>, and the store.
\<close>

definition copy_assign ::
  "ordered_set \<Rightarrow> ordered_set \<Rightarrow> 'k::{linorder,zero} heap
     \<Rightarrow> (ordered_set \<times> ordered_set \<times> 'k heap) option" where
  "copy_assign this other h =
     (if m_nil other = m_nil this then do {
        (ret, h) \<leftarrow> copy_ctor this h;
        Some (ret, this, h)
      } else do {
        (this, h) \<leftarrow> deep_copy other this h;
        (ret, h) \<leftarrow> copy_ctor this h;
        Some (ret, this, h)
      })"

definition move_assign ::
  "ordered_set \<Rightarrow> ordered_set \<Rightarrow> 'k::{linorder,zero} heap
     \<Rightarrow> (ordered_set \<times> ordered_set \<times> ordered_set \<times> 'k heap) option" where
  "move_assign this other h =
     (if m_nil other = m_nil this then do {
        (ret, h) \<leftarrow> copy_ctor this h;
        Some (ret, this, other, h)
      } else do {
        (this, h) \<leftarrow> delete_all_memory this h;
        let this = this\<lparr>m_nil := m_nil other\<rparr>;
        let this = this\<lparr>m_root := m_root other\<rparr>;
        (p, h) \<leftarrow> new_node \<lparr>nsize = 0, left = nullptr, right = nullptr, parent = nullptr,
                             key = 0, color = BLACK\<rparr> h;
        let other = other\<lparr>m_nil := p\<rparr>;
        let other = other\<lparr>m_root := m_nil other\<rparr>;
        (ret, h) \<leftarrow> copy_ctor this h;
        Some (ret, this, other, h)
      })"

section \<open>Iteration\<close>

text \<open>
  A \<open>const_iterator\<close> holds a pointer to its tree object and a node pointer. The tree
  pointer is an opaque object identity here; the operations that follow it
  (\<open>operator++\<close>, \<open>operator--\<close>) take the tree object it points to as an argument.
\<close>

record const_iterator =
  m_tree :: nat
  m_node :: ptr

text \<open>
  \<open>const_iterator::operator=(const const_iterator&)\<close>, declared to return a
  \<open>const_iterator\<close> by value. Its body assigns the two members and ends without a
  \<open>return\<close> statement, so no value is returned: the second component is \<open>None\<close>.
\<close>

definition iterator_assign ::
  "const_iterator \<Rightarrow> const_iterator \<Rightarrow> const_iterator \<times> const_iterator option" where
  "iterator_assign this other =
     (let this = this\<lparr>m_tree := m_tree other\<rparr>;
          this = this\<lparr>m_node := m_node other\<rparr>
      in (this, None))"

definition iterator_incr ::
  "ordered_set \<Rightarrow> 'k heap \<Rightarrow> const_iterator \<Rightarrow> const_iterator option" where
  "iterator_incr T h this = do {
     n \<leftarrow> successor T h (m_node this);
     Some (this\<lparr>m_node := n\<rparr>)
   }"

definition iterator_decr ::
  "ordered_set \<Rightarrow> 'k heap \<Rightarrow> const_iterator \<Rightarrow> const_iterator option" where
  "iterator_decr T h this = do {
     n \<leftarrow> predecessor T h (m_node this);
     Some (this\<lparr>m_node := n\<rparr>)
   }"

definition iterator_eq :: "const_iterator \<Rightarrow> const_iterator \<Rightarrow> bool" where
  "iterator_eq this other = (m_node this = m_node other)"

definition iterator_deref :: "'k heap \<Rightarrow> const_iterator \<Rightarrow> 'k option" where
  "iterator_deref h this = get_key h (m_node this)"

text \<open>
  The traversal of a client: \<open>for (it = begin(); it != end(); ++it)\<close> collecting \<open>*it\<close>.
\<close>

partial_function (option) traverse_loop ::
  "ordered_set \<Rightarrow> 'k heap \<Rightarrow> const_iterator \<Rightarrow> 'k list \<Rightarrow> 'k list option" where
  "traverse_loop T h it acc =
     (if \<not> iterator_eq it \<lparr>m_tree = m_tree it, m_node = end_os T\<rparr> then
        (case iterator_deref h it of None \<Rightarrow> None
         | Some k \<Rightarrow>
            (case iterator_incr T h it of None \<Rightarrow> None
             | Some it' \<Rightarrow> traverse_loop T h it' (acc @ [k])))
      else Some acc)"

definition traverse :: "nat \<Rightarrow> ordered_set \<Rightarrow> 'k heap \<Rightarrow> 'k list option" where
  "traverse tid T h = do {
     b \<leftarrow> begin_os T h;
     traverse_loop T h \<lparr>m_tree = tid, m_node = b\<rparr> []
   }"

section \<open>Clients\<close>

text \<open>
  A fresh store (address 0 is \<open>nullptr\<close>, so the first node is at address 1), and a client
  that default-constructs a tree and inserts a list of keys one after the other.
\<close>

definition heap_init :: "'k heap" where
  "heap_init = \<lparr>cells = (\<lambda>p. None), next_free = 1\<rparr>"

fun insert_all ::
  "ordered_set \<Rightarrow> 'k::linorder heap \<Rightarrow> 'k list \<Rightarrow> (ordered_set \<times> 'k heap) option" where
  "insert_all T h [] = Some (T, h)"
| "insert_all T h (k # ks) =
     (case insert_os T h k of None \<Rightarrow> None
      | Some (r, T', h') \<Rightarrow> insert_all T' h' ks)"

definition build :: "'k::{linorder,zero} heap \<Rightarrow> 'k list \<Rightarrow> (ordered_set \<times> 'k heap) option" where
  "build h ks = do {
     (T, h) \<leftarrow> ordered_set_ctor h;
     insert_all T h ks
   }"

declare min_loop.simps [code]
declare max_loop.simps [code]
declare successor_loop.simps [code]
declare predecessor_loop.simps [code]
declare search_loop.simps [code]
declare order_of_key_loop.simps [code]
declare find_by_order_loop.simps [code]
declare updateSize.simps [code]
declare fixup_insert_loop.simps [code]
declare insert_loop.simps [code]
declare fixup_erase_loop.simps [code]
declare erase_tree_loop.simps [code]
declare deep_copy_loop.simps [code]
declare traverse_loop.simps [code]

section \<open>Abstraction\<close>

text \<open>
  The shape a store holds below a pointer: a binary tree whose nodes carry their address,
  key, colour and stored size. \<open>rep m nil par t\<close> says that the store \<open>m\<close> holds exactly
  the tree \<open>t\<close> below a node \<open>par\<close>: every node of \<open>t\<close> is in \<open>m\<close> at its address with these
  fields, its child links lead to the roots of its subtrees (the sentinel \<open>nil\<close> for a
  leaf) and its parent link to the node above.
\<close>

datatype 'k tree = Leaf | Node "'k tree" ptr 'k bool size_t "'k tree"

fun root_ptr :: "ptr \<Rightarrow> 'k tree \<Rightarrow> ptr" where
  "root_ptr nil Leaf = nil"
| "root_ptr nil (Node l a k c s r) = a"

fun addrs :: "'k tree \<Rightarrow> ptr list" where
  "addrs Leaf = []"
| "addrs (Node l a k c s r) = addrs l @ a # addrs r"

fun inorder :: "'k tree \<Rightarrow> 'k list" where
  "inorder Leaf = []"
| "inorder (Node l a k c s r) = inorder l @ k # inorder r"

fun rep :: "(ptr \<Rightarrow> 'k node option) \<Rightarrow> ptr \<Rightarrow> ptr \<Rightarrow> 'k tree \<Rightarrow> bool" where
  "rep m nil par Leaf = True"
| "rep m nil par (Node l a k c s r) =
     (m a = Some \<lparr>nsize = s, left = root_ptr nil l, right = root_ptr nil r, parent = par,
                  key = k, color = c\<rparr>
      \<and> rep m nil a l \<and> rep m nil a r)"

fun stored_size :: "'k tree \<Rightarrow> size_t" where
  "stored_size Leaf = 0"
| "stored_size (Node l a k c s r) = s"

fun size_ok :: "'k tree \<Rightarrow> bool" where
  "size_ok Leaf = True"
| "size_ok (Node l a k c s r) = (s = 1 + stored_size l + stored_size r \<and> size_ok l \<and> size_ok r)"

definition bst :: "'k::linorder tree \<Rightarrow> bool" where
  "bst t = sorted_wrt (<) (inorder t)"

definition nil_ok :: "(ptr \<Rightarrow> 'k node option) \<Rightarrow> ptr \<Rightarrow> bool" where
  "nil_ok m nil = (\<exists>k0. m nil = Some \<lparr>nsize = 0, left = nil, right = nil, parent = nil, key = k0, color = BLACK\<rparr>)"

fun lookup :: "ptr \<Rightarrow> 'k::linorder \<Rightarrow> 'k tree \<Rightarrow> ptr" where
  "lookup nil x Leaf = nil"
| "lookup nil x (Node l a k c s r) = (if x < k then lookup nil x l else if k < x then lookup nil x r else a)"

fun rank_res :: "'k::linorder \<Rightarrow> size_t \<Rightarrow> 'k tree \<Rightarrow> size_t" where
  "rank_res x cur Leaf = cur"
| "rank_res x cur (Node l a k c s r) =
     (if x < k then rank_res x (cur - 1 - stored_size r) l
      else if k < x then rank_res x cur r
      else cur - stored_size r - 1)"

fun lsize :: "'k tree \<Rightarrow> size_t" where
  "lsize Leaf = 0"
| "lsize (Node l a k c s r) = stored_size l"

fun sel :: "ptr \<Rightarrow> size_t \<Rightarrow> size_t \<Rightarrow> 'k tree \<Rightarrow> ptr" where
  "sel nil ord base Leaf = nil"
| "sel nil ord base (Node l a k c s r) =
     (if base + stored_size l = ord then a
      else if base + stored_size l > ord then sel nil ord base l
      else sel nil ord (base + stored_size l + 1) r)"

datatype 'k ctx = Top | InL "'k ctx" ptr 'k bool size_t "'k tree" | InR "'k tree" ptr 'k bool size_t "'k ctx"

fun plug :: "'k ctx \<Rightarrow> 'k tree \<Rightarrow> 'k tree" where
  "plug Top t = t"
| "plug (InL C a k c s r) t = plug C (Node t a k c s r)"
| "plug (InR l a k c s C) t = plug C (Node l a k c s t)"

fun ctx_ptr :: "ptr \<Rightarrow> 'k ctx \<Rightarrow> ptr" where
  "ctx_ptr nil Top = nil"
| "ctx_ptr nil (InL C a k c s r) = a"
| "ctx_ptr nil (InR l a k c s C) = a"

fun ctx_root :: "'k ctx \<Rightarrow> ptr \<Rightarrow> ptr" where
  "ctx_root Top p = p"
| "ctx_root (InL C a k c s r) p = ctx_root C a"
| "ctx_root (InR l a k c s C) p = ctx_root C a"

fun rep_ctx :: "(ptr \<Rightarrow> 'k node option) \<Rightarrow> ptr \<Rightarrow> 'k ctx \<Rightarrow> ptr \<Rightarrow> bool" where
  "rep_ctx m nil Top p = True"
| "rep_ctx m nil (InL C a k c s r) p =
     (m a = Some \<lparr>nsize = s, left = p, right = root_ptr nil r, parent = ctx_ptr nil C,
                  key = k, color = c\<rparr>
      \<and> rep m nil a r \<and> rep_ctx m nil C a)"
| "rep_ctx m nil (InR l a k c s C) p =
     (m a = Some \<lparr>nsize = s, left = root_ptr nil l, right = p, parent = ctx_ptr nil C,
                  key = k, color = c\<rparr>
      \<and> rep m nil a l \<and> rep_ctx m nil C a)"

fun before_addrs :: "'k ctx \<Rightarrow> ptr list" where
  "before_addrs Top = []"
| "before_addrs (InL C a k c s r) = before_addrs C"
| "before_addrs (InR l a k c s C) = before_addrs C @ addrs l @ [a]"

fun after_addrs :: "'k ctx \<Rightarrow> ptr list" where
  "after_addrs Top = []"
| "after_addrs (InL C a k c s r) = a # addrs r @ after_addrs C"
| "after_addrs (InR l a k c s C) = after_addrs C"

fun before_keys :: "'k ctx \<Rightarrow> 'k list" where
  "before_keys Top = []"
| "before_keys (InL C a k c s r) = before_keys C"
| "before_keys (InR l a k c s C) = before_keys C @ inorder l @ [k]"

fun after_keys :: "'k ctx \<Rightarrow> 'k list" where
  "after_keys Top = []"
| "after_keys (InL C a k c s r) = k # inorder r @ after_keys C"
| "after_keys (InR l a k c s C) = after_keys C"

definition ctx_addrs :: "'k ctx \<Rightarrow> ptr list" where
  "ctx_addrs C = before_addrs C @ after_addrs C"

fun comp_ctx :: "'k ctx \<Rightarrow> 'k ctx \<Rightarrow> 'k ctx" where
  "comp_ctx C1 Top = C1"
| "comp_ctx C1 (InL C a k c s r) = InL (comp_ctx C1 C) a k c s r"
| "comp_ctx C1 (InR l a k c s C) = InR l a k c s (comp_ctx C1 C)"

fun color_of :: "'k tree \<Rightarrow> bool" where
  "color_of Leaf = BLACK"
| "color_of (Node l a k c s r) = c"

fun bheight :: "'k tree \<Rightarrow> nat" where
  "bheight Leaf = 0"
| "bheight (Node l a k c s r) = (if c = BLACK then Suc (bheight l) else bheight l)"

fun invc :: "'k tree \<Rightarrow> bool" where
  "invc Leaf = True"
| "invc (Node l a k c s r) =
     ((c = RED \<longrightarrow> color_of l = BLACK \<and> color_of r = BLACK) \<and> invc l \<and> invc r)"

fun invh :: "'k tree \<Rightarrow> bool" where
  "invh Leaf = True"
| "invh (Node l a k c s r) = (bheight l = bheight r \<and> invh l \<and> invh r)"

definition rbt :: "'k tree \<Rightarrow> bool" where
  "rbt t = (invc t \<and> invh t \<and> color_of t = BLACK)"

definition alloc_ok :: "'k heap \<Rightarrow> bool" where
  "alloc_ok h =
     (cells h nullptr = None \<and>
      (\<forall>a. next_free h \<noteq> nullptr \<longrightarrow> next_free h \<le> a \<longrightarrow> cells h a = None))"

definition valid :: "ordered_set \<Rightarrow> 'k::linorder heap \<Rightarrow> 'k tree \<Rightarrow> bool" where
  "valid T h t =
     (rep (cells h) (m_nil T) (m_nil T) t \<and> m_root T = root_ptr (m_nil T) t \<and>
      distinct (addrs t) \<and> m_nil T \<notin> set (addrs t) \<and> nil_ok (cells h) (m_nil T) \<and>
      bst t \<and> size_ok t \<and> rbt t \<and> alloc_ok h)"

definition ex_set :: ordered_set where
  "ex_set = \<lparr>m_nil = 1, m_root = 3\<rparr>"

definition ex_heap :: "int heap" where
  "ex_heap = \<lparr>cells = (\<lambda>p. None)
       (1 \<mapsto> \<lparr>nsize = 0, left = 1, right = 1, parent = 1, key = 0, color = BLACK\<rparr>,
        2 \<mapsto> \<lparr>nsize = 1, left = 1, right = 1, parent = 3, key = 12, color = RED\<rparr>,
        3 \<mapsto> \<lparr>nsize = 3, left = 2, right = 4, parent = 1, key = 30, color = BLACK\<rparr>,
        4 \<mapsto> \<lparr>nsize = 1, left = 1, right = 1, parent = 3, key = 505, color = RED\<rparr>),
     next_free = 5\<rparr>"

definition ex_tree :: "int tree" where
  "ex_tree = Node (Node Leaf 2 12 RED 1 Leaf) 3 30 BLACK 3 (Node Leaf 4 505 RED 1 Leaf)"

fun descend :: "'k::linorder \<Rightarrow> 'k ctx \<Rightarrow> 'k tree \<Rightarrow> 'k ctx \<times> 'k tree" where
  "descend x C Leaf = (C, Leaf)"
| "descend x C (Node l a k c s r) =
     (if equal x k then (C, Node l a k c s r)
      else if x < k then descend x (InL C a k c s r) l
      else descend x (InR l a k c s C) r)"

fun paint :: "bool \<Rightarrow> 'k tree \<Rightarrow> 'k tree" where
  "paint c Leaf = Leaf"
| "paint c (Node l a k c' s r) = Node l a k c s r"

fun rot_left :: "'k tree \<Rightarrow> 'k tree" where
  "rot_left (Node l x kx cx sx (Node rl y ky cy sy rr)) =
     Node (Node l x kx cx (sx - stored_size rr - 1) rl) y ky cy (sy + stored_size l + 1) rr"
| "rot_left t = t"

fun rot_right :: "'k tree \<Rightarrow> 'k tree" where
  "rot_right (Node (Node ll y ky cy sy lr) x kx cx sx r) =
     Node ll y ky cy (sy + stored_size r + 1) (Node lr x kx cx (sx - stored_size ll - 1) r)"
| "rot_right t = t"

fun ins_fix :: "'k ctx \<Rightarrow> 'k tree \<Rightarrow> 'k tree" where
  "ins_fix (InL (InL C g kg cg sg u) p kp cp sp rp) t =
     (if cp = RED then
        (if color_of u = RED then
           ins_fix C (Node (Node t p kp BLACK sp rp) g kg RED sg (paint BLACK u))
         else plug C (rot_right (Node (Node t p kp BLACK sp rp) g kg RED sg u)))
      else plug (InL (InL C g kg cg sg u) p kp cp sp rp) t)"
| "ins_fix (InR lp p kp cp sp (InL C g kg cg sg u)) t =
     (if cp = RED then
        (if color_of u = RED then
           ins_fix C (Node (Node lp p kp BLACK sp t) g kg RED sg (paint BLACK u))
         else plug C (rot_right (Node (paint BLACK (rot_left (Node lp p kp cp sp t))) g kg RED sg u)))
      else plug (InR lp p kp cp sp (InL C g kg cg sg u)) t)"
| "ins_fix (InL (InR u g kg cg sg C) p kp cp sp rp) t =
     (if cp = RED then
        (if color_of u = RED then
           ins_fix C (Node (paint BLACK u) g kg RED sg (Node t p kp BLACK sp rp))
         else plug C (rot_left (Node u g kg RED sg (paint BLACK (rot_right (Node t p kp cp sp rp))))))
      else plug (InL (InR u g kg cg sg C) p kp cp sp rp) t)"
| "ins_fix (InR lp p kp cp sp (InR u g kg cg sg C)) t =
     (if cp = RED then
        (if color_of u = RED then
           ins_fix C (Node (paint BLACK u) g kg RED sg (Node lp p kp BLACK sp t))
         else plug C (rot_left (Node u g kg RED sg (Node lp p kp BLACK sp t))))
      else plug (InR lp p kp cp sp (InR u g kg cg sg C)) t)"
| "ins_fix Top t = t"
| "ins_fix (InL Top p kp cp sp rp) t = Node t p kp cp sp rp"
| "ins_fix (InR lp p kp cp sp Top) t = Node lp p kp cp sp t"

definition fin :: "ptr \<Rightarrow> 'k heap \<Rightarrow> ptr set \<Rightarrow> ordered_set \<Rightarrow> 'k heap \<Rightarrow> 'k tree \<Rightarrow> bool" where
  "fin nil h A T' h' t' =
     (m_nil T' = nil \<and> rep (cells h') nil nil t' \<and> m_root T' = root_ptr nil t' \<and>
      next_free h' = next_free h \<and> (\<forall>a. a \<notin> A \<longrightarrow> cells h' a = cells h a))"

fun top_black :: "'k ctx \<Rightarrow> bool" where
  "top_black Top = True"
| "top_black (InL Top a k c s r) = (c = BLACK)"
| "top_black (InL C a k c s r) = top_black C"
| "top_black (InR l a k c s Top) = (c = BLACK)"
| "top_black (InR l a k c s C) = top_black C"

definition zrep :: "ptr \<Rightarrow> ordered_set \<Rightarrow> 'k heap \<Rightarrow> 'k ctx \<Rightarrow> 'k tree \<Rightarrow> bool" where
  "zrep nil T h C t =
     (rep_ctx (cells h) nil C (root_ptr nil t) \<and> rep (cells h) nil (ctx_ptr nil C) t \<and>
      m_root T = ctx_root C (root_ptr nil t) \<and> m_nil T = nil \<and>
      distinct (addrs (plug C t)) \<and> nil \<notin> set (addrs (plug C t)) \<and> nil_ok (cells h) nil)"

fun ctx_color :: "'k ctx \<Rightarrow> bool" where
  "ctx_color Top = BLACK"
| "ctx_color (InL C a k c s r) = c"
| "ctx_color (InR l a k c s C) = c"

fun ctx_invc :: "'k ctx \<Rightarrow> bool" where
  "ctx_invc Top = True"
| "ctx_invc (InL C a k c s r) =
     (invc r \<and> (c = RED \<longrightarrow> color_of r = BLACK \<and> ctx_color C = BLACK) \<and> ctx_invc C)"
| "ctx_invc (InR l a k c s C) =
     (invc l \<and> (c = RED \<longrightarrow> color_of l = BLACK \<and> ctx_color C = BLACK) \<and> ctx_invc C)"

fun ctx_invh :: "'k ctx \<Rightarrow> nat \<Rightarrow> bool" where
  "ctx_invh Top n = True"
| "ctx_invh (InL C a k c s r) n =
     (n = bheight r \<and> invh r \<and> ctx_invh C (if c = BLACK then Suc n else n))"
| "ctx_invh (InR l a k c s C) n =
     (bheight l = n \<and> invh l \<and> ctx_invh C (if c = BLACK then Suc (bheight l) else bheight l))"

fun ctx_size_ok :: "'k ctx \<Rightarrow> size_t \<Rightarrow> bool" where
  "ctx_size_ok Top n = True"
| "ctx_size_ok (InL C a k c s r) n = (s = 1 + n + stored_size r \<and> size_ok r \<and> ctx_size_ok C s)"
| "ctx_size_ok (InR l a k c s C) n = (s = 1 + stored_size l + n \<and> size_ok l \<and> ctx_size_ok C s)"

fun ctx_add :: "size_t \<Rightarrow> 'k ctx \<Rightarrow> 'k ctx" where
  "ctx_add v Top = Top"
| "ctx_add v (InL C a k c s r) = InL (ctx_add v C) a k c (s + v) r"
| "ctx_add v (InR l a k c s C) = InR l a k c (s + v) (ctx_add v C)"

fun path_ok :: "'k::linorder \<Rightarrow> 'k ctx \<Rightarrow> bool" where
  "path_ok x Top = True"
| "path_ok x (InL C a k c s r) = (x < k \<and> path_ok x C)"
| "path_ok x (InR l a k c s C) = (k < x \<and> path_ok x C)"

definition nil_node :: "(ptr \<Rightarrow> 'k node option) \<Rightarrow> ptr \<Rightarrow> bool" where
  "nil_node m nil =
     (\<exists>np k0. m nil = Some \<lparr>nsize = 0, left = nil, right = nil, parent = np, key = k0, color = BLACK\<rparr>)"

definition xrep :: "ptr \<Rightarrow> ordered_set \<Rightarrow> 'k heap \<Rightarrow> 'k ctx \<Rightarrow> 'k tree \<Rightarrow> bool" where
  "xrep nil T h C t =
     (rep_ctx (cells h) nil C (root_ptr nil t) \<and> rep (cells h) nil (ctx_ptr nil C) t \<and>
      m_root T = ctx_root C (root_ptr nil t) \<and> m_nil T = nil \<and>
      distinct (addrs (plug C t)) \<and> nil \<notin> set (addrs (plug C t)) \<and> nil_node (cells h) nil \<and>
      map_option parent (cells h (root_ptr nil t)) = Some (ctx_ptr nil C))"

fun del_tail_left :: "'k ctx \<Rightarrow> ptr \<Rightarrow> 'k \<Rightarrow> bool \<Rightarrow> size_t \<Rightarrow> 'k tree \<Rightarrow> 'k tree \<Rightarrow> 'k ctx \<times> 'k tree" where
  "del_tail_left C p kp cp sp (Node wl wa wk wc ws wr) t =
     (if color_of wl = BLACK \<and> color_of wr = BLACK then
        (C, Node t p kp cp sp (Node wl wa wk RED ws wr))
      else
        (case (if color_of wr = BLACK then rot_right (Node (paint BLACK wl) wa wk RED ws wr)
               else Node wl wa wk wc ws wr) of
           Node wl2 wa2 wk2 wc2 ws2 wr2 \<Rightarrow>
             (Top, plug C (rot_left (Node t p kp BLACK sp (Node wl2 wa2 wk2 cp ws2 (paint BLACK wr2)))))
         | Leaf \<Rightarrow> (Top, Leaf)))"
| "del_tail_left C p kp cp sp Leaf t = (Top, Leaf)"

fun del_tail_right :: "'k ctx \<Rightarrow> ptr \<Rightarrow> 'k \<Rightarrow> bool \<Rightarrow> size_t \<Rightarrow> 'k tree \<Rightarrow> 'k tree \<Rightarrow> 'k ctx \<times> 'k tree" where
  "del_tail_right C p kp cp sp (Node wl wa wk wc ws wr) t =
     (if color_of wr = BLACK \<and> color_of wl = BLACK then
        (C, Node (Node wl wa wk RED ws wr) p kp cp sp t)
      else
        (case (if color_of wl = BLACK then rot_left (Node wl wa wk RED ws (paint BLACK wr))
               else Node wl wa wk wc ws wr) of
           Node wl2 wa2 wk2 wc2 ws2 wr2 \<Rightarrow>
             (Top, plug C (rot_right (Node (Node (paint BLACK wl2) wa2 wk2 cp ws2 wr2) p kp BLACK sp t)))
         | Leaf \<Rightarrow> (Top, Leaf)))"
| "del_tail_right C p kp cp sp Leaf t = (Top, Leaf)"

fun del_step :: "'k ctx \<Rightarrow> 'k tree \<Rightarrow> 'k ctx \<times> 'k tree" where
  "del_step (InL C p kp cp sp (Node wl wa wk wc ws wr)) t =
     (if wc = RED then
        del_tail_left (InL C wa wk BLACK (ws + stored_size t + 1) wr) p kp RED
          (sp - stored_size wr - 1) wl t
      else del_tail_left C p kp cp sp (Node wl wa wk wc ws wr) t)"
| "del_step (InR (Node wl wa wk wc ws wr) p kp cp sp C) t =
     (if wc = RED then
        del_tail_right (InR wl wa wk BLACK (ws + stored_size t + 1) C) p kp RED
          (sp - stored_size wl - 1) wr t
      else del_tail_right C p kp cp sp (Node wl wa wk wc ws wr) t)"
| "del_step (InL C p kp cp sp Leaf) t = (Top, Leaf)"
| "del_step (InR Leaf p kp cp sp C) t = (Top, Leaf)"
| "del_step Top t = (Top, t)"

definition dinv :: "'k ctx \<Rightarrow> 'k tree \<Rightarrow> bool" where
  "dinv C t = (invc (paint BLACK t) \<and> invh t \<and> ctx_invc C \<and> ctx_invh C (Suc (bheight t)) \<and>
      top_black C \<and> size_ok (plug C t))"

fun depth :: "'k ctx \<Rightarrow> nat" where
  "depth Top = 0"
| "depth (InL C a k c s r) = Suc (depth C)"
| "depth (InR l a k c s C) = Suc (depth C)"

definition dmeasure :: "'k ctx \<Rightarrow> 'k tree \<Rightarrow> nat" where
  "dmeasure C t = 2 * depth C + (if color_of t = BLACK then 1 else 0)"

fun lspine :: "'k ctx \<Rightarrow> bool" where
  "lspine Top = True"
| "lspine (InL C a k c s r) = lspine C"
| "lspine (InR l a k c s C) = False"

section \<open>Properties of the operations\<close>

lemma rep_cong: "(\<And>a. a \<in> set (addrs t) \<Longrightarrow> m' a = m a) \<Longrightarrow> rep m' nil par t = rep m nil par t"
  by (induction t arbitrary: par) auto

lemma rep_upd_other [simp]: "a \<notin> set (addrs t) \<Longrightarrow> rep (m(a := x)) nil par t = rep m nil par t"
  by (rule rep_cong) auto

lemma length_addrs: "length (addrs t) = length (inorder t)"
  by (induction t) auto

lemma stored_size_count: "size_ok t \<Longrightarrow> stored_size t = of_nat (length (inorder t))"
  by (induction t) auto

(* pigeonhole *)

lemma distinct_ptrs_bound:
  fixes xs :: "ptr list"
  assumes "distinct xs" "nil \<notin> set xs"
  shows "length xs < 2 ^ 64"
proof -
  have "length xs = card (set xs)" using assms(1) by (simp add: distinct_card)
  also have "\<dots> < card (insert nil (set xs))" using assms(2) by simp
  also have "\<dots> \<le> card (UNIV :: ptr set)" by (rule card_mono) auto
  also have "\<dots> = 2 ^ 64" by (simp add: card_word)
  finally show ?thesis .
qed

(* search *)

lemma search_loop_lookup:
  "rep (cells h) nil par t \<Longrightarrow> nil \<notin> set (addrs t) \<Longrightarrow>
   search_loop h nil x (root_ptr nil t) = Some (lookup nil x t)"
proof (induction t arbitrary: par)
  case Leaf
  show ?case by (subst search_loop.simps) simp
next
  case (Node l a k c s r)
  then show ?case
    by (subst search_loop.simps) (auto simp: not_equal_def)
qed

lemma lookup_absent: "bst t \<Longrightarrow> nil \<notin> set (addrs t) \<Longrightarrow> (lookup nil x t = nil) = (x \<notin> set (inorder t))"
  by (induction t) (auto simp: bst_def sorted_wrt_append)

lemma root_ptr_nil_iff: "nil \<notin> set (addrs t) \<Longrightarrow> (root_ptr nil t = nil) = (t = Leaf)"
  by (cases t) auto

lemma rep_root_size:
  "rep m nil par t \<Longrightarrow> nil_ok m nil \<Longrightarrow> map_option nsize (m (root_ptr nil t)) = Some (stored_size t)"
  by (cases t) (auto simp: nil_ok_def)

lemma order_of_key_loop_rank:
  "rep (cells h) nil par t \<Longrightarrow> nil \<notin> set (addrs t) \<Longrightarrow> nil_ok (cells h) nil \<Longrightarrow>
   do {
     (current, x) \<leftarrow> order_of_key_loop h nil k cur (root_ptr nil t);
     xr \<leftarrow> get_right h x;
     current \<leftarrow> (if xr \<noteq> nil then do { s \<leftarrow> get_size h xr; Some (current - s) }
                 else Some current);
     Some (if x \<noteq> nil then current - 1 else current)
   } = Some (rank_res k cur t)"
proof (induction t arbitrary: par cur)
  case Leaf
  then show ?case
    by (subst order_of_key_loop.simps) (auto simp: nil_ok_def get_right_def)
next
  case (Node l a k' c s r)
  have sr: "map_option nsize (cells h (root_ptr nil r)) = Some (stored_size r)"
    using Node.prems by (intro rep_root_size[where par=a]) auto
  have rn: "(root_ptr nil r = nil) = (r = Leaf)"
    using Node.prems by (intro root_ptr_nil_iff) auto
  show ?case
  proof (cases "k < k'")
    case True
    with Node.prems Node.IH(1)[of a "cur - 1 - stored_size r"] sr rn show ?thesis
      by (subst order_of_key_loop.simps) (auto simp: not_equal_def split: option.splits)
  next
    case False
    show ?thesis
    proof (cases "k' < k")
      case True
      with Node.prems Node.IH(2)[of a cur] \<open>\<not> k < k'\<close> show ?thesis
        by (subst order_of_key_loop.simps) (auto simp: not_equal_def)
    next
      case F2: False
      with Node.prems \<open>\<not> k < k'\<close> sr rn show ?thesis
        by (subst order_of_key_loop.simps) (auto simp: not_equal_def get_right_def get_size_def)
    qed
  qed
qed

lemma rank_res_count:
  "size_ok t \<Longrightarrow> bst t \<Longrightarrow>
   rank_res x (c + stored_size t) t = c + of_nat (length (filter (\<lambda>y. y < x) (inorder t)))"
proof (induction t arbitrary: c)
  case Leaf
  then show ?case by simp
next
  case (Node l a k col s r)
  have bl: "bst l" and br: "bst r" using Node.prems by (auto simp: bst_def sorted_wrt_append)
  have lk: "\<forall>y\<in>set (inorder l). y < k" and kr: "\<forall>y\<in>set (inorder r). k < y"
    using Node.prems by (auto simp: bst_def sorted_wrt_append)
  have s: "s = 1 + stored_size l + stored_size r" and sl: "size_ok l" and sr: "size_ok r"
    using Node.prems by auto
  show ?case
  proof (cases "x < k")
    case True
    have "filter (\<lambda>y. y < x) (inorder r) = []" using kr True by (auto simp: filter_empty_conv)
    moreover have "rank_res x (c + stored_size l) l = c + of_nat (length (filter (\<lambda>y. y < x) (inorder l)))"
      using Node.IH(1)[OF sl bl] .
    ultimately show ?thesis using True s by simp
  next
    case False
    show ?thesis
    proof (cases "k < x")
      case True
      have fl: "filter (\<lambda>y. y < x) (inorder l) = inorder l" using lk True by (auto simp: filter_id_conv)
      have "rank_res x ((c + 1 + stored_size l) + stored_size r) r
            = (c + 1 + stored_size l) + of_nat (length (filter (\<lambda>y. y < x) (inorder r)))"
        using Node.IH(2)[OF sr br] .
      then show ?thesis using True False s fl stored_size_count[OF sl] by (simp add: ac_simps)
    next
      case F2: False
      then have xk: "x = k" using False by simp
      have fl: "filter (\<lambda>y. y < x) (inorder l) = inorder l" using lk xk by (auto simp: filter_id_conv)
      have fr: "filter (\<lambda>y. y < x) (inorder r) = []" using kr xk by (auto simp: filter_empty_conv)
      show ?thesis using xk s fl fr stored_size_count[OF sl] by simp
    qed
  qed
qed

lemma rep_root_lsize:
  "rep m nil par t \<Longrightarrow> nil_ok m nil \<Longrightarrow>
   (case m (root_ptr nil t) of None \<Rightarrow> None | Some n \<Rightarrow> map_option nsize (m (left n))) = Some (lsize t)"
  by (cases t) (auto simp: nil_ok_def dest: rep_root_size)

lemma find_by_order_loop_sel:
  "rep (cells h) nil par t \<Longrightarrow> nil \<notin> set (addrs t) \<Longrightarrow> nil_ok (cells h) nil \<Longrightarrow>
   find_by_order_loop h nil ord (base + lsize t) (root_ptr nil t) = Some (sel nil ord base t)"
proof (induction t arbitrary: par base)
  case Leaf
  show ?case by (subst find_by_order_loop.simps) simp
next
  case (Node l a k c s r)
  have l1: "map_option nsize (cells h (root_ptr nil l)) = Some (stored_size l)"
    using Node.prems by (intro rep_root_size[where par=a]) auto
  have l2: "(case cells h (root_ptr nil l) of None \<Rightarrow> None | Some n \<Rightarrow> map_option nsize (cells h (left n))) = Some (lsize l)"
    using Node.prems by (intro rep_root_lsize[where par=a]) auto
  have r2: "(case cells h (root_ptr nil r) of None \<Rightarrow> None | Some n \<Rightarrow> map_option nsize (cells h (left n))) = Some (lsize r)"
    using Node.prems by (intro rep_root_lsize[where par=a]) auto
  have an: "a \<noteq> nil" using Node.prems by auto
  have c: "cells h a = Some \<lparr>nsize = s, left = root_ptr nil l, right = root_ptr nil r, parent = par,
                  key = k, color = c\<rparr>" using Node.prems by simp
  show ?case
  proof (cases "base + stored_size l = ord")
    case True
    then show ?thesis by (subst find_by_order_loop.simps) simp
  next
    case False
    show ?thesis
    proof (cases "base + stored_size l > ord")
      case True
      have "find_by_order_loop h nil ord (base + lsize l) (root_ptr nil l) = Some (sel nil ord base l)"
        using Node.prems by (intro Node.IH(1)[where par=a]) auto
      with True False an c l1 l2 show ?thesis
        by (subst find_by_order_loop.simps) (auto split: option.splits)
    next
      case F2: False
      have "find_by_order_loop h nil ord ((base + stored_size l + 1) + lsize r) (root_ptr nil r) = Some (sel nil ord (base + stored_size l + 1) r)"
        using Node.prems by (intro Node.IH(2)[where par=a]) auto
      with F2 False an c r2 show ?thesis
        by (subst find_by_order_loop.simps) (auto split: option.splits simp: ac_simps)
    qed
  qed
qed

lemma w64_eq: "a < 2 ^ 64 \<Longrightarrow> b < 2 ^ 64 \<Longrightarrow> ((of_nat a :: size_t) = of_nat b) = (a = b)"
  by (simp add: word_of_nat_eq_iff take_bit_nat_eq_self)

lemma w64_less: "a < 2 ^ 64 \<Longrightarrow> b < 2 ^ 64 \<Longrightarrow> ((of_nat a :: size_t) < of_nat b) = (a < b)"
  by (simp add: word_of_nat_less_iff take_bit_nat_eq_self)

lemma sel_nth:
  "size_ok t \<Longrightarrow> b + length (inorder t) < 2 ^ 64 \<Longrightarrow> n < 2 ^ 64 \<Longrightarrow>
   sel nil (of_nat n) (of_nat b) t =
     (if b \<le> n \<and> n < b + length (inorder t) then addrs t ! (n - b) else nil)"
proof (induction t arbitrary: b)
  case Leaf
  then show ?case by auto
next
  case (Node l a k c s r)
  let ?ll = "length (inorder l)"
  have sl: "stored_size l = of_nat ?ll" using Node.prems by (simp add: stored_size_count)
  have bl: "b + ?ll < 2 ^ 64" using Node.prems by simp
  have e1: "((of_nat b :: size_t) + of_nat ?ll = of_nat n) = (b + ?ll = n)"
    using w64_eq[OF bl Node.prems(3)] by simp
  have e2: "((of_nat b :: size_t) + of_nat ?ll > of_nat n) = (b + ?ll > n)"
    using w64_less[OF Node.prems(3) bl] by simp
  have il: "sel nil (of_nat n) (of_nat b) l = (if b \<le> n \<and> n < b + ?ll then addrs l ! (n - b) else nil)"
    using Node.prems by (intro Node.IH(1)) auto
  have ir: "sel nil (of_nat n) (of_nat (b + ?ll + 1)) r =
      (if b + ?ll + 1 \<le> n \<and> n < b + ?ll + 1 + length (inorder r) then addrs r ! (n - (b + ?ll + 1)) else nil)"
    using Node.prems by (intro Node.IH(2)) auto
  have la: "length (addrs l) = ?ll" by (rule length_addrs)
  consider (eq) "b + ?ll = n" | (lt) "n < b + ?ll" | (gt) "b + ?ll < n" by linarith
  then show ?case
  proof cases
    case eq
    then have "n - b = ?ll" by simp
    then show ?thesis using eq e1 sl la by (simp add: nth_append)
  next
    case lt
    then have sel: "sel nil (of_nat n) (of_nat b) (Node l a k c s r) = sel nil (of_nat n) (of_nat b) l"
      using e1 e2 sl by simp
    show ?thesis
    proof (cases "b \<le> n")
      case True
      then have "n - b < length (addrs l)" using lt la by simp
      then show ?thesis using sel il True lt by (simp add: nth_append)
    next
      case False
      then show ?thesis using sel il by simp
    qed
  next
    case gt
    have w: "of_nat b + stored_size l + (1::size_t) = of_nat (b + ?ll + 1)" using sl by simp
    have "sel nil (of_nat n) (of_nat b) (Node l a k c s r) = sel nil (of_nat n) (of_nat b + stored_size l + 1) r"
      using e1 e2 sl gt by simp
    then have sel: "sel nil (of_nat n) (of_nat b) (Node l a k c s r) = sel nil (of_nat n) (of_nat (b + ?ll + 1)) r"
      by (simp only: w)
    show ?thesis
    proof (cases "n < b + ?ll + 1 + length (inorder r)")
      case True
      have "n - b = length (addrs l) + Suc (n - (b + ?ll + 1))" using gt la by simp
      then have "(addrs l @ a # addrs r) ! (n - b) = addrs r ! (n - (b + ?ll + 1))"
        by (simp add: nth_append)
      then show ?thesis using sel ir True gt by simp
    next
      case False
      then show ?thesis using sel ir gt by simp
    qed
  qed
qed

lemma addrs_plug: "addrs (plug C t) = before_addrs C @ addrs t @ after_addrs C"
  by (induction C arbitrary: t) auto

lemma inorder_plug: "inorder (plug C t) = before_keys C @ inorder t @ after_keys C"
  by (induction C arbitrary: t) auto

lemma length_before: "length (before_addrs C) = length (before_keys C)"
  by (induction C) (auto simp: length_addrs)

lemma root_ptr_plug: "root_ptr nil (plug C t) = ctx_root C (root_ptr nil t)"
  by (induction C arbitrary: t) auto

lemma rep_plug: "rep m nil nil (plug C t) = (rep_ctx m nil C (root_ptr nil t) \<and> rep m nil (ctx_ptr nil C) t)"
  by (induction C arbitrary: t) auto

lemma plug_comp: "plug (comp_ctx C1 C2) t = plug C1 (plug C2 t)"
  by (induction C2 arbitrary: t) auto

lemma before_comp: "before_addrs (comp_ctx C1 C2) = before_addrs C1 @ before_addrs C2"
  by (induction C2) auto

lemma nth_zipper:
  "i < length (addrs t) \<Longrightarrow>
   \<exists>C l k c s r. t = plug C (Node l (addrs t ! i) k c s r) \<and> length (before_addrs C) + length (addrs l) = i"
proof (induction t arbitrary: i)
  case Leaf
  then show ?case by simp
next
  case (Node l a k c s r)
  consider (lt) "i < length (addrs l)" | (eq) "i = length (addrs l)" | (gt) "i > length (addrs l)" by linarith
  then show ?case
  proof cases
    case lt
    from Node.IH(1)[OF lt] obtain C l' k' c' s' r' where
      e: "l = plug C (Node l' (addrs l ! i) k' c' s' r')" and n: "length (before_addrs C) + length (addrs l') = i" by blast
    have "Node l a k c s r = plug (comp_ctx (InL Top a k c s r) C) (Node l' (addrs l ! i) k' c' s' r')"
      using e by (simp add: plug_comp)
    moreover have "addrs (Node l a k c s r) ! i = addrs l ! i" using lt by (simp add: nth_append)
    moreover have "length (before_addrs (comp_ctx (InL Top a k c s r) C)) + length (addrs l') = i"
      using n by (simp add: before_comp)
    ultimately show ?thesis by metis
  next
    case eq
    have "Node l a k c s r = plug Top (Node l a k c s r)" by simp
    moreover have "addrs (Node l a k c s r) ! i = a" using eq by (simp add: nth_append)
    ultimately show ?thesis using eq by (metis before_addrs.simps(1) add_0 list.size(3))
  next
    case gt
    define j where "j = i - length (addrs l) - 1"
    have j: "j < length (addrs r)" using gt Node.prems by (auto simp: j_def)
    from Node.IH(2)[OF j] obtain C l' k' c' s' r' where
      e: "r = plug C (Node l' (addrs r ! j) k' c' s' r')" and n: "length (before_addrs C) + length (addrs l') = j" by blast
    have "Node l a k c s r = plug (comp_ctx (InR l a k c s Top) C) (Node l' (addrs r ! j) k' c' s' r')"
      using e by (simp add: plug_comp)
    moreover have "addrs (Node l a k c s r) ! i = addrs r ! j" using gt by (auto simp: nth_append j_def nth_Cons')
    moreover have "length (before_addrs (comp_ctx (InR l a k c s Top) C)) + length (addrs l') = i"
      using n gt by (simp add: before_comp j_def)
    ultimately show ?thesis by metis
  qed
qed

lemma min_loop_hd:
  "rep (cells h) nil par t \<Longrightarrow> nil \<notin> set (addrs t) \<Longrightarrow> t \<noteq> Leaf \<Longrightarrow>
   min_loop h nil (root_ptr nil t) = Some (hd (addrs t))"
proof (induction t arbitrary: par)
  case Leaf
  then show ?case by simp
next
  case (Node l a k c s r)
  show ?case
  proof (cases l)
    case Leaf
    with Node.prems show ?thesis by (subst min_loop.simps) simp
  next
    case (Node l1 a1 k1 c1 s1 r1)
    have "min_loop h nil (root_ptr nil l) = Some (hd (addrs l))"
      using Node.prems Node by (intro Node.IH(1)[where par=a]) auto
    with Node.prems Node show ?thesis by (subst min_loop.simps) (auto simp: hd_append)
  qed
qed

lemma successor_loop_up:
  "rep_ctx (cells h) nil C x \<Longrightarrow> cells h x = Some n \<Longrightarrow> parent n = ctx_ptr nil C \<Longrightarrow> x \<noteq> nil \<Longrightarrow>
   nil_ok (cells h) nil \<Longrightarrow> x \<notin> set (ctx_addrs C) \<Longrightarrow> nil \<notin> set (ctx_addrs C) \<Longrightarrow>
   distinct (ctx_addrs C) \<Longrightarrow>
   successor_loop h nil x = Some (hd (after_addrs C @ [nil]))"
proof (induction C arbitrary: x n)
  case Top
  then show ?case
    by (subst successor_loop.simps, subst successor_loop.simps) (auto simp: nil_ok_def)
next
  case (InL C a k c s r)
  then show ?case by (subst successor_loop.simps) auto
next
  case (InR l a k c s C)
  have xl: "x \<noteq> root_ptr nil l" using InR.prems by (cases l) (auto simp: ctx_addrs_def)
  have "successor_loop h nil a = Some (hd (after_addrs C @ [nil]))"
    using InR.prems by (intro InR.IH[where n="\<lparr>nsize = s, left = root_ptr nil l, right = x, parent = ctx_ptr nil C, key = k, color = c\<rparr>"]) (auto simp: ctx_addrs_def)
  with InR.prems xl show ?case by (subst successor_loop.simps) auto
qed

lemma successor_next:
  assumes "rep (cells h) nil nil t" "nil_ok (cells h) nil" "distinct (addrs t)" "nil \<notin> set (addrs t)"
    "i < length (addrs t)" "m_nil T = nil"
  shows "successor T h (addrs t ! i) = Some ((addrs t @ [nil]) ! Suc i)"
proof -
  from nth_zipper[OF assms(5)] obtain C l k c s r where
    t: "t = plug C (Node l (addrs t ! i) k c s r)" and i: "length (before_addrs C) + length (addrs l) = i"
    by blast
  define x where "x = addrs t ! i"
  have t': "t = plug C (Node l x k c s r)" using t x_def by simp
  have ad: "addrs t = before_addrs C @ addrs l @ x # addrs r @ after_addrs C"
    by (subst t') (simp add: addrs_plug)
  have rc: "rep_ctx (cells h) nil C x" and rn: "rep (cells h) nil (ctx_ptr nil C) (Node l x k c s r)"
    using assms(1) by (subst (asm) t', simp add: rep_plug)+
  have nx: "(addrs t @ [nil]) ! Suc i = hd (addrs r @ after_addrs C @ [nil])"
  proof -
    have "addrs t @ [nil] = (before_addrs C @ addrs l) @ x # (addrs r @ after_addrs C @ [nil])"
      using ad by simp
    moreover have "length (before_addrs C @ addrs l) = i" using i by simp
    ultimately have "(addrs t @ [nil]) ! Suc i = (addrs r @ after_addrs C @ [nil]) ! 0"
      by (metis nth_append_length_plus add_Suc_right nth_Cons_Suc add_0_right)
    then show ?thesis by (simp add: hd_conv_nth)
  qed
  have cx: "cells h x = Some \<lparr>nsize = s, left = root_ptr nil l, right = root_ptr nil r,
      parent = ctx_ptr nil C, key = k, color = c\<rparr>" using rn by simp
  have xn: "x \<noteq> nil" using assms(4) ad by auto
  show ?thesis
  proof (cases r)
    case Leaf
    have "successor_loop h nil x = Some (hd (after_addrs C @ [nil]))"
      using rc cx xn assms(2,3,4) ad
      by (intro successor_loop_up[where n="\<lparr>nsize = s, left = root_ptr nil l, right = root_ptr nil r,
      parent = ctx_ptr nil C, key = k, color = c\<rparr>"]) (auto simp: ctx_addrs_def)
    then show ?thesis using Leaf cx nx assms(6) by (simp add: successor_def x_def[symmetric])
  next
    case (Node l1 a1 k1 c1 s1 r1)
    have "min_loop h nil (root_ptr nil r) = Some (hd (addrs r))"
      using rn assms(4) ad Node by (intro min_loop_hd[where par=x]) auto
    moreover have "root_ptr nil r \<noteq> nil" using Node assms(4) ad by auto
    moreover have "hd (addrs r @ after_addrs C @ [nil]) = hd (addrs r)" using Node by (simp add: hd_append)
    ultimately show ?thesis using cx nx assms(6) by (simp add: successor_def min_node_def x_def[symmetric])
  qed
qed

lemma key_at_addr:
  "rep m nil par t \<Longrightarrow> i < length (addrs t) \<Longrightarrow> map_option key (m (addrs t ! i)) = Some (inorder t ! i)"
proof (induction t arbitrary: par i)
  case Leaf
  then show ?case by simp
next
  case (Node l a k c s r)
  consider (lt) "i < length (addrs l)" | (eq) "i = length (addrs l)" | (gt) "i > length (addrs l)" by linarith
  then show ?case
  proof cases
    case lt
    then show ?thesis using Node.prems Node.IH(1)[of a i] by (simp add: nth_append length_addrs)
  next
    case eq
    then show ?thesis using Node.prems by (simp add: nth_append length_addrs)
  next
    case gt
    then have "i - length (addrs l) - 1 < length (addrs r)" using Node.prems by auto
    from Node.IH(2)[OF _ this, of a] gt Node.prems show ?thesis
      by (auto simp: nth_append length_addrs nth_Cons')
  qed
qed

lemma traverse_loop_drop:
  assumes "rep (cells h) nil nil t" "nil_ok (cells h) nil" "distinct (addrs t)" "nil \<notin> set (addrs t)"
    "m_nil T = nil"
  shows "i \<le> length (addrs t) \<Longrightarrow>
    traverse_loop T h \<lparr>m_tree = tid, m_node = (addrs t @ [nil]) ! i\<rparr> acc = Some (acc @ drop i (inorder t))"
proof (induction "length (addrs t) - i" arbitrary: i acc)
  case 0
  then have "i = length (addrs t)" by simp
  then show ?case using assms(5)
    by (subst traverse_loop.simps) (simp add: iterator_eq_def end_os_def nth_append length_addrs)
next
  case (Suc n)
  then have i: "i < length (addrs t)" by simp
  have ne: "(addrs t @ [nil]) ! i \<noteq> nil" using i assms(4) by (auto simp: nth_append)
  have k: "get_key h ((addrs t @ [nil]) ! i) = Some (inorder t ! i)"
    using key_at_addr[OF assms(1) i] i by (simp add: get_key_def nth_append)
  have s: "successor T h ((addrs t @ [nil]) ! i) = Some ((addrs t @ [nil]) ! Suc i)"
    using successor_next[OF assms(1-4) i assms(5)] i by (simp add: nth_append)
  have "traverse_loop T h \<lparr>m_tree = tid, m_node = (addrs t @ [nil]) ! Suc i\<rparr> (acc @ [inorder t ! i])
        = Some ((acc @ [inorder t ! i]) @ drop (Suc i) (inorder t))"
    using Suc i by (intro Suc.hyps(1)) auto
  then show ?case using ne k s i assms(5)
    by (subst traverse_loop.simps)
       (simp add: iterator_eq_def end_os_def iterator_deref_def iterator_incr_def
          Cons_nth_drop_Suc length_addrs)
qed

lemma valid_size_bound: "valid T h t \<Longrightarrow> length (inorder t) < 2 ^ 64"
  using distinct_ptrs_bound[of "addrs t" "m_nil T"] by (simp add: valid_def length_addrs)

lemma ex_alloc: "alloc_ok ex_heap"
  unfolding alloc_ok_def ex_heap_def nullptr_def
  by (auto simp: word_le_nat_alt)

lemma ex_valid: "valid ex_set ex_heap ex_tree"
  using ex_alloc
  by (simp add: valid_def ex_set_def ex_heap_def ex_tree_def nil_ok_def bst_def rbt_def RED_def BLACK_def)

lemma insert_loop_descend:
  "rep (cells h) nil (ctx_ptr nil C) t \<Longrightarrow> nil \<notin> set (addrs t) \<Longrightarrow>
   insert_loop h nil x (root_ptr nil t) (ctx_ptr nil C) =
     Some (case descend x C t of (C', Leaf) \<Rightarrow> Inr (ctx_ptr nil C')
           | (C', Node l a k c s r) \<Rightarrow> Inl a)"
proof (induction t arbitrary: C)
  case Leaf
  show ?case by (subst insert_loop.simps) simp
next
  case (Node l a k c s r)
  have l: "insert_loop h nil x (root_ptr nil l) (ctx_ptr nil (InL C a k c s r)) =
     Some (case descend x (InL C a k c s r) l of (C', Leaf) \<Rightarrow> Inr (ctx_ptr nil C')
           | (C', Node l a k c s r) \<Rightarrow> Inl a)"
    using Node.prems by (intro Node.IH(1)) auto
  have r: "insert_loop h nil x (root_ptr nil r) (ctx_ptr nil (InR l a k c s C)) =
     Some (case descend x (InR l a k c s C) r of (C', Leaf) \<Rightarrow> Inr (ctx_ptr nil C')
           | (C', Node l a k c s r) \<Rightarrow> Inl a)"
    using Node.prems by (intro Node.IH(2)) auto
  show ?case using Node.prems l r
    by (subst insert_loop.simps) auto
qed

lemma descend_plug: "descend x C t = (C', t') \<Longrightarrow> plug C' t' = plug C t"
  by (induction t arbitrary: C) (auto split: if_splits)

lemma descend_present:
  "bst t \<Longrightarrow> x \<in> set (inorder t) \<Longrightarrow>
   \<exists>C' l a c s r. descend x C t = (C', Node l a x c s r) \<and> a \<in> set (addrs t)"
proof (induction t arbitrary: C)
  case Leaf
  then show ?case by simp
next
  case (Node l a k c s r)
  have bl: "bst l" and br: "bst r" using Node.prems by (auto simp: bst_def sorted_wrt_append)
  have lk: "\<forall>y\<in>set (inorder l). y < k" and kr: "\<forall>y\<in>set (inorder r). k < y"
    using Node.prems by (auto simp: bst_def sorted_wrt_append)
  consider (eq) "x = k" | (lt) "x < k" | (gt) "k < x" by force
  then show ?case
  proof cases
    case eq
    then show ?thesis by (simp add: equal_def)
  next
    case lt
    then have "x \<in> set (inorder l)" using Node.prems(2) kr by auto
    from Node.IH(1)[OF bl this, of "InL C a k c s r"] lt show ?thesis by (auto simp: equal_def)
  next
    case gt
    then have "x \<in> set (inorder r)" using Node.prems(2) lk by auto
    from Node.IH(2)[OF br this, of "InR l a k c s C"] gt show ?thesis by (auto simp: equal_def)
  qed
qed

lemma descend_absent:
  "x \<notin> set (inorder t) \<Longrightarrow> \<exists>C'. descend x C t = (C', Leaf)"
  by (induction t arbitrary: C) (auto simp: equal_def)

lemma rep_ctx_cong:
  "(\<And>a. a \<in> set (ctx_addrs C) \<Longrightarrow> m' a = m a) \<Longrightarrow> rep_ctx m' nil C p = rep_ctx m nil C p"
proof (induction C arbitrary: p)
  case Top
  then show ?case by simp
next
  case (InL C a k c s r)
  have "rep m' nil a r = rep m nil a r" using InL.prems by (intro rep_cong) (auto simp: ctx_addrs_def)
  moreover have "rep_ctx m' nil C a = rep_ctx m nil C a" using InL.prems by (intro InL.IH) (auto simp: ctx_addrs_def)
  moreover have "m' a = m a" using InL.prems by (auto simp: ctx_addrs_def)
  ultimately show ?case by simp
next
  case (InR l a k c s C)
  have "rep m' nil a l = rep m nil a l" using InR.prems by (intro rep_cong) (auto simp: ctx_addrs_def)
  moreover have "rep_ctx m' nil C a = rep_ctx m nil C a" using InR.prems by (intro InR.IH) (auto simp: ctx_addrs_def)
  moreover have "m' a = m a" using InR.prems by (auto simp: ctx_addrs_def)
  ultimately show ?case by simp
qed

lemma rep_ctx_upd_other [simp]:
  "a \<notin> set (ctx_addrs C) \<Longrightarrow> rep_ctx (m(a := x)) nil C p = rep_ctx m nil C p"
  by (rule rep_ctx_cong) auto

lemmas heap_defs = get_size_def get_left_def get_right_def get_parent_def get_key_def get_color_def
  set_size_def set_left_def set_right_def set_parent_def set_color_def modify_def

lemma ctx_addrs_simps [simp]:
  "ctx_addrs Top = []"
  "set (ctx_addrs (InL C a k c s r)) = insert a (set (addrs r) \<union> set (ctx_addrs C))"
  "set (ctx_addrs (InR l a k c s C)) = insert a (set (addrs l) \<union> set (ctx_addrs C))"
  by (auto simp: ctx_addrs_def)

lemma set_addrs_plug: "set (addrs (plug C t)) = set (ctx_addrs C) \<union> set (addrs t)"
  by (auto simp: addrs_plug ctx_addrs_def)

lemma distinct_plug:
  "distinct (addrs (plug C t)) = (distinct (ctx_addrs C) \<and> distinct (addrs t) \<and> set (ctx_addrs C) \<inter> set (addrs t) = {})"
  by (auto simp: addrs_plug ctx_addrs_def)

lemma distinct_ctx_simps [simp]:
  "distinct (ctx_addrs (InL C a k c s r)) =
     (a \<notin> set (addrs r) \<and> a \<notin> set (ctx_addrs C) \<and> distinct (addrs r) \<and> distinct (ctx_addrs C)
      \<and> set (addrs r) \<inter> set (ctx_addrs C) = {})"
  "distinct (ctx_addrs (InR l a k c s C)) =
     (a \<notin> set (addrs l) \<and> a \<notin> set (ctx_addrs C) \<and> distinct (addrs l) \<and> distinct (ctx_addrs C)
      \<and> set (addrs l) \<inter> set (ctx_addrs C) = {})"
  by (auto simp: ctx_addrs_def)

lemma root_ptr_cases: "root_ptr nil t = nil \<or> root_ptr nil t \<in> set (addrs t)"
  by (cases t) auto

lemma root_ptr_neq: "q \<noteq> nil \<Longrightarrow> q \<notin> set (addrs t) \<Longrightarrow> root_ptr nil t \<noteq> q"
  using root_ptr_cases[of nil t] by auto

lemma rotate_left_rep:
  assumes "rep_ctx (cells h) nil C x"
    "rep (cells h) nil (ctx_ptr nil C) (Node l x kx cx sx (Node rl y ky cy sy rr))"
    "m_root T = ctx_root C x" "m_nil T = nil"
    "distinct (addrs (plug C (Node l x kx cx sx (Node rl y ky cy sy rr))))"
    "nil \<notin> set (addrs (plug C (Node l x kx cx sx (Node rl y ky cy sy rr))))"
  shows "\<exists>T' h'. rotate_left T h x = Some (T', h') \<and> rep_ctx (cells h') nil C y \<and>
     rep (cells h') nil (ctx_ptr nil C)
       (Node (Node l x kx cx (sx - stored_size rr - 1) rl) y ky cy (sy + stored_size l + 1) rr) \<and>
     m_root T' = ctx_root C y \<and> m_nil T' = nil \<and> next_free h' = next_free h \<and>
     (\<forall>a. a \<notin> set (addrs (plug C (Node l x kx cx sx (Node rl y ky cy sy rr)))) \<longrightarrow> cells h' a = cells h a)"
proof -
  have d: "distinct (ctx_addrs C)" "distinct (addrs l)" "distinct (addrs rl)" "distinct (addrs rr)"
    "x \<noteq> y" "x \<notin> set (ctx_addrs C)" "y \<notin> set (ctx_addrs C)" "x \<notin> set (addrs l)" "x \<notin> set (addrs rl)" "x \<notin> set (addrs rr)"
    "y \<notin> set (addrs l)" "y \<notin> set (addrs rl)" "y \<notin> set (addrs rr)"
    "set (addrs l) \<inter> set (ctx_addrs C) = {}" "set (addrs rl) \<inter> set (ctx_addrs C) = {}" "set (addrs rr) \<inter> set (ctx_addrs C) = {}"
    "set (addrs l) \<inter> set (addrs rl) = {}" "set (addrs l) \<inter> set (addrs rr) = {}" "set (addrs rl) \<inter> set (addrs rr) = {}"
    using assms(5) by (auto simp: distinct_plug)
  have n: "x \<noteq> nil" "y \<noteq> nil" "nil \<notin> set (ctx_addrs C)" "nil \<notin> set (addrs l)" "nil \<notin> set (addrs rl)" "nil \<notin> set (addrs rr)"
    using assms(6) by (auto simp: set_addrs_plug)
  have b: "y \<noteq> x" "nil \<noteq> x" "nil \<noteq> y"
    "\<forall>a\<in>set (ctx_addrs C). a \<noteq> x \<and> a \<noteq> y \<and> a \<noteq> nil"
    "\<forall>a\<in>set (addrs rl). a \<noteq> x \<and> a \<noteq> y \<and> a \<noteq> nil"
    using d n by auto
  define ln where "ln = the (cells h (root_ptr nil l))"
  define rrn where "rrn = the (cells h (root_ptr nil rr))"
  have sl: "root_ptr nil l \<noteq> x" "root_ptr nil l \<noteq> y"
    "root_ptr nil l \<noteq> nil \<Longrightarrow> cells h (root_ptr nil l) = Some ln"
    "root_ptr nil l \<noteq> nil \<Longrightarrow> nsize ln = stored_size l"
    "root_ptr nil l = nil \<Longrightarrow> stored_size l = 0"
    using assms(2) d n ln_def by (cases l; auto)+
  have sr: "root_ptr nil rr \<noteq> x" "root_ptr nil rr \<noteq> y"
    "root_ptr nil rr \<noteq> nil \<Longrightarrow> cells h (root_ptr nil rr) = Some rrn"
    "root_ptr nil rr \<noteq> nil \<Longrightarrow> nsize rrn = stored_size rr"
    "root_ptr nil rr = nil \<Longrightarrow> stored_size rr = 0"
    using assms(2) d n rrn_def by (cases rr; auto)+
  have r: "cells h x = Some \<lparr>nsize = sx, left = root_ptr nil l, right = y, parent = ctx_ptr nil C, key = kx, color = cx\<rparr>"
    "cells h y = Some \<lparr>nsize = sy, left = root_ptr nil rl, right = root_ptr nil rr, parent = x, key = ky, color = cy\<rparr>"
    "rep (cells h) nil x l" "rep (cells h) nil y rl" "rep (cells h) nil y rr"
    using assms(2) by auto
  show ?thesis
  proof (cases C)
    case Top
    show ?thesis
    proof (cases rl)
      case Leaf
      show ?thesis using assms(1,3,4) d n b sl sr r Top Leaf
        by (simp add: rotate_left_def heap_defs set_addrs_plug)
    next
      case (Node l1 a1 k1 c1 s1 r1)
      have e: "root_ptr nil l \<noteq> a1" "root_ptr nil rr \<noteq> a1"
        by (rule root_ptr_neq; use d n Node in auto)+
      show ?thesis using assms(1,3,4) d n b sl sr r Top Node e
        by (simp add: rotate_left_def heap_defs set_addrs_plug)
    qed
  next
    case (InL C' p kp cp sp rp)
    have f: "root_ptr nil l \<noteq> p" "root_ptr nil rr \<noteq> p"
      by (rule root_ptr_neq; use d n InL in auto)+
    have f2: "x \<noteq> p" "y \<noteq> p" "nil \<noteq> p"
      using d n InL by auto
    show ?thesis
    proof (cases rl)
      case Leaf
      show ?thesis using assms(1,3,4) d n b sl sr r InL Leaf f f2
        by (simp add: rotate_left_def heap_defs set_addrs_plug)
    next
      case (Node l1 a1 k1 c1 s1 r1)
      have e: "root_ptr nil l \<noteq> a1" "root_ptr nil rr \<noteq> a1"
        by (rule root_ptr_neq; use d n Node in auto)+
      have e2: "p \<noteq> a1" using d n Node InL by auto
      show ?thesis using assms(1,3,4) d n b sl sr r InL Node e e2 f f2
        by (simp add: rotate_left_def heap_defs set_addrs_plug)
    qed
  next
    case (InR lp p kp cp sp C')
    have f: "root_ptr nil l \<noteq> p" "root_ptr nil rr \<noteq> p" "root_ptr nil lp \<noteq> x"
      by (rule root_ptr_neq; use d n InR in auto)+
    have f2: "x \<noteq> p" "y \<noteq> p" "nil \<noteq> p" "x \<noteq> root_ptr nil lp"
      using d n InR f by auto
    show ?thesis
    proof (cases rl)
      case Leaf
      show ?thesis using assms(1,3,4) d n b sl sr r InR Leaf f f2
        by (simp add: rotate_left_def heap_defs set_addrs_plug)
    next
      case (Node l1 a1 k1 c1 s1 r1)
      have e: "root_ptr nil l \<noteq> a1" "root_ptr nil rr \<noteq> a1"
        by (rule root_ptr_neq; use d n Node in auto)+
      have e2: "p \<noteq> a1" using d n Node InR by auto
      show ?thesis using assms(1,3,4) d n b sl sr r InR Node e e2 f f2
        by (simp add: rotate_left_def heap_defs set_addrs_plug)
    qed
  qed
qed

lemma rotate_right_rep:
  assumes "rep_ctx (cells h) nil C x"
    "rep (cells h) nil (ctx_ptr nil C) (Node (Node ll y ky cy sy lr) x kx cx sx r)"
    "m_root T = ctx_root C x" "m_nil T = nil"
    "distinct (addrs (plug C (Node (Node ll y ky cy sy lr) x kx cx sx r)))"
    "nil \<notin> set (addrs (plug C (Node (Node ll y ky cy sy lr) x kx cx sx r)))"
  shows "\<exists>T' h'. rotate_right T h x = Some (T', h') \<and> rep_ctx (cells h') nil C y \<and>
     rep (cells h') nil (ctx_ptr nil C)
       (Node ll y ky cy (sy + stored_size r + 1) (Node lr x kx cx (sx - stored_size ll - 1) r)) \<and>
     m_root T' = ctx_root C y \<and> m_nil T' = nil \<and> next_free h' = next_free h \<and>
     (\<forall>a. a \<notin> set (addrs (plug C (Node (Node ll y ky cy sy lr) x kx cx sx r))) \<longrightarrow> cells h' a = cells h a)"
proof -
  have d: "distinct (ctx_addrs C)" "distinct (addrs r)" "distinct (addrs lr)" "distinct (addrs ll)"
    "x \<noteq> y" "x \<notin> set (ctx_addrs C)" "y \<notin> set (ctx_addrs C)" "x \<notin> set (addrs r)" "x \<notin> set (addrs lr)" "x \<notin> set (addrs ll)"
    "y \<notin> set (addrs r)" "y \<notin> set (addrs lr)" "y \<notin> set (addrs ll)"
    "set (addrs r) \<inter> set (ctx_addrs C) = {}" "set (addrs lr) \<inter> set (ctx_addrs C) = {}" "set (addrs ll) \<inter> set (ctx_addrs C) = {}"
    "set (addrs r) \<inter> set (addrs lr) = {}" "set (addrs r) \<inter> set (addrs ll) = {}" "set (addrs lr) \<inter> set (addrs ll) = {}"
    using assms(5) by (auto simp: distinct_plug)
  have n: "x \<noteq> nil" "y \<noteq> nil" "nil \<notin> set (ctx_addrs C)" "nil \<notin> set (addrs r)" "nil \<notin> set (addrs lr)" "nil \<notin> set (addrs ll)"
    using assms(6) by (auto simp: set_addrs_plug)
  have b: "y \<noteq> x" "nil \<noteq> x" "nil \<noteq> y"
    "\<forall>a\<in>set (ctx_addrs C). a \<noteq> x \<and> a \<noteq> y \<and> a \<noteq> nil"
    "\<forall>a\<in>set (addrs lr). a \<noteq> x \<and> a \<noteq> y \<and> a \<noteq> nil"
    using d n by auto
  define ln where "ln = the (cells h (root_ptr nil r))"
  define rrn where "rrn = the (cells h (root_ptr nil ll))"
  have sl: "root_ptr nil r \<noteq> x" "root_ptr nil r \<noteq> y"
    "root_ptr nil r \<noteq> nil \<Longrightarrow> cells h (root_ptr nil r) = Some ln"
    "root_ptr nil r \<noteq> nil \<Longrightarrow> nsize ln = stored_size r"
    "root_ptr nil r = nil \<Longrightarrow> stored_size r = 0"
    using assms(2) d n ln_def by (cases r; auto)+
  have sr: "root_ptr nil ll \<noteq> x" "root_ptr nil ll \<noteq> y"
    "root_ptr nil ll \<noteq> nil \<Longrightarrow> cells h (root_ptr nil ll) = Some rrn"
    "root_ptr nil ll \<noteq> nil \<Longrightarrow> nsize rrn = stored_size ll"
    "root_ptr nil ll = nil \<Longrightarrow> stored_size ll = 0"
    using assms(2) d n rrn_def by (cases ll; auto)+
  have r: "cells h x = Some \<lparr>nsize = sx, left = y, right = root_ptr nil r, parent = ctx_ptr nil C, key = kx, color = cx\<rparr>"
    "cells h y = Some \<lparr>nsize = sy, left = root_ptr nil ll, right = root_ptr nil lr, parent = x, key = ky, color = cy\<rparr>"
    "rep (cells h) nil x r" "rep (cells h) nil y lr" "rep (cells h) nil y ll"
    using assms(2) by auto
  show ?thesis
  proof (cases C)
    case Top
    show ?thesis
    proof (cases lr)
      case Leaf
      show ?thesis using assms(1,3,4) d n b sl sr r Top Leaf
        by (simp add: rotate_right_def heap_defs set_addrs_plug)
    next
      case (Node l1 a1 k1 c1 s1 r1)
      have e: "root_ptr nil r \<noteq> a1" "root_ptr nil ll \<noteq> a1"
        by (rule root_ptr_neq; use d n Node in auto)+
      show ?thesis using assms(1,3,4) d n b sl sr r Top Node e
        by (simp add: rotate_right_def heap_defs set_addrs_plug)
    qed
  next
    case (InL C' p kp cp sp rp)
    have f: "root_ptr nil r \<noteq> p" "root_ptr nil ll \<noteq> p"
      by (rule root_ptr_neq; use d n InL in auto)+
    have f2: "x \<noteq> p" "y \<noteq> p" "nil \<noteq> p"
      using d n InL by auto
    show ?thesis
    proof (cases lr)
      case Leaf
      show ?thesis using assms(1,3,4) d n b sl sr r InL Leaf f f2
        by (simp add: rotate_right_def heap_defs set_addrs_plug)
    next
      case (Node l1 a1 k1 c1 s1 r1)
      have e: "root_ptr nil r \<noteq> a1" "root_ptr nil ll \<noteq> a1"
        by (rule root_ptr_neq; use d n Node in auto)+
      have e2: "p \<noteq> a1" using d n Node InL by auto
      show ?thesis using assms(1,3,4) d n b sl sr r InL Node e e2 f f2
        by (simp add: rotate_right_def heap_defs set_addrs_plug)
    qed
  next
    case (InR lp p kp cp sp C')
    have f: "root_ptr nil r \<noteq> p" "root_ptr nil ll \<noteq> p" "root_ptr nil lp \<noteq> x"
      by (rule root_ptr_neq; use d n InR in auto)+
    have f2: "x \<noteq> p" "y \<noteq> p" "nil \<noteq> p" "x \<noteq> root_ptr nil lp"
      using d n InR f by auto
    show ?thesis
    proof (cases lr)
      case Leaf
      show ?thesis using assms(1,3,4) d n b sl sr r InR Leaf f f2
        by (simp add: rotate_right_def heap_defs set_addrs_plug)
    next
      case (Node l1 a1 k1 c1 s1 r1)
      have e: "root_ptr nil r \<noteq> a1" "root_ptr nil ll \<noteq> a1"
        by (rule root_ptr_neq; use d n Node in auto)+
      have e2: "p \<noteq> a1" using d n Node InR by auto
      show ?thesis using assms(1,3,4) d n b sl sr r InR Node e e2 f f2
        by (simp add: rotate_right_def heap_defs set_addrs_plug)
    qed
  qed
qed

lemma color_root:
  "rep m nil par t \<Longrightarrow> nil_ok m nil \<Longrightarrow> map_option color (m (root_ptr nil t)) = Some (color_of t)"
  by (cases t) (auto simp: nil_ok_def)

lemma body_LL_black:
  assumes z: "zrep nil T h (InL (InL C g kg cg sg u) p kp cp sp rp) t"
    and t: "t = Node l z kz cz sz r"
    and u: "color_of u = BLACK"
  shows "\<exists>T' h' z' zp'. fixup_insert_body T h z = Some (T', h', z') \<and>
      fin nil h (set (addrs (plug (InL (InL C g kg cg sg u) p kp cp sp rp) t))) T' h'
        (plug C (rot_right (Node (Node t p kp BLACK sp rp) g kg RED sg u))) \<and>
      get_parent h' z' = Some zp' \<and> get_color h' zp' = Some BLACK"
proof -
  let ?A = "set (addrs (plug (InL (InL C g kg cg sg u) p kp cp sp rp) t))"
  let ?t0 = "Node (Node t p kp cp sp rp) g kg cg sg u"
  let ?t2 = "Node (Node t p kp BLACK sp rp) g kg RED sg u"
  have rc: "rep_ctx (cells h) nil (InL (InL C g kg cg sg u) p kp cp sp rp) z"
    and rt: "rep (cells h) nil p t"
    and T: "m_root T = ctx_root C g" "m_nil T = nil"
    and d: "distinct (addrs (plug C ?t0))" and n: "nil \<notin> set (addrs (plug C ?t0))"
    and nk: "nil_ok (cells h) nil"
    using z t by (simp_all add: zrep_def)
  have A: "?A = set (addrs (plug C ?t0))" by simp
  have ne: "z \<noteq> p" "z \<noteq> g" "p \<noteq> g" "p \<noteq> z" "g \<noteq> z" "g \<noteq> p" "z \<noteq> nil" "p \<noteq> nil" "g \<noteq> nil"
    using d n t by (auto simp: distinct_plug set_addrs_plug)
  let ?pn = "\<lparr>nsize = sp, left = z, right = root_ptr nil rp, parent = g, key = kp, color = cp\<rparr>"
  let ?gn = "\<lparr>nsize = sg, left = p, right = root_ptr nil u, parent = ctx_ptr nil C, key = kg, color = cg\<rparr>"
  have cz: "cells h z = Some \<lparr>nsize = sz, left = root_ptr nil l, right = root_ptr nil r, parent = p, key = kz, color = cz\<rparr>"
    using rt t by simp
  have cp: "cells h p = Some ?pn" using rc by simp
  have cg: "cells h g = Some ?gn" using rc by simp
  obtain un where cu: "cells h (root_ptr nil u) = Some un" "color un = BLACK"
    using color_root[of "cells h" nil g u] rc nk u by auto
  define h1 where "h1 = h\<lparr>cells := (cells h)(p \<mapsto> ?pn\<lparr>color := BLACK\<rparr>)\<rparr>"
  define h2 where "h2 = h1\<lparr>cells := (cells h1)(g \<mapsto> ?gn\<lparr>color := RED\<rparr>)\<rparr>"
  have s1: "set_color p BLACK h = Some h1" using cp by (simp add: heap_defs h1_def)
  have c1: "cells h1 z = cells h z" "cells h1 p = Some (?pn\<lparr>color := BLACK\<rparr>)" "cells h1 g = Some ?gn"
    using cg ne by (simp_all add: h1_def)
  have s2: "set_color g RED h1 = Some h2" using c1 by (simp add: heap_defs h2_def)
  have c2: "cells h2 z = cells h z" "cells h2 p = Some (?pn\<lparr>color := BLACK\<rparr>)"
    using c1 ne by (simp_all add: h2_def)
  have h2c: "cells h2 = (cells h)(p \<mapsto> ?pn\<lparr>color := BLACK\<rparr>, g \<mapsto> ?gn\<lparr>color := RED\<rparr>)"
    by (simp add: h2_def h1_def)
  have d2: "distinct (addrs (plug C ?t2))" and n2: "nil \<notin> set (addrs (plug C ?t2))"
    using d n by (auto simp: distinct_plug set_addrs_plug)
  have A2: "?A = set (addrs (plug C ?t2))" by (auto simp: set_addrs_plug)
  have dd: "p \<notin> set (addrs t)" "p \<notin> set (addrs rp)" "p \<notin> set (addrs u)" "p \<notin> set (ctx_addrs C)"
    "g \<notin> set (addrs t)" "g \<notin> set (addrs rp)" "g \<notin> set (addrs u)" "g \<notin> set (ctx_addrs C)"
    using d by (auto simp: distinct_plug)
  have r2c: "rep_ctx (cells h2) nil C g" using rc dd by (simp add: h2c)
  have r2t: "rep (cells h2) nil (ctx_ptr nil C) ?t2"
    using rc rt dd ne t by (simp add: h2c)
  from rotate_right_rep[OF r2c r2t[unfolded t] T(1) T(2) d2[unfolded t] n2[unfolded t]]
  obtain T3 h3 where
    rr: "rotate_right T h2 g = Some (T3, h3)"
    and c3: "rep_ctx (cells h3) nil C p"
    and t3: "rep (cells h3) nil (ctx_ptr nil C)
       (Node (Node l z kz cz sz r) p kp BLACK (sp + stored_size u + 1)
          (Node rp g kg RED (sg - stored_size (Node l z kz cz sz r) - 1) u))"
    and T3: "m_root T3 = ctx_root C p" "m_nil T3 = nil"
    and nf3: "next_free h3 = next_free h2"
    and fr3': "\<forall>a. a \<notin> set (addrs (plug C (Node (Node (Node l z kz cz sz r) p kp BLACK sp rp) g kg RED sg u))) \<longrightarrow> cells h3 a = cells h2 a"
    by blast
  have fr3: "\<forall>a. a \<notin> ?A \<longrightarrow> cells h3 a = cells h2 a"
    using fr3' by (simp add: set_addrs_plug t)
  have zrp: "root_ptr nil rp \<noteq> z"
    by (rule root_ptr_neq; use d n t in \<open>auto simp: distinct_plug set_addrs_plug\<close>)
  have body: "fixup_insert_body T h z = Some (T3, h3, z)"
    using cz cp cg cu s1 c1 s2 c2 rr ne zrp zrp[symmetric]
    by (simp add: fixup_insert_body_def get_parent_def get_left_def get_right_def get_color_def BLACK_def RED_def)
  have nf: "next_free h3 = next_free h" using nf3 by (simp add: h2_def h1_def)
  have fr: "\<forall>a. a \<notin> ?A \<longrightarrow> cells h3 a = cells h a"
  proof (intro allI impI)
    fix a assume a: "a \<notin> ?A"
    then have "a \<noteq> p" "a \<noteq> g" unfolding A by (auto simp: set_addrs_plug)
    then have "cells h2 a = cells h a" by (simp add: h2c)
    then show "cells h3 a = cells h a" using fr3 a by simp
  qed
  have c3p: "cells h3 p = Some \<lparr>nsize = sp + stored_size u + 1, left = z, right = g, parent = ctx_ptr nil C, key = kp, color = BLACK\<rparr>"
    using t3 t by simp
  have c3z: "cells h3 z = Some \<lparr>nsize = sz, left = root_ptr nil l, right = root_ptr nil r, parent = p, key = kz, color = cz\<rparr>"
    using t3 t by simp
  have res: "rot_right ?t2 = Node t p kp BLACK (sp + stored_size u + 1) (Node rp g kg RED (sg - stored_size t - 1) u)"
    using t by simp
  have "fin nil h ?A T3 h3 (plug C (rot_right ?t2))"
    unfolding res fin_def using c3 t3 T3 nf fr t by (simp add: rep_plug root_ptr_plug)
  moreover have "get_parent h3 z = Some p" "get_color h3 p = Some BLACK"
    using c3z c3p by (simp_all add: heap_defs)
  ultimately show ?thesis using body by blast
qed

lemma body_LL_red:
  assumes z: "zrep nil T h (InL (InL C g kg cg sg u) p kp cp sp rp) t"
    and t: "t = Node l z kz cz sz r"
    and u: "color_of u = RED"
  shows "\<exists>h'. fixup_insert_body T h z = Some (T, h', g) \<and>
      zrep nil T h' C (Node (Node t p kp BLACK sp rp) g kg RED sg (paint BLACK u)) \<and>
      next_free h' = next_free h \<and>
      (\<forall>a. a \<notin> set (addrs (plug (InL (InL C g kg cg sg u) p kp cp sp rp) t)) \<longrightarrow> cells h' a = cells h a)"
proof -
  obtain ul y ky sy ur where u': "u = Node ul y ky RED sy ur"
    using u by (cases u) (auto simp: RED_def BLACK_def)
  let ?A = "set (addrs (plug (InL (InL C g kg cg sg u) p kp cp sp rp) t))"
  let ?t0 = "Node (Node t p kp cp sp rp) g kg cg sg u"
  let ?t2 = "Node (Node t p kp BLACK sp rp) g kg RED sg (Node ul y ky BLACK sy ur)"
  have rc: "rep_ctx (cells h) nil (InL (InL C g kg cg sg u) p kp cp sp rp) z"
    and rt: "rep (cells h) nil p t"
    and T: "m_root T = ctx_root C g" "m_nil T = nil"
    and d: "distinct (addrs (plug C ?t0))" and n: "nil \<notin> set (addrs (plug C ?t0))"
    and nk: "nil_ok (cells h) nil"
    using z t by (simp_all add: zrep_def)
  have A: "?A = set (addrs (plug C ?t0))" by simp
  have ne: "z \<noteq> p" "z \<noteq> g" "p \<noteq> g" "p \<noteq> z" "g \<noteq> z" "g \<noteq> p" "z \<noteq> nil" "p \<noteq> nil" "g \<noteq> nil"
    "y \<noteq> z" "y \<noteq> p" "y \<noteq> g" "z \<noteq> y" "p \<noteq> y" "g \<noteq> y" "y \<noteq> nil"
    using d n t u' by (auto simp: distinct_plug set_addrs_plug)
  let ?pn = "\<lparr>nsize = sp, left = z, right = root_ptr nil rp, parent = g, key = kp, color = cp\<rparr>"
  let ?gn = "\<lparr>nsize = sg, left = p, right = y, parent = ctx_ptr nil C, key = kg, color = cg\<rparr>"
  let ?yn = "\<lparr>nsize = sy, left = root_ptr nil ul, right = root_ptr nil ur, parent = g, key = ky, color = RED\<rparr>"
  have cz: "cells h z = Some \<lparr>nsize = sz, left = root_ptr nil l, right = root_ptr nil r, parent = p, key = kz, color = cz\<rparr>"
    using rt t by simp
  have cp: "cells h p = Some ?pn" using rc by simp
  have cg: "cells h g = Some ?gn" using rc u' by simp
  have cy: "cells h y = Some ?yn" using rc u' by simp
  define h1 where "h1 = h\<lparr>cells := (cells h)(p \<mapsto> ?pn\<lparr>color := BLACK\<rparr>)\<rparr>"
  define h2 where "h2 = h1\<lparr>cells := (cells h1)(y \<mapsto> ?yn\<lparr>color := BLACK\<rparr>)\<rparr>"
  define h3 where "h3 = h2\<lparr>cells := (cells h2)(g \<mapsto> ?gn\<lparr>color := RED\<rparr>)\<rparr>"
  have s1: "set_color p BLACK h = Some h1" using cp by (simp add: heap_defs h1_def)
  have c1: "cells h1 y = Some ?yn" using cy ne by (simp_all add: h1_def)
  have s2: "set_color y BLACK h1 = Some h2" using c1 by (simp add: heap_defs h2_def)
  have c2: "cells h2 z = cells h z" "cells h2 p = Some (?pn\<lparr>color := BLACK\<rparr>)" "cells h2 g = Some ?gn"
    using cg ne by (simp_all add: h2_def h1_def)
  have s3: "set_color g RED h2 = Some h3" using c2 by (simp add: heap_defs h3_def)
  have c3: "cells h3 z = cells h z" "cells h3 p = Some (?pn\<lparr>color := BLACK\<rparr>)"
    using c2 ne by (simp_all add: h3_def)
  have h3c: "cells h3 = (cells h)(p \<mapsto> ?pn\<lparr>color := BLACK\<rparr>, y \<mapsto> ?yn\<lparr>color := BLACK\<rparr>, g \<mapsto> ?gn\<lparr>color := RED\<rparr>)"
    by (simp add: h3_def h2_def h1_def)
  have body: "fixup_insert_body T h z = Some (T, h3, g)"
    using cz cp cg cy s1 s2 c2 s3 c3 ne u'
    by (simp add: fixup_insert_body_def get_parent_def get_left_def get_right_def get_color_def BLACK_def RED_def)
  have dd: "p \<notin> set (addrs t)" "p \<notin> set (addrs rp)" "p \<notin> set (addrs ul)" "p \<notin> set (addrs ur)" "p \<notin> set (ctx_addrs C)"
    "g \<notin> set (addrs t)" "g \<notin> set (addrs rp)" "g \<notin> set (addrs ul)" "g \<notin> set (addrs ur)" "g \<notin> set (ctx_addrs C)"
    "y \<notin> set (addrs t)" "y \<notin> set (addrs rp)" "y \<notin> set (addrs ul)" "y \<notin> set (addrs ur)" "y \<notin> set (ctx_addrs C)"
    using d u' by (auto simp: distinct_plug)
  have "zrep nil T h3 C ?t2"
    unfolding zrep_def using rc rt T d n nk dd ne t u'
    by (simp add: h3c distinct_plug set_addrs_plug nil_ok_def)
  moreover have "next_free h3 = next_free h" by (simp add: h3_def h2_def h1_def)
  moreover have "\<forall>a. a \<notin> ?A \<longrightarrow> cells h3 a = cells h a"
    unfolding A using u' by (auto simp: h3c set_addrs_plug)
  ultimately show ?thesis using body u' by simp
qed

lemma body_LR_black:
  fixes t :: "'k tree"
  assumes z: "zrep nil T h (InR lp p kp cp sp (InL C g kg cg sg u)) t"
    and t: "t = Node l z kz cz sz r"
    and u: "color_of u = BLACK"
  shows "\<exists>T' h' z' zp'. fixup_insert_body T h z = Some (T', h', z') \<and>
      fin nil h (set (addrs (plug (InR lp p kp cp sp (InL C g kg cg sg u)) t))) T' h'
        (plug C (rot_right (Node (paint BLACK (rot_left (Node lp p kp cp sp t))) g kg RED sg u))) \<and>
      get_parent h' z' = Some zp' \<and> get_color h' zp' = Some BLACK"
proof -
  let ?A = "set (addrs (plug (InR lp p kp cp sp (InL C g kg cg sg u)) t))"
  have rc: "rep_ctx (cells h) nil (InR lp p kp cp sp (InL C g kg cg sg u)) z"
    and rt: "rep (cells h) nil p t"
    and T: "m_root T = ctx_root (InR lp p kp cp sp (InL C g kg cg sg u)) z" "m_nil T = nil"
    and di: "distinct (addrs (plug (InR lp p kp cp sp (InL C g kg cg sg u)) t))"
    and ni: "nil \<notin> set (addrs (plug (InR lp p kp cp sp (InL C g kg cg sg u)) t))"
    and nk: "nil_ok (cells h) nil"
    using z t by (simp_all add: zrep_def)
  have d: "distinct (addrs (plug (InL C g kg cg sg u) (Node lp p kp cp sp (Node l z kz cz sz r))))"
    and n: "nil \<notin> set (addrs (plug (InL C g kg cg sg u) (Node lp p kp cp sp (Node l z kz cz sz r))))"
    using di ni t by simp_all
  have A: "?A = set (addrs (plug (InL C g kg cg sg u) (Node lp p kp cp sp (Node l z kz cz sz r))))"
    using t by simp
  have ne: "z \<noteq> p" "z \<noteq> g" "p \<noteq> g" "p \<noteq> z" "g \<noteq> z" "g \<noteq> p" "z \<noteq> nil" "p \<noteq> nil" "g \<noteq> nil"
    using d n by (auto simp: distinct_plug set_addrs_plug)
  have cz: "cells h z = Some \<lparr>nsize = sz, left = root_ptr nil l, right = root_ptr nil r, parent = p, key = kz, color = cz\<rparr>"
    using rt t by simp
  have cp: "cells h p = Some \<lparr>nsize = sp, left = root_ptr nil lp, right = z, parent = g, key = kp, color = cp\<rparr>"
    using rc by simp
  have cg: "cells h g = Some \<lparr>nsize = sg, left = p, right = root_ptr nil u, parent = ctx_ptr nil C, key = kg, color = cg\<rparr>"
    using rc by simp
  obtain un where cu: "cells h (root_ptr nil u) = Some un" "color un = BLACK"
    using color_root[of "cells h" nil g u] rc nk u by auto
  \<comment> \<open>first rotation\<close>
  have r1c: "rep_ctx (cells h) nil (InL C g kg cg sg u) p" using rc by simp
  have r1t: "rep (cells h) nil (ctx_ptr nil (InL C g kg cg sg u)) (Node lp p kp cp sp (Node l z kz cz sz r))"
    using rc rt t by simp
  have r1T: "m_root T = ctx_root (InL C g kg cg sg u) p" using T by simp
  from rotate_left_rep[OF r1c r1t r1T T(2) d n] obtain T1 h1 where
    rl: "rotate_left T h p = Some (T1, h1)"
    and c1: "rep_ctx (cells h1) nil (InL C g kg cg sg u) z"
    and t1: "rep (cells h1) nil (ctx_ptr nil (InL C g kg cg sg u))
       (Node (Node lp p kp cp (sp - stored_size r - 1) l) z kz cz (sz + stored_size lp + 1) r)"
    and T1: "m_root T1 = ctx_root (InL C g kg cg sg u) z" "m_nil T1 = nil"
    and nf1: "next_free h1 = next_free h"
    and fr1: "\<forall>a. a \<notin> ?A \<longrightarrow> cells h1 a = cells h a"
    unfolding A by blast
  let ?zn1 = "\<lparr>nsize = sz + stored_size lp + 1, left = p, right = root_ptr nil r, parent = g, key = kz, color = cz\<rparr>"
  let ?gn1 = "\<lparr>nsize = sg, left = z, right = root_ptr nil u, parent = ctx_ptr nil C, key = kg, color = cg\<rparr>"
  have c1z: "cells h1 z = Some ?zn1" using t1 by simp
  have c1p: "cells h1 p = Some \<lparr>nsize = sp - stored_size r - 1, left = root_ptr nil lp, right = root_ptr nil l, parent = z, key = kp, color = cp\<rparr>"
    using t1 by simp
  have c1g: "cells h1 g = Some ?gn1" using c1 by simp
  define h1a where "h1a = h1\<lparr>cells := (cells h1)(z \<mapsto> ?zn1\<lparr>color := BLACK\<rparr>)\<rparr>"
  define h2 where "h2 = h1a\<lparr>cells := (cells h1a)(g \<mapsto> ?gn1\<lparr>color := RED\<rparr>)\<rparr>"
  have s1a: "set_color z BLACK h1 = Some h1a" using c1z by (simp add: heap_defs h1a_def)
  have c1a: "cells h1a p = cells h1 p" "cells h1a z = Some (?zn1\<lparr>color := BLACK\<rparr>)" "cells h1a g = Some ?gn1"
    using c1g ne by (simp_all add: h1a_def)
  have s2: "set_color g RED h1a = Some h2" using c1a by (simp add: heap_defs h2_def)
  have c2: "cells h2 p = cells h1 p" "cells h2 z = Some (?zn1\<lparr>color := BLACK\<rparr>)"
    using c1a ne by (simp_all add: h2_def)
  have h2c: "cells h2 = (cells h1)(z \<mapsto> ?zn1\<lparr>color := BLACK\<rparr>, g \<mapsto> ?gn1\<lparr>color := RED\<rparr>)"
    by (simp add: h2_def h1a_def)
  have d2: "distinct (addrs (plug C (Node (Node (Node lp p kp cp (sp - stored_size r - 1) l) z kz BLACK (sz + stored_size lp + 1) r) g kg RED sg u)))"
    and n2: "nil \<notin> set (addrs (plug C (Node (Node (Node lp p kp cp (sp - stored_size r - 1) l) z kz BLACK (sz + stored_size lp + 1) r) g kg RED sg u)))"
    using d n by (auto simp: distinct_plug set_addrs_plug)
  have A2: "?A = set (addrs (plug C (Node (Node (Node lp p kp cp (sp - stored_size r - 1) l) z kz BLACK (sz + stored_size lp + 1) r) g kg RED sg u)))"
    unfolding A by (auto simp: set_addrs_plug)
  have dd: "z \<notin> set (addrs lp)" "z \<notin> set (addrs l)" "z \<notin> set (addrs r)" "z \<notin> set (addrs u)" "z \<notin> set (ctx_addrs C)"
    "g \<notin> set (addrs lp)" "g \<notin> set (addrs l)" "g \<notin> set (addrs r)" "g \<notin> set (addrs u)" "g \<notin> set (ctx_addrs C)"
    using d by (auto simp: distinct_plug)
  have r2c: "rep_ctx (cells h2) nil C g" using c1 dd by (simp add: h2c)
  have r2t: "rep (cells h2) nil (ctx_ptr nil C) (Node (Node (Node lp p kp cp (sp - stored_size r - 1) l) z kz BLACK (sz + stored_size lp + 1) r) g kg RED sg u)"
    using c1 t1 dd ne by (simp add: h2c)
  have r2T: "m_root T1 = ctx_root C g" using T1 by simp
  from rotate_right_rep[OF r2c r2t r2T T1(2) d2 n2] obtain T3 h3 where
    rr: "rotate_right T1 h2 g = Some (T3, h3)"
    and c3: "rep_ctx (cells h3) nil C z"
    and t3: "rep (cells h3) nil (ctx_ptr nil C)
       (Node (Node lp p kp cp (sp - stored_size r - 1) l) z kz BLACK (sz + stored_size lp + 1 + stored_size u + 1)
          (Node r g kg RED (sg - stored_size (Node lp p kp cp (sp - stored_size r - 1) l) - 1) u))"
    and T3: "m_root T3 = ctx_root C z" "m_nil T3 = nil"
    and nf3: "next_free h3 = next_free h2"
    and fr3: "\<forall>a. a \<notin> ?A \<longrightarrow> cells h3 a = cells h2 a"
    unfolding A2 by blast
  have body: "fixup_insert_body T h z = Some (T3, h3, p)"
    using cz cp cg cu rl c1p c1z s1a c1a s2 c2 rr ne
    by (simp add: fixup_insert_body_def get_parent_def get_left_def get_right_def get_color_def BLACK_def RED_def)
  have nf: "next_free h3 = next_free h" using nf3 nf1 by (simp add: h2_def h1a_def)
  have fr: "\<forall>a. a \<notin> ?A \<longrightarrow> cells h3 a = cells h a"
  proof (intro allI impI)
    fix a assume a: "a \<notin> ?A"
    then have "a \<noteq> z" "a \<noteq> g" unfolding A by (auto simp: set_addrs_plug)
    then have "cells h2 a = cells h1 a" by (simp add: h2c)
    then show "cells h3 a = cells h a" using fr3 fr1 a by simp
  qed
  have c3z: "cells h3 z = Some \<lparr>nsize = sz + stored_size lp + 1 + stored_size u + 1, left = p, right = g, parent = ctx_ptr nil C, key = kz, color = BLACK\<rparr>"
    using t3 by simp
  have c3p: "cells h3 p = Some \<lparr>nsize = sp - stored_size r - 1, left = root_ptr nil lp, right = root_ptr nil l, parent = z, key = kp, color = cp\<rparr>"
    using t3 by simp
  have res: "rot_right (Node (paint BLACK (rot_left (Node lp p kp cp sp t))) g kg RED sg u)
     = Node (Node lp p kp cp (sp - stored_size r - 1) l) z kz BLACK (sz + stored_size lp + 1 + stored_size u + 1)
          (Node r g kg RED (sg - stored_size (Node lp p kp cp (sp - stored_size r - 1) l) - 1) u)"
    using t by simp
  have "fin nil h ?A T3 h3 (plug C (rot_right (Node (paint BLACK (rot_left (Node lp p kp cp sp t))) g kg RED sg u)))"
    unfolding res fin_def using c3 t3 T3 nf fr by (simp add: rep_plug root_ptr_plug)
  moreover have "get_parent h3 p = Some z" "get_color h3 z = Some BLACK"
    using c3z c3p by (simp_all add: heap_defs)
  ultimately show ?thesis using body by blast
qed

lemma body_LR_red:
  assumes z: "zrep nil T h (InR lp p kp cp sp (InL C g kg cg sg u)) t"
    and t: "t = Node l z kz cz sz r"
    and u: "color_of u = RED"
  shows "\<exists>h'. fixup_insert_body T h z = Some (T, h', g) \<and>
      zrep nil T h' C (Node (Node lp p kp BLACK sp t) g kg RED sg (paint BLACK u)) \<and>
      next_free h' = next_free h \<and>
      (\<forall>a. a \<notin> set (addrs (plug (InR lp p kp cp sp (InL C g kg cg sg u)) t)) \<longrightarrow> cells h' a = cells h a)"
proof -
  obtain ul y ky sy ur where u': "u = Node ul y ky RED sy ur"
    using u by (cases u) (auto simp: RED_def BLACK_def)
  let ?A = "set (addrs (plug (InR lp p kp cp sp (InL C g kg cg sg u)) t))"
  let ?t0 = "Node (Node lp p kp cp sp t) g kg cg sg u"
  let ?t2 = "Node (Node lp p kp BLACK sp t) g kg RED sg (Node ul y ky BLACK sy ur)"
  have rc: "rep_ctx (cells h) nil (InR lp p kp cp sp (InL C g kg cg sg u)) z"
    and rt: "rep (cells h) nil p t"
    and T: "m_root T = ctx_root C g" "m_nil T = nil"
    and d: "distinct (addrs (plug C ?t0))" and n: "nil \<notin> set (addrs (plug C ?t0))"
    and nk: "nil_ok (cells h) nil"
    using z t by (simp_all add: zrep_def)
  have A: "?A = set (addrs (plug C ?t0))" by simp
  have ne: "z \<noteq> p" "z \<noteq> g" "p \<noteq> g" "p \<noteq> z" "g \<noteq> z" "g \<noteq> p" "z \<noteq> nil" "p \<noteq> nil" "g \<noteq> nil"
    "y \<noteq> z" "y \<noteq> p" "y \<noteq> g" "z \<noteq> y" "p \<noteq> y" "g \<noteq> y" "y \<noteq> nil"
    using d n t u' by (auto simp: distinct_plug set_addrs_plug)
  let ?pn = "\<lparr>nsize = sp, left = root_ptr nil lp, right = z, parent = g, key = kp, color = cp\<rparr>"
  let ?gn = "\<lparr>nsize = sg, left = p, right = y, parent = ctx_ptr nil C, key = kg, color = cg\<rparr>"
  let ?yn = "\<lparr>nsize = sy, left = root_ptr nil ul, right = root_ptr nil ur, parent = g, key = ky, color = RED\<rparr>"
  have cz: "cells h z = Some \<lparr>nsize = sz, left = root_ptr nil l, right = root_ptr nil r, parent = p, key = kz, color = cz\<rparr>"
    using rt t by simp
  have cp: "cells h p = Some ?pn" using rc by simp
  have cg: "cells h g = Some ?gn" using rc u' by simp
  have cy: "cells h y = Some ?yn" using rc u' by simp
  define h1 where "h1 = h\<lparr>cells := (cells h)(p \<mapsto> ?pn\<lparr>color := BLACK\<rparr>)\<rparr>"
  define h2 where "h2 = h1\<lparr>cells := (cells h1)(y \<mapsto> ?yn\<lparr>color := BLACK\<rparr>)\<rparr>"
  define h3 where "h3 = h2\<lparr>cells := (cells h2)(g \<mapsto> ?gn\<lparr>color := RED\<rparr>)\<rparr>"
  have s1: "set_color p BLACK h = Some h1" using cp by (simp add: heap_defs h1_def)
  have c1: "cells h1 y = Some ?yn" using cy ne by (simp_all add: h1_def)
  have s2: "set_color y BLACK h1 = Some h2" using c1 by (simp add: heap_defs h2_def)
  have c2: "cells h2 z = cells h z" "cells h2 p = Some (?pn\<lparr>color := BLACK\<rparr>)" "cells h2 g = Some ?gn"
    using cg ne by (simp_all add: h2_def h1_def)
  have s3: "set_color g RED h2 = Some h3" using c2 by (simp add: heap_defs h3_def)
  have c3: "cells h3 z = cells h z" "cells h3 p = Some (?pn\<lparr>color := BLACK\<rparr>)"
    using c2 ne by (simp_all add: h3_def)
  have h3c: "cells h3 = (cells h)(p \<mapsto> ?pn\<lparr>color := BLACK\<rparr>, y \<mapsto> ?yn\<lparr>color := BLACK\<rparr>, g \<mapsto> ?gn\<lparr>color := RED\<rparr>)"
    by (simp add: h3_def h2_def h1_def)
  have body: "fixup_insert_body T h z = Some (T, h3, g)"
    using cz cp cg cy s1 s2 c2 s3 c3 ne u'
    by (simp add: fixup_insert_body_def get_parent_def get_left_def get_right_def get_color_def BLACK_def RED_def)
  have dd: "p \<notin> set (addrs t)" "p \<notin> set (addrs lp)" "p \<notin> set (addrs ul)" "p \<notin> set (addrs ur)" "p \<notin> set (ctx_addrs C)"
    "g \<notin> set (addrs t)" "g \<notin> set (addrs lp)" "g \<notin> set (addrs ul)" "g \<notin> set (addrs ur)" "g \<notin> set (ctx_addrs C)"
    "y \<notin> set (addrs t)" "y \<notin> set (addrs lp)" "y \<notin> set (addrs ul)" "y \<notin> set (addrs ur)" "y \<notin> set (ctx_addrs C)"
    using d u' by (auto simp: distinct_plug)
  have "zrep nil T h3 C ?t2"
    unfolding zrep_def using rc rt T d n nk dd ne t u'
    by (simp add: h3c distinct_plug set_addrs_plug nil_ok_def)
  moreover have "next_free h3 = next_free h" by (simp add: h3_def h2_def h1_def)
  moreover have "\<forall>a. a \<notin> ?A \<longrightarrow> cells h3 a = cells h a"
    unfolding A using u' by (auto simp: h3c set_addrs_plug)
  ultimately show ?thesis using body u' by simp
qed

lemma body_RR_red:
  assumes z: "zrep nil T h (InR lp p kp cp sp (InR u g kg cg sg C)) t"
    and t: "t = Node l z kz cz sz r"
    and u: "color_of u = RED"
  shows "\<exists>h'. fixup_insert_body T h z = Some (T, h', g) \<and>
      zrep nil T h' C (Node (paint BLACK u) g kg RED sg (Node lp p kp BLACK sp t)) \<and>
      next_free h' = next_free h \<and>
      (\<forall>a. a \<notin> set (addrs (plug (InR lp p kp cp sp (InR u g kg cg sg C)) t)) \<longrightarrow> cells h' a = cells h a)"
proof -
  obtain ul y ky sy ur where u': "u = Node ul y ky RED sy ur"
    using u by (cases u) (auto simp: RED_def BLACK_def)
  let ?A = "set (addrs (plug (InR lp p kp cp sp (InR u g kg cg sg C)) t))"
  let ?t0 = "Node u g kg cg sg (Node lp p kp cp sp t)"
  let ?t2 = "Node (Node ul y ky BLACK sy ur) g kg RED sg (Node lp p kp BLACK sp t)"
  have rc: "rep_ctx (cells h) nil (InR lp p kp cp sp (InR u g kg cg sg C)) z"
    and rt: "rep (cells h) nil p t"
    and T: "m_root T = ctx_root C g" "m_nil T = nil"
    and d: "distinct (addrs (plug C ?t0))" and n: "nil \<notin> set (addrs (plug C ?t0))"
    and nk: "nil_ok (cells h) nil"
    using z t by (simp_all add: zrep_def)
  have A: "?A = set (addrs (plug C ?t0))" by simp
  have ne: "z \<noteq> p" "z \<noteq> g" "p \<noteq> g" "p \<noteq> z" "g \<noteq> z" "g \<noteq> p" "z \<noteq> nil" "p \<noteq> nil" "g \<noteq> nil"
    "y \<noteq> z" "y \<noteq> p" "y \<noteq> g" "z \<noteq> y" "p \<noteq> y" "g \<noteq> y" "y \<noteq> nil"
    using d n t u' by (auto simp: distinct_plug set_addrs_plug)
  let ?pn = "\<lparr>nsize = sp, left = root_ptr nil lp, right = z, parent = g, key = kp, color = cp\<rparr>"
  let ?gn = "\<lparr>nsize = sg, left = y, right = p, parent = ctx_ptr nil C, key = kg, color = cg\<rparr>"
  let ?yn = "\<lparr>nsize = sy, left = root_ptr nil ul, right = root_ptr nil ur, parent = g, key = ky, color = RED\<rparr>"
  have cz: "cells h z = Some \<lparr>nsize = sz, left = root_ptr nil l, right = root_ptr nil r, parent = p, key = kz, color = cz\<rparr>"
    using rt t by simp
  have cp: "cells h p = Some ?pn" using rc by simp
  have cg: "cells h g = Some ?gn" using rc u' by simp
  have cy: "cells h y = Some ?yn" using rc u' by simp
  define h1 where "h1 = h\<lparr>cells := (cells h)(p \<mapsto> ?pn\<lparr>color := BLACK\<rparr>)\<rparr>"
  define h2 where "h2 = h1\<lparr>cells := (cells h1)(y \<mapsto> ?yn\<lparr>color := BLACK\<rparr>)\<rparr>"
  define h3 where "h3 = h2\<lparr>cells := (cells h2)(g \<mapsto> ?gn\<lparr>color := RED\<rparr>)\<rparr>"
  have s1: "set_color p BLACK h = Some h1" using cp by (simp add: heap_defs h1_def)
  have c1: "cells h1 y = Some ?yn" using cy ne by (simp_all add: h1_def)
  have s2: "set_color y BLACK h1 = Some h2" using c1 by (simp add: heap_defs h2_def)
  have c2: "cells h2 z = cells h z" "cells h2 p = Some (?pn\<lparr>color := BLACK\<rparr>)" "cells h2 g = Some ?gn"
    using cg ne by (simp_all add: h2_def h1_def)
  have s3: "set_color g RED h2 = Some h3" using c2 by (simp add: heap_defs h3_def)
  have c3: "cells h3 z = cells h z" "cells h3 p = Some (?pn\<lparr>color := BLACK\<rparr>)"
    using c2 ne by (simp_all add: h3_def)
  have h3c: "cells h3 = (cells h)(p \<mapsto> ?pn\<lparr>color := BLACK\<rparr>, y \<mapsto> ?yn\<lparr>color := BLACK\<rparr>, g \<mapsto> ?gn\<lparr>color := RED\<rparr>)"
    by (simp add: h3_def h2_def h1_def)
  have body: "fixup_insert_body T h z = Some (T, h3, g)"
    using cz cp cg cy s1 s2 c2 s3 c3 ne u'
    by (simp add: fixup_insert_body_def get_parent_def get_left_def get_right_def get_color_def BLACK_def RED_def)
  have dd: "p \<notin> set (addrs t)" "p \<notin> set (addrs lp)" "p \<notin> set (addrs ul)" "p \<notin> set (addrs ur)" "p \<notin> set (ctx_addrs C)"
    "g \<notin> set (addrs t)" "g \<notin> set (addrs lp)" "g \<notin> set (addrs ul)" "g \<notin> set (addrs ur)" "g \<notin> set (ctx_addrs C)"
    "y \<notin> set (addrs t)" "y \<notin> set (addrs lp)" "y \<notin> set (addrs ul)" "y \<notin> set (addrs ur)" "y \<notin> set (ctx_addrs C)"
    using d u' by (auto simp: distinct_plug)
  have "zrep nil T h3 C ?t2"
    unfolding zrep_def using rc rt T d n nk dd ne t u'
    by (simp add: h3c distinct_plug set_addrs_plug nil_ok_def)
  moreover have "next_free h3 = next_free h" by (simp add: h3_def h2_def h1_def)
  moreover have "\<forall>a. a \<notin> ?A \<longrightarrow> cells h3 a = cells h a"
    unfolding A using u' by (auto simp: h3c set_addrs_plug)
  ultimately show ?thesis using body u' by simp
qed

lemma body_RL_red:
  assumes z: "zrep nil T h (InL (InR u g kg cg sg C) p kp cp sp rp) t"
    and t: "t = Node l z kz cz sz r"
    and u: "color_of u = RED"
  shows "\<exists>h'. fixup_insert_body T h z = Some (T, h', g) \<and>
      zrep nil T h' C (Node (paint BLACK u) g kg RED sg (Node t p kp BLACK sp rp)) \<and>
      next_free h' = next_free h \<and>
      (\<forall>a. a \<notin> set (addrs (plug (InL (InR u g kg cg sg C) p kp cp sp rp) t)) \<longrightarrow> cells h' a = cells h a)"
proof -
  obtain ul y ky sy ur where u': "u = Node ul y ky RED sy ur"
    using u by (cases u) (auto simp: RED_def BLACK_def)
  let ?A = "set (addrs (plug (InL (InR u g kg cg sg C) p kp cp sp rp) t))"
  let ?t0 = "Node u g kg cg sg (Node t p kp cp sp rp)"
  let ?t2 = "Node (Node ul y ky BLACK sy ur) g kg RED sg (Node t p kp BLACK sp rp)"
  have rc: "rep_ctx (cells h) nil (InL (InR u g kg cg sg C) p kp cp sp rp) z"
    and rt: "rep (cells h) nil p t"
    and T: "m_root T = ctx_root C g" "m_nil T = nil"
    and d: "distinct (addrs (plug C ?t0))" and n: "nil \<notin> set (addrs (plug C ?t0))"
    and nk: "nil_ok (cells h) nil"
    using z t by (simp_all add: zrep_def)
  have A: "?A = set (addrs (plug C ?t0))" by simp
  have ne: "z \<noteq> p" "z \<noteq> g" "p \<noteq> g" "p \<noteq> z" "g \<noteq> z" "g \<noteq> p" "z \<noteq> nil" "p \<noteq> nil" "g \<noteq> nil"
    "y \<noteq> z" "y \<noteq> p" "y \<noteq> g" "z \<noteq> y" "p \<noteq> y" "g \<noteq> y" "y \<noteq> nil"
    using d n t u' by (auto simp: distinct_plug set_addrs_plug)
  let ?pn = "\<lparr>nsize = sp, left = z, right = root_ptr nil rp, parent = g, key = kp, color = cp\<rparr>"
  let ?gn = "\<lparr>nsize = sg, left = y, right = p, parent = ctx_ptr nil C, key = kg, color = cg\<rparr>"
  let ?yn = "\<lparr>nsize = sy, left = root_ptr nil ul, right = root_ptr nil ur, parent = g, key = ky, color = RED\<rparr>"
  have cz: "cells h z = Some \<lparr>nsize = sz, left = root_ptr nil l, right = root_ptr nil r, parent = p, key = kz, color = cz\<rparr>"
    using rt t by simp
  have cp: "cells h p = Some ?pn" using rc by simp
  have cg: "cells h g = Some ?gn" using rc u' by simp
  have cy: "cells h y = Some ?yn" using rc u' by simp
  define h1 where "h1 = h\<lparr>cells := (cells h)(p \<mapsto> ?pn\<lparr>color := BLACK\<rparr>)\<rparr>"
  define h2 where "h2 = h1\<lparr>cells := (cells h1)(y \<mapsto> ?yn\<lparr>color := BLACK\<rparr>)\<rparr>"
  define h3 where "h3 = h2\<lparr>cells := (cells h2)(g \<mapsto> ?gn\<lparr>color := RED\<rparr>)\<rparr>"
  have s1: "set_color p BLACK h = Some h1" using cp by (simp add: heap_defs h1_def)
  have c1: "cells h1 y = Some ?yn" using cy ne by (simp_all add: h1_def)
  have s2: "set_color y BLACK h1 = Some h2" using c1 by (simp add: heap_defs h2_def)
  have c2: "cells h2 z = cells h z" "cells h2 p = Some (?pn\<lparr>color := BLACK\<rparr>)" "cells h2 g = Some ?gn"
    using cg ne by (simp_all add: h2_def h1_def)
  have s3: "set_color g RED h2 = Some h3" using c2 by (simp add: heap_defs h3_def)
  have c3: "cells h3 z = cells h z" "cells h3 p = Some (?pn\<lparr>color := BLACK\<rparr>)"
    using c2 ne by (simp_all add: h3_def)
  have h3c: "cells h3 = (cells h)(p \<mapsto> ?pn\<lparr>color := BLACK\<rparr>, y \<mapsto> ?yn\<lparr>color := BLACK\<rparr>, g \<mapsto> ?gn\<lparr>color := RED\<rparr>)"
    by (simp add: h3_def h2_def h1_def)
  have body: "fixup_insert_body T h z = Some (T, h3, g)"
    using cz cp cg cy s1 s2 c2 s3 c3 ne u'
    by (simp add: fixup_insert_body_def get_parent_def get_left_def get_right_def get_color_def BLACK_def RED_def)
  have dd: "p \<notin> set (addrs t)" "p \<notin> set (addrs rp)" "p \<notin> set (addrs ul)" "p \<notin> set (addrs ur)" "p \<notin> set (ctx_addrs C)"
    "g \<notin> set (addrs t)" "g \<notin> set (addrs rp)" "g \<notin> set (addrs ul)" "g \<notin> set (addrs ur)" "g \<notin> set (ctx_addrs C)"
    "y \<notin> set (addrs t)" "y \<notin> set (addrs rp)" "y \<notin> set (addrs ul)" "y \<notin> set (addrs ur)" "y \<notin> set (ctx_addrs C)"
    using d u' by (auto simp: distinct_plug)
  have "zrep nil T h3 C ?t2"
    unfolding zrep_def using rc rt T d n nk dd ne t u'
    by (simp add: h3c distinct_plug set_addrs_plug nil_ok_def)
  moreover have "next_free h3 = next_free h" by (simp add: h3_def h2_def h1_def)
  moreover have "\<forall>a. a \<notin> ?A \<longrightarrow> cells h3 a = cells h a"
    unfolding A using u' by (auto simp: h3c set_addrs_plug)
  ultimately show ?thesis using body u' by simp
qed

lemma body_RR_black:
  assumes z: "zrep nil T h (InR lp p kp cp sp (InR u g kg cg sg C)) t"
    and t: "t = Node l z kz cz sz r"
    and u: "color_of u = BLACK"
  shows "\<exists>T' h' z' zp'. fixup_insert_body T h z = Some (T', h', z') \<and>
      fin nil h (set (addrs (plug (InR lp p kp cp sp (InR u g kg cg sg C)) t))) T' h'
        (plug C (rot_left (Node u g kg RED sg (Node lp p kp BLACK sp t)))) \<and>
      get_parent h' z' = Some zp' \<and> get_color h' zp' = Some BLACK"
proof -
  let ?A = "set (addrs (plug (InR lp p kp cp sp (InR u g kg cg sg C)) t))"
  let ?t0 = "Node u g kg cg sg (Node lp p kp cp sp t)"
  let ?t2 = "Node u g kg RED sg (Node lp p kp BLACK sp t)"
  have rc: "rep_ctx (cells h) nil (InR lp p kp cp sp (InR u g kg cg sg C)) z"
    and rt: "rep (cells h) nil p t"
    and T: "m_root T = ctx_root C g" "m_nil T = nil"
    and d: "distinct (addrs (plug C ?t0))" and n: "nil \<notin> set (addrs (plug C ?t0))"
    and nk: "nil_ok (cells h) nil"
    using z t by (simp_all add: zrep_def)
  have A: "?A = set (addrs (plug C ?t0))" by simp
  have ne: "z \<noteq> p" "z \<noteq> g" "p \<noteq> g" "p \<noteq> z" "g \<noteq> z" "g \<noteq> p" "z \<noteq> nil" "p \<noteq> nil" "g \<noteq> nil"
    using d n t by (auto simp: distinct_plug set_addrs_plug)
  let ?pn = "\<lparr>nsize = sp, left = root_ptr nil lp, right = z, parent = g, key = kp, color = cp\<rparr>"
  let ?gn = "\<lparr>nsize = sg, left = root_ptr nil u, right = p, parent = ctx_ptr nil C, key = kg, color = cg\<rparr>"
  have cz: "cells h z = Some \<lparr>nsize = sz, left = root_ptr nil l, right = root_ptr nil r, parent = p, key = kz, color = cz\<rparr>"
    using rt t by simp
  have cp: "cells h p = Some ?pn" using rc by simp
  have cg: "cells h g = Some ?gn" using rc by simp
  obtain un where cu: "cells h (root_ptr nil u) = Some un" "color un = BLACK"
    using color_root[of "cells h" nil g u] rc nk u by auto
  define h1 where "h1 = h\<lparr>cells := (cells h)(p \<mapsto> ?pn\<lparr>color := BLACK\<rparr>)\<rparr>"
  define h2 where "h2 = h1\<lparr>cells := (cells h1)(g \<mapsto> ?gn\<lparr>color := RED\<rparr>)\<rparr>"
  have s1: "set_color p BLACK h = Some h1" using cp by (simp add: heap_defs h1_def)
  have c1: "cells h1 z = cells h z" "cells h1 p = Some (?pn\<lparr>color := BLACK\<rparr>)" "cells h1 g = Some ?gn"
    using cg ne by (simp_all add: h1_def)
  have s2: "set_color g RED h1 = Some h2" using c1 by (simp add: heap_defs h2_def)
  have c2: "cells h2 z = cells h z" "cells h2 p = Some (?pn\<lparr>color := BLACK\<rparr>)"
    using c1 ne by (simp_all add: h2_def)
  have h2c: "cells h2 = (cells h)(p \<mapsto> ?pn\<lparr>color := BLACK\<rparr>, g \<mapsto> ?gn\<lparr>color := RED\<rparr>)"
    by (simp add: h2_def h1_def)
  have d2: "distinct (addrs (plug C ?t2))" and n2: "nil \<notin> set (addrs (plug C ?t2))"
    using d n by (auto simp: distinct_plug set_addrs_plug)
  have A2: "?A = set (addrs (plug C ?t2))" by (auto simp: set_addrs_plug)
  have dd: "p \<notin> set (addrs t)" "p \<notin> set (addrs lp)" "p \<notin> set (addrs u)" "p \<notin> set (ctx_addrs C)"
    "g \<notin> set (addrs t)" "g \<notin> set (addrs lp)" "g \<notin> set (addrs u)" "g \<notin> set (ctx_addrs C)"
    using d by (auto simp: distinct_plug)
  have r2c: "rep_ctx (cells h2) nil C g" using rc dd by (simp add: h2c)
  have r2t: "rep (cells h2) nil (ctx_ptr nil C) ?t2"
    using rc rt dd ne t by (simp add: h2c)
  from rotate_left_rep[OF r2c r2t[unfolded t] T(1) T(2) d2[unfolded t] n2[unfolded t]]
  obtain T3 h3 where
    rr: "rotate_left T h2 g = Some (T3, h3)"
    and c3: "rep_ctx (cells h3) nil C p"
    and t3: "rep (cells h3) nil (ctx_ptr nil C)
       (Node (Node u g kg RED (sg - stored_size (Node l z kz cz sz r) - 1) lp) p kp BLACK (sp + stored_size u + 1)
          (Node l z kz cz sz r))"
    and T3: "m_root T3 = ctx_root C p" "m_nil T3 = nil"
    and nf3: "next_free h3 = next_free h2"
    and fr3': "\<forall>a. a \<notin> set (addrs (plug C (Node u g kg RED sg (Node lp p kp BLACK sp (Node l z kz cz sz r))))) \<longrightarrow> cells h3 a = cells h2 a"
    by blast
  have fr3: "\<forall>a. a \<notin> ?A \<longrightarrow> cells h3 a = cells h2 a"
    using fr3' by (simp add: set_addrs_plug t)
  have zrp: "root_ptr nil lp \<noteq> z"
    by (rule root_ptr_neq; use d n t in \<open>auto simp: distinct_plug set_addrs_plug\<close>)
  have up: "root_ptr nil u \<noteq> p"
    by (rule root_ptr_neq; use d n t in \<open>auto simp: distinct_plug set_addrs_plug\<close>)
  have body: "fixup_insert_body T h z = Some (T3, h3, z)"
    using cz cp cg cu s1 c1 s2 c2 rr ne zrp zrp[symmetric] up up[symmetric]
    by (simp add: fixup_insert_body_def get_parent_def get_left_def get_right_def get_color_def BLACK_def RED_def)
  have nf: "next_free h3 = next_free h" using nf3 by (simp add: h2_def h1_def)
  have fr: "\<forall>a. a \<notin> ?A \<longrightarrow> cells h3 a = cells h a"
  proof (intro allI impI)
    fix a assume a: "a \<notin> ?A"
    then have "a \<noteq> p" "a \<noteq> g" unfolding A by (auto simp: set_addrs_plug)
    then have "cells h2 a = cells h a" by (simp add: h2c)
    then show "cells h3 a = cells h a" using fr3 a by simp
  qed
  have c3p: "cells h3 p = Some \<lparr>nsize = sp + stored_size u + 1, left = g, right = z, parent = ctx_ptr nil C, key = kp, color = BLACK\<rparr>"
    using t3 t by simp
  have c3z: "cells h3 z = Some \<lparr>nsize = sz, left = root_ptr nil l, right = root_ptr nil r, parent = p, key = kz, color = cz\<rparr>"
    using t3 t by simp
  have res: "rot_left ?t2 = Node (Node u g kg RED (sg - stored_size t - 1) lp) p kp BLACK (sp + stored_size u + 1) t"
    using t by simp
  have "fin nil h ?A T3 h3 (plug C (rot_left ?t2))"
    unfolding res fin_def using c3 t3 T3 nf fr t by (simp add: rep_plug root_ptr_plug)
  moreover have "get_parent h3 z = Some p" "get_color h3 p = Some BLACK"
    using c3z c3p by (simp_all add: heap_defs)
  ultimately show ?thesis using body by blast
qed

lemma body_RL_black:
  fixes t :: "'k tree"
  assumes z: "zrep nil T h (InL (InR u g kg cg sg C) p kp cp sp rp) t"
    and t: "t = Node l z kz cz sz r"
    and u: "color_of u = BLACK"
  shows "\<exists>T' h' z' zp'. fixup_insert_body T h z = Some (T', h', z') \<and>
      fin nil h (set (addrs (plug (InL (InR u g kg cg sg C) p kp cp sp rp) t))) T' h'
        (plug C (rot_left (Node u g kg RED sg (paint BLACK (rot_right (Node t p kp cp sp rp)))))) \<and>
      get_parent h' z' = Some zp' \<and> get_color h' zp' = Some BLACK"
proof -
  let ?A = "set (addrs (plug (InL (InR u g kg cg sg C) p kp cp sp rp) t))"
  have rc: "rep_ctx (cells h) nil (InL (InR u g kg cg sg C) p kp cp sp rp) z"
    and rt: "rep (cells h) nil p t"
    and T: "m_root T = ctx_root (InL (InR u g kg cg sg C) p kp cp sp rp) z" "m_nil T = nil"
    and di: "distinct (addrs (plug (InL (InR u g kg cg sg C) p kp cp sp rp) t))"
    and ni: "nil \<notin> set (addrs (plug (InL (InR u g kg cg sg C) p kp cp sp rp) t))"
    and nk: "nil_ok (cells h) nil"
    using z t by (simp_all add: zrep_def)
  have d: "distinct (addrs (plug (InR u g kg cg sg C) (Node (Node l z kz cz sz r) p kp cp sp rp)))"
    and n: "nil \<notin> set (addrs (plug (InR u g kg cg sg C) (Node (Node l z kz cz sz r) p kp cp sp rp)))"
    using di ni t by simp_all
  have A: "?A = set (addrs (plug (InR u g kg cg sg C) (Node (Node l z kz cz sz r) p kp cp sp rp)))"
    using t by simp
  have ne: "z \<noteq> p" "z \<noteq> g" "p \<noteq> g" "p \<noteq> z" "g \<noteq> z" "g \<noteq> p" "z \<noteq> nil" "p \<noteq> nil" "g \<noteq> nil"
    using d n by (auto simp: distinct_plug set_addrs_plug)
  have cz: "cells h z = Some \<lparr>nsize = sz, left = root_ptr nil l, right = root_ptr nil r, parent = p, key = kz, color = cz\<rparr>"
    using rt t by simp
  have cp: "cells h p = Some \<lparr>nsize = sp, left = z, right = root_ptr nil rp, parent = g, key = kp, color = cp\<rparr>"
    using rc by simp
  have cg: "cells h g = Some \<lparr>nsize = sg, left = root_ptr nil u, right = p, parent = ctx_ptr nil C, key = kg, color = cg\<rparr>"
    using rc by simp
  obtain un where cu: "cells h (root_ptr nil u) = Some un" "color un = BLACK"
    using color_root[of "cells h" nil g u] rc nk u by auto
  \<comment> \<open>first rotation\<close>
  have r1c: "rep_ctx (cells h) nil (InR u g kg cg sg C) p" using rc by simp
  have r1t: "rep (cells h) nil (ctx_ptr nil (InR u g kg cg sg C)) (Node (Node l z kz cz sz r) p kp cp sp rp)"
    using rc rt t by simp
  have r1T: "m_root T = ctx_root (InR u g kg cg sg C) p" using T by simp
  from rotate_right_rep[OF r1c r1t r1T T(2) d n] obtain T1 h1 where
    rl: "rotate_right T h p = Some (T1, h1)"
    and c1: "rep_ctx (cells h1) nil (InR u g kg cg sg C) z"
    and t1: "rep (cells h1) nil (ctx_ptr nil (InR u g kg cg sg C))
       (Node l z kz cz (sz + stored_size rp + 1) (Node r p kp cp (sp - stored_size l - 1) rp))"
    and T1: "m_root T1 = ctx_root (InR u g kg cg sg C) z" "m_nil T1 = nil"
    and nf1: "next_free h1 = next_free h"
    and fr1: "\<forall>a. a \<notin> ?A \<longrightarrow> cells h1 a = cells h a"
    unfolding A by blast
  let ?zn1 = "\<lparr>nsize = sz + stored_size rp + 1, left = root_ptr nil l, right = p, parent = g, key = kz, color = cz\<rparr>"
  let ?gn1 = "\<lparr>nsize = sg, left = root_ptr nil u, right = z, parent = ctx_ptr nil C, key = kg, color = cg\<rparr>"
  have c1z: "cells h1 z = Some ?zn1" using t1 by simp
  have c1p: "cells h1 p = Some \<lparr>nsize = sp - stored_size l - 1, left = root_ptr nil r, right = root_ptr nil rp, parent = z, key = kp, color = cp\<rparr>"
    using t1 by simp
  have c1g: "cells h1 g = Some ?gn1" using c1 by simp
  define h1a where "h1a = h1\<lparr>cells := (cells h1)(z \<mapsto> ?zn1\<lparr>color := BLACK\<rparr>)\<rparr>"
  define h2 where "h2 = h1a\<lparr>cells := (cells h1a)(g \<mapsto> ?gn1\<lparr>color := RED\<rparr>)\<rparr>"
  have s1a: "set_color z BLACK h1 = Some h1a" using c1z by (simp add: heap_defs h1a_def)
  have c1a: "cells h1a p = cells h1 p" "cells h1a z = Some (?zn1\<lparr>color := BLACK\<rparr>)" "cells h1a g = Some ?gn1"
    using c1g ne by (simp_all add: h1a_def)
  have s2: "set_color g RED h1a = Some h2" using c1a by (simp add: heap_defs h2_def)
  have c2: "cells h2 p = cells h1 p" "cells h2 z = Some (?zn1\<lparr>color := BLACK\<rparr>)"
    using c1a ne by (simp_all add: h2_def)
  have h2c: "cells h2 = (cells h1)(z \<mapsto> ?zn1\<lparr>color := BLACK\<rparr>, g \<mapsto> ?gn1\<lparr>color := RED\<rparr>)"
    by (simp add: h2_def h1a_def)
  have d2: "distinct (addrs (plug C (Node u g kg RED sg (Node l z kz BLACK (sz + stored_size rp + 1) (Node r p kp cp (sp - stored_size l - 1) rp)))))"
    and n2: "nil \<notin> set (addrs (plug C (Node u g kg RED sg (Node l z kz BLACK (sz + stored_size rp + 1) (Node r p kp cp (sp - stored_size l - 1) rp)))))"
    using d n by (auto simp: distinct_plug set_addrs_plug)
  have A2: "?A = set (addrs (plug C (Node u g kg RED sg (Node l z kz BLACK (sz + stored_size rp + 1) (Node r p kp cp (sp - stored_size l - 1) rp)))))"
    unfolding A by (auto simp: set_addrs_plug)
  have dd: "z \<notin> set (addrs rp)" "z \<notin> set (addrs l)" "z \<notin> set (addrs r)" "z \<notin> set (addrs u)" "z \<notin> set (ctx_addrs C)"
    "g \<notin> set (addrs rp)" "g \<notin> set (addrs l)" "g \<notin> set (addrs r)" "g \<notin> set (addrs u)" "g \<notin> set (ctx_addrs C)"
    using d by (auto simp: distinct_plug)
  have r2c: "rep_ctx (cells h2) nil C g" using c1 dd by (simp add: h2c)
  have r2t: "rep (cells h2) nil (ctx_ptr nil C) (Node u g kg RED sg (Node l z kz BLACK (sz + stored_size rp + 1) (Node r p kp cp (sp - stored_size l - 1) rp)))"
    using c1 t1 dd ne by (simp add: h2c)
  have r2T: "m_root T1 = ctx_root C g" using T1 by simp
  from rotate_left_rep[OF r2c r2t r2T T1(2) d2 n2] obtain T3 h3 where
    rr: "rotate_left T1 h2 g = Some (T3, h3)"
    and c3: "rep_ctx (cells h3) nil C z"
    and t3: "rep (cells h3) nil (ctx_ptr nil C)
       (Node (Node u g kg RED (sg - stored_size (Node r p kp cp (sp - stored_size l - 1) rp) - 1) l) z kz BLACK (sz + stored_size rp + 1 + stored_size u + 1)
          (Node r p kp cp (sp - stored_size l - 1) rp))"
    and T3: "m_root T3 = ctx_root C z" "m_nil T3 = nil"
    and nf3: "next_free h3 = next_free h2"
    and fr3: "\<forall>a. a \<notin> ?A \<longrightarrow> cells h3 a = cells h2 a"
    unfolding A2 by blast
  have up: "root_ptr nil u \<noteq> p"
    by (rule root_ptr_neq; use d n t in \<open>auto simp: distinct_plug set_addrs_plug\<close>)
  have body: "fixup_insert_body T h z = Some (T3, h3, p)"
    using cz cp cg cu rl c1p c1z s1a c1a s2 c2 rr ne up up[symmetric]
    by (simp add: fixup_insert_body_def get_parent_def get_left_def get_right_def get_color_def BLACK_def RED_def)
  have nf: "next_free h3 = next_free h" using nf3 nf1 by (simp add: h2_def h1a_def)
  have fr: "\<forall>a. a \<notin> ?A \<longrightarrow> cells h3 a = cells h a"
  proof (intro allI impI)
    fix a assume a: "a \<notin> ?A"
    then have "a \<noteq> z" "a \<noteq> g" unfolding A by (auto simp: set_addrs_plug)
    then have "cells h2 a = cells h1 a" by (simp add: h2c)
    then show "cells h3 a = cells h a" using fr3 fr1 a by simp
  qed
  have c3z: "cells h3 z = Some \<lparr>nsize = sz + stored_size rp + 1 + stored_size u + 1, left = g, right = p, parent = ctx_ptr nil C, key = kz, color = BLACK\<rparr>"
    using t3 by simp
  have c3p: "cells h3 p = Some \<lparr>nsize = sp - stored_size l - 1, left = root_ptr nil r, right = root_ptr nil rp, parent = z, key = kp, color = cp\<rparr>"
    using t3 by simp
  have res: "rot_left (Node u g kg RED sg (paint BLACK (rot_right (Node t p kp cp sp rp))))
     = Node (Node u g kg RED (sg - stored_size (Node r p kp cp (sp - stored_size l - 1) rp) - 1) l) z kz BLACK (sz + stored_size rp + 1 + stored_size u + 1)
          (Node r p kp cp (sp - stored_size l - 1) rp)"
    using t by simp
  have "fin nil h ?A T3 h3 (plug C (rot_left (Node u g kg RED sg (paint BLACK (rot_right (Node t p kp cp sp rp))))))"
    unfolding res fin_def using c3 t3 T3 nf fr by (simp add: rep_plug root_ptr_plug)
  moreover have "get_parent h3 p = Some z" "get_color h3 z = Some BLACK"
    using c3z c3p by (simp_all add: heap_defs)
  ultimately show ?thesis using body by blast
qed

lemma loop_step:
  "get_parent h z = Some p \<Longrightarrow> get_color h p = Some RED \<Longrightarrow>
   fixup_insert_body T h z = Some (T', h', z') \<Longrightarrow>
   fixup_insert_loop T h z = fixup_insert_loop T' h' z'"
  by (subst fixup_insert_loop.simps) simp

lemma loop_exit:
  "get_parent h z = Some p \<Longrightarrow> get_color h p = Some BLACK \<Longrightarrow>
   fixup_insert_loop T h z = Some (T, h)"
  by (subst fixup_insert_loop.simps) (simp add: RED_def BLACK_def)

lemma zrep_fin: "zrep nil T h C t \<Longrightarrow> fin nil h A T h (plug C t)"
  by (simp add: zrep_def fin_def rep_plug root_ptr_plug)

lemma top_black_up:
  "top_black (InL (InL C g kg cg sg u) p kp cp sp rp) \<Longrightarrow> top_black C"
  "top_black (InR lp p kp cp sp (InL C g kg cg sg u)) \<Longrightarrow> top_black C"
  "top_black (InL (InR u g kg cg sg C) p kp cp sp rp) \<Longrightarrow> top_black C"
  "top_black (InR lp p kp cp sp (InR u g kg cg sg C)) \<Longrightarrow> top_black C"
  by (cases C; simp)+

lemma fin_trans:
  "fin nil h' A T'' h'' t \<Longrightarrow> next_free h' = next_free h \<Longrightarrow>
   (\<forall>a. a \<notin> A \<longrightarrow> cells h' a = cells h a) \<Longrightarrow> fin nil h A T'' h'' t"
  by (simp add: fin_def)

lemma fixup_insert_loop_fix:
  "zrep nil T h C t \<Longrightarrow> t = Node l z kz cz sz r \<Longrightarrow> top_black C \<Longrightarrow>
   \<exists>T' h'. fixup_insert_loop T h z = Some (T', h') \<and>
     fin nil h (set (addrs (plug C t))) T' h' (ins_fix C t)"
proof (induction C t arbitrary: T h l z kz cz sz r rule: ins_fix.induct)
  case (1 C g kg cg sg u p kp cp sp rp t)
  let ?C0 = "InL (InL C g kg cg sg u) p kp cp sp rp"
  have gp: "get_parent h z = Some p" "get_color h p = Some cp"
    using 1(2,3) by (simp_all add: zrep_def heap_defs)
  show ?case
  proof (cases "cp = RED")
    case False
    then have "cp = BLACK" by (simp add: RED_def BLACK_def)
    then show ?thesis using loop_exit[OF gp(1), of T] gp(2) zrep_fin[OF 1(2), of "set (addrs (plug ?C0 t))"] False by (simp add: RED_def BLACK_def)
  next
    case True
    show ?thesis
    proof (cases "color_of u = RED")
      case ur: True
      from body_LL_red[OF 1(2,3) ur] obtain h' where
        b: "fixup_insert_body T h z = Some (T, h', g)"
        and z': "zrep nil T h' C (Node (Node t p kp BLACK sp rp) g kg RED sg (paint BLACK u))"
        and nf: "next_free h' = next_free h"
        and fr: "\<forall>a. a \<notin> set (addrs (plug ?C0 t)) \<longrightarrow> cells h' a = cells h a"
        by blast
      from "1.IH"[OF True ur z' refl top_black_up(1)[OF 1(4)]] obtain T'' h'' where
        l: "fixup_insert_loop T h' g = Some (T'', h'')"
        and f: "fin nil h' (set (addrs (plug C (Node (Node t p kp BLACK sp rp) g kg RED sg (paint BLACK u))))) T'' h''
           (ins_fix C (Node (Node t p kp BLACK sp rp) g kg RED sg (paint BLACK u)))"
        by blast
      have A: "set (addrs (plug C (Node (Node t p kp BLACK sp rp) g kg RED sg (paint BLACK u)))) = set (addrs (plug ?C0 t))"
        by (cases u) (auto simp: set_addrs_plug)
      have "fixup_insert_loop T h z = Some (T'', h'')"
        using loop_step[OF gp(1) _ b] gp(2) True l by simp
      moreover have "fin nil h (set (addrs (plug ?C0 t))) T'' h'' (ins_fix ?C0 t)"
        using fin_trans[OF f[unfolded A] nf fr] True ur by simp
      ultimately show ?thesis by blast
    next
      case ub: False
      then have ub': "color_of u = BLACK" by (simp add: RED_def BLACK_def)
      from body_LL_black[OF 1(2,3) ub'] obtain T' h' z' zp' where
        b: "fixup_insert_body T h z = Some (T', h', z')"
        and f: "fin nil h (set (addrs (plug ?C0 t))) T' h'
            (plug C (rot_right (Node (Node t p kp BLACK sp rp) g kg RED sg u)))"
        and e: "get_parent h' z' = Some zp'" "get_color h' zp' = Some BLACK"
        by blast
      have "fixup_insert_loop T h z = Some (T', h')"
        using loop_step[OF gp(1) _ b] gp(2) True loop_exit[OF e] by simp
      then show ?thesis using f True ub by simp
    qed
  qed
next
  case (2 lp p kp cp sp C g kg cg sg u t)
  let ?C0 = "InR lp p kp cp sp (InL C g kg cg sg u)"
  have gp: "get_parent h z = Some p" "get_color h p = Some cp"
    using 2(2,3) by (simp_all add: zrep_def heap_defs)
  show ?case
  proof (cases "cp = RED")
    case False
    then have "cp = BLACK" by (simp add: RED_def BLACK_def)
    then show ?thesis using loop_exit[OF gp(1), of T] gp(2) zrep_fin[OF 2(2), of "set (addrs (plug ?C0 t))"] False by (simp add: RED_def BLACK_def)
  next
    case True
    show ?thesis
    proof (cases "color_of u = RED")
      case ur: True
      from body_LR_red[OF 2(2,3) ur] obtain h' where
        b: "fixup_insert_body T h z = Some (T, h', g)"
        and z': "zrep nil T h' C (Node (Node lp p kp BLACK sp t) g kg RED sg (paint BLACK u))"
        and nf: "next_free h' = next_free h"
        and fr: "\<forall>a. a \<notin> set (addrs (plug ?C0 t)) \<longrightarrow> cells h' a = cells h a"
        by blast
      from "2.IH"[OF True ur z' refl top_black_up(2)[OF 2(4)]] obtain T'' h'' where
        l: "fixup_insert_loop T h' g = Some (T'', h'')"
        and f: "fin nil h' (set (addrs (plug C (Node (Node lp p kp BLACK sp t) g kg RED sg (paint BLACK u))))) T'' h''
           (ins_fix C (Node (Node lp p kp BLACK sp t) g kg RED sg (paint BLACK u)))"
        by blast
      have A: "set (addrs (plug C (Node (Node lp p kp BLACK sp t) g kg RED sg (paint BLACK u)))) = set (addrs (plug ?C0 t))"
        by (cases u) (auto simp: set_addrs_plug)
      have "fixup_insert_loop T h z = Some (T'', h'')"
        using loop_step[OF gp(1) _ b] gp(2) True l by simp
      moreover have "fin nil h (set (addrs (plug ?C0 t))) T'' h'' (ins_fix ?C0 t)"
        using fin_trans[OF f[unfolded A] nf fr] True ur by simp
      ultimately show ?thesis by blast
    next
      case ub: False
      then have ub': "color_of u = BLACK" by (simp add: RED_def BLACK_def)
      from body_LR_black[OF 2(2,3) ub'] obtain T' h' z' zp' where
        b: "fixup_insert_body T h z = Some (T', h', z')"
        and f: "fin nil h (set (addrs (plug ?C0 t))) T' h'
            (plug C (rot_right (Node (paint BLACK (rot_left (Node lp p kp cp sp t))) g kg RED sg u)))"
        and e: "get_parent h' z' = Some zp'" "get_color h' zp' = Some BLACK"
        by blast
      have "fixup_insert_loop T h z = Some (T', h')"
        using loop_step[OF gp(1) _ b] gp(2) True loop_exit[OF e] by simp
      then show ?thesis using f True ub by simp
    qed
  qed
next
  case (3 u g kg cg sg C p kp cp sp rp t)
  let ?C0 = "InL (InR u g kg cg sg C) p kp cp sp rp"
  have gp: "get_parent h z = Some p" "get_color h p = Some cp"
    using 3(2,3) by (simp_all add: zrep_def heap_defs)
  show ?case
  proof (cases "cp = RED")
    case False
    then have "cp = BLACK" by (simp add: RED_def BLACK_def)
    then show ?thesis using loop_exit[OF gp(1), of T] gp(2) zrep_fin[OF 3(2), of "set (addrs (plug ?C0 t))"] False by (simp add: RED_def BLACK_def)
  next
    case True
    show ?thesis
    proof (cases "color_of u = RED")
      case ur: True
      from body_RL_red[OF 3(2,3) ur] obtain h' where
        b: "fixup_insert_body T h z = Some (T, h', g)"
        and z': "zrep nil T h' C (Node (paint BLACK u) g kg RED sg (Node t p kp BLACK sp rp))"
        and nf: "next_free h' = next_free h"
        and fr: "\<forall>a. a \<notin> set (addrs (plug ?C0 t)) \<longrightarrow> cells h' a = cells h a"
        by blast
      from "3.IH"[OF True ur z' refl top_black_up(3)[OF 3(4)]] obtain T'' h'' where
        l: "fixup_insert_loop T h' g = Some (T'', h'')"
        and f: "fin nil h' (set (addrs (plug C (Node (paint BLACK u) g kg RED sg (Node t p kp BLACK sp rp))))) T'' h''
           (ins_fix C (Node (paint BLACK u) g kg RED sg (Node t p kp BLACK sp rp)))"
        by blast
      have A: "set (addrs (plug C (Node (paint BLACK u) g kg RED sg (Node t p kp BLACK sp rp)))) = set (addrs (plug ?C0 t))"
        by (cases u) (auto simp: set_addrs_plug)
      have "fixup_insert_loop T h z = Some (T'', h'')"
        using loop_step[OF gp(1) _ b] gp(2) True l by simp
      moreover have "fin nil h (set (addrs (plug ?C0 t))) T'' h'' (ins_fix ?C0 t)"
        using fin_trans[OF f[unfolded A] nf fr] True ur by simp
      ultimately show ?thesis by blast
    next
      case ub: False
      then have ub': "color_of u = BLACK" by (simp add: RED_def BLACK_def)
      from body_RL_black[OF 3(2,3) ub'] obtain T' h' z' zp' where
        b: "fixup_insert_body T h z = Some (T', h', z')"
        and f: "fin nil h (set (addrs (plug ?C0 t))) T' h'
            (plug C (rot_left (Node u g kg RED sg (paint BLACK (rot_right (Node t p kp cp sp rp))))))"
        and e: "get_parent h' z' = Some zp'" "get_color h' zp' = Some BLACK"
        by blast
      have "fixup_insert_loop T h z = Some (T', h')"
        using loop_step[OF gp(1) _ b] gp(2) True loop_exit[OF e] by simp
      then show ?thesis using f True ub by simp
    qed
  qed
next
  case (4 lp p kp cp sp u g kg cg sg C t)
  let ?C0 = "InR lp p kp cp sp (InR u g kg cg sg C)"
  have gp: "get_parent h z = Some p" "get_color h p = Some cp"
    using 4(2,3) by (simp_all add: zrep_def heap_defs)
  show ?case
  proof (cases "cp = RED")
    case False
    then have "cp = BLACK" by (simp add: RED_def BLACK_def)
    then show ?thesis using loop_exit[OF gp(1), of T] gp(2) zrep_fin[OF 4(2), of "set (addrs (plug ?C0 t))"] False by (simp add: RED_def BLACK_def)
  next
    case True
    show ?thesis
    proof (cases "color_of u = RED")
      case ur: True
      from body_RR_red[OF 4(2,3) ur] obtain h' where
        b: "fixup_insert_body T h z = Some (T, h', g)"
        and z': "zrep nil T h' C (Node (paint BLACK u) g kg RED sg (Node lp p kp BLACK sp t))"
        and nf: "next_free h' = next_free h"
        and fr: "\<forall>a. a \<notin> set (addrs (plug ?C0 t)) \<longrightarrow> cells h' a = cells h a"
        by blast
      from "4.IH"[OF True ur z' refl top_black_up(4)[OF 4(4)]] obtain T'' h'' where
        l: "fixup_insert_loop T h' g = Some (T'', h'')"
        and f: "fin nil h' (set (addrs (plug C (Node (paint BLACK u) g kg RED sg (Node lp p kp BLACK sp t))))) T'' h''
           (ins_fix C (Node (paint BLACK u) g kg RED sg (Node lp p kp BLACK sp t)))"
        by blast
      have A: "set (addrs (plug C (Node (paint BLACK u) g kg RED sg (Node lp p kp BLACK sp t)))) = set (addrs (plug ?C0 t))"
        by (cases u) (auto simp: set_addrs_plug)
      have "fixup_insert_loop T h z = Some (T'', h'')"
        using loop_step[OF gp(1) _ b] gp(2) True l by simp
      moreover have "fin nil h (set (addrs (plug ?C0 t))) T'' h'' (ins_fix ?C0 t)"
        using fin_trans[OF f[unfolded A] nf fr] True ur by simp
      ultimately show ?thesis by blast
    next
      case ub: False
      then have ub': "color_of u = BLACK" by (simp add: RED_def BLACK_def)
      from body_RR_black[OF 4(2,3) ub'] obtain T' h' z' zp' where
        b: "fixup_insert_body T h z = Some (T', h', z')"
        and f: "fin nil h (set (addrs (plug ?C0 t))) T' h'
            (plug C (rot_left (Node u g kg RED sg (Node lp p kp BLACK sp t))))"
        and e: "get_parent h' z' = Some zp'" "get_color h' zp' = Some BLACK"
        by blast
      have "fixup_insert_loop T h z = Some (T', h')"
        using loop_step[OF gp(1) _ b] gp(2) True loop_exit[OF e] by simp
      then show ?thesis using f True ub by simp
    qed
  qed
next
  case (5 t)
  have "get_parent h z = Some nil" "get_color h nil = Some BLACK"
    using 5 by (auto simp: zrep_def heap_defs nil_ok_def)
  then show ?case using loop_exit zrep_fin[OF 5(1)] by fastforce
next
  case (6 p kp cp sp rp t)
  have "get_parent h z = Some p" "get_color h p = Some BLACK"
    using 6 by (auto simp: zrep_def heap_defs)
  then show ?case using loop_exit zrep_fin[OF 6(1)] by fastforce
next
  case (7 lp p kp cp sp t)
  have "get_parent h z = Some p" "get_color h p = Some BLACK"
    using 7 by (auto simp: zrep_def heap_defs)
  then show ?case using loop_exit zrep_fin[OF 7(1)] by fastforce
qed

lemma invc_plug:
  "invc (plug C t) = (invc t \<and> ctx_invc C \<and> (ctx_color C = RED \<longrightarrow> color_of t = BLACK))"
  by (induction C arbitrary: t) (auto simp: RED_def BLACK_def)

lemma bheight_eq_plug: "bheight t = bheight t' \<Longrightarrow> bheight (plug C t) = bheight (plug C t')"
  by (induction C arbitrary: t t') auto

lemma invh_plug: "invh (plug C t) = (invh t \<and> ctx_invh C (bheight t))"
  by (induction C arbitrary: t) (simp_all add: conj_ac)

lemma size_ok_plug: "size_ok (plug C t) = (size_ok t \<and> ctx_size_ok C (stored_size t))"
  by (induction C arbitrary: t) auto

lemma color_plug_top: "top_black C \<Longrightarrow> C \<noteq> Top \<Longrightarrow> color_of (plug C t) = BLACK"
  by (induction C arbitrary: t rule: top_black.induct) auto

lemma paint_simps [simp]:
  "addrs (paint c t) = addrs t" "inorder (paint c t) = inorder t"
  "stored_size (paint c t) = stored_size t" "size_ok (paint c t) = size_ok t"
  "invh (paint c t) = invh t" "root_ptr nil (paint c t) = root_ptr nil t"
  by (cases t; simp)+

lemma rot_left_simps [simp]:
  "addrs (rot_left t) = addrs t" "inorder (rot_left t) = inorder t"
  by (induction t rule: rot_left.induct; simp)+

lemma rot_right_simps [simp]:
  "addrs (rot_right t) = addrs t" "inorder (rot_right t) = inorder t"
  by (induction t rule: rot_right.induct; simp)+

lemma addrs_ins_fix: "addrs (ins_fix C t) = addrs (plug C t)"
  by (induction C t rule: ins_fix.induct) (simp_all add: addrs_plug)

lemma inorder_ins_fix: "inorder (ins_fix C t) = inorder (plug C t)"
  by (induction C t rule: ins_fix.induct) (simp_all add: inorder_plug)

lemma size_ok_rot_left:
  "size_ok t \<Longrightarrow> size_ok (rot_left t) \<and> stored_size (rot_left t) = stored_size t"
  by (induction t rule: rot_left.induct; simp)

lemma size_ok_rot_right:
  "size_ok t \<Longrightarrow> size_ok (rot_right t) \<and> stored_size (rot_right t) = stored_size t"
  by (induction t rule: rot_right.induct; simp)

lemma size_ok_plug_rot:
  "size_ok t \<Longrightarrow> ctx_size_ok C (stored_size t) \<Longrightarrow> size_ok (plug C (rot_left t))"
  "size_ok t \<Longrightarrow> ctx_size_ok C (stored_size t) \<Longrightarrow> size_ok (plug C (rot_right t))"
  using size_ok_rot_left[of t] size_ok_rot_right[of t] by (simp_all add: size_ok_plug)

lemma ctx_size_ok_add: "ctx_size_ok C n \<Longrightarrow> ctx_size_ok (ctx_add v C) (n + v)"
  by (induction C arbitrary: n) auto

lemma size_ok_ins_fix:
  "size_ok t \<Longrightarrow> ctx_size_ok C (stored_size t) \<Longrightarrow> size_ok (ins_fix C t)"
proof (induction C t rule: ins_fix.induct)
  case (1 C g kg cg sg u p kp cp sp rp t)
  show ?case
  proof (cases "cp = RED")
    case True
    show ?thesis
    proof (cases "color_of u = RED")
      case ur: True
      have "size_ok (ins_fix C (Node (Node t p kp BLACK sp rp) g kg RED sg (paint BLACK u)))"
        using 1(2,3) by (intro "1.IH"[OF True ur]) auto
      then show ?thesis using True ur by simp
    next
      case False
      have "size_ok (plug C (rot_right (Node (Node t p kp BLACK sp rp) g kg RED sg u)))"
        using 1(2,3) by (intro size_ok_plug_rot) auto
      then show ?thesis using True False by simp
    qed
  next
    case False
    then show ?thesis using 1(2,3) by (auto simp: size_ok_plug)
  qed
next
  case (2 lp p kp cp sp C g kg cg sg u t)
  show ?case
  proof (cases "cp = RED")
    case True
    show ?thesis
    proof (cases "color_of u = RED")
      case ur: True
      have "size_ok (ins_fix C (Node (Node lp p kp BLACK sp t) g kg RED sg (paint BLACK u)))"
        using 2(2,3) by (intro "2.IH"[OF True ur]) auto
      then show ?thesis using True ur by simp
    next
      case False
      have "size_ok (Node lp p kp cp sp t)" using 2(2,3) by simp
      from size_ok_rot_left[OF this]
      have "size_ok (plug C (rot_right (Node (paint BLACK (rot_left (Node lp p kp cp sp t))) g kg RED sg u)))"
        using 2(2,3) by (intro size_ok_plug_rot) auto
      then show ?thesis using True False by simp
    qed
  next
    case False
    then show ?thesis using 2(2,3) by (auto simp: size_ok_plug)
  qed
next
  case (3 u g kg cg sg C p kp cp sp rp t)
  show ?case
  proof (cases "cp = RED")
    case True
    show ?thesis
    proof (cases "color_of u = RED")
      case ur: True
      have "size_ok (ins_fix C (Node (paint BLACK u) g kg RED sg (Node t p kp BLACK sp rp)))"
        using 3(2,3) by (intro "3.IH"[OF True ur]) auto
      then show ?thesis using True ur by simp
    next
      case False
      have "size_ok (Node t p kp cp sp rp)" using 3(2,3) by simp
      from size_ok_rot_right[OF this]
      have "size_ok (plug C (rot_left (Node u g kg RED sg (paint BLACK (rot_right (Node t p kp cp sp rp))))))"
        using 3(2,3) by (intro size_ok_plug_rot) auto
      then show ?thesis using True False by simp
    qed
  next
    case False
    then show ?thesis using 3(2,3) by (auto simp: size_ok_plug)
  qed
next
  case (4 lp p kp cp sp u g kg cg sg C t)
  show ?case
  proof (cases "cp = RED")
    case True
    show ?thesis
    proof (cases "color_of u = RED")
      case ur: True
      have "size_ok (ins_fix C (Node (paint BLACK u) g kg RED sg (Node lp p kp BLACK sp t)))"
        using 4(2,3) by (intro "4.IH"[OF True ur]) auto
      then show ?thesis using True ur by simp
    next
      case False
      have "size_ok (plug C (rot_left (Node u g kg RED sg (Node lp p kp BLACK sp t))))"
        using 4(2,3) by (intro size_ok_plug_rot) auto
      then show ?thesis using True False by simp
    qed
  next
    case False
    then show ?thesis using 4(2,3) by (auto simp: size_ok_plug)
  qed
qed (simp_all add: size_ok_plug)

lemma invc_paint_black: "invc t \<Longrightarrow> invc (paint BLACK t)"
  by (cases t) (auto simp: RED_def BLACK_def)

lemma color_paint: "t \<noteq> Leaf \<Longrightarrow> color_of (paint c t) = c"
  by (cases t) auto

lemma bheight_paint_black: "color_of t = RED \<Longrightarrow> bheight (paint BLACK t) = Suc (bheight t)"
  by (cases t) (auto simp: RED_def BLACK_def)

lemma red_node: "color_of t = RED \<Longrightarrow> \<exists>l a k s r. t = Node l a k RED s r"
  by (cases t) (auto simp: RED_def BLACK_def)

lemma rb_ins_fix:
  "invc t \<Longrightarrow> invh t \<Longrightarrow> color_of t = RED \<Longrightarrow> ctx_invc C \<Longrightarrow> ctx_invh C (bheight t) \<Longrightarrow>
   top_black C \<Longrightarrow> invc (ins_fix C t) \<and> invh (ins_fix C t)"
proof (induction C t rule: ins_fix.induct)
  case (1 C g kg cg sg u p kp cp sp rp t)
  show ?case
  proof (cases "cp = RED")
    case True
    have g: "cg = BLACK" "color_of rp = BLACK" using 1(5) True by auto
    show ?thesis
    proof (cases "color_of u = RED")
      case ur: True
      obtain ul y ky sy ur' where u: "u = Node ul y ky RED sy ur'" using red_node[OF ur] by blast
      have "invc (ins_fix C (Node (Node t p kp BLACK sp rp) g kg RED sg (paint BLACK u)))
          \<and> invh (ins_fix C (Node (Node t p kp BLACK sp rp) g kg RED sg (paint BLACK u)))"
        using 1(2-7) True g u top_black_up(1)[OF 1(7)]
        by (intro "1.IH"[OF True ur]) (auto simp: RED_def BLACK_def)
      then show ?thesis using True ur by simp
    next
      case False
      then show ?thesis using 1(2-7) True g
        by (auto simp: invc_plug invh_plug RED_def BLACK_def)
    qed
  next
    case False
    then show ?thesis using 1(2-7) by (auto simp: invc_plug invh_plug RED_def BLACK_def)
  qed
next
  case (2 lp p kp cp sp C g kg cg sg u t)
  obtain l z kz sz r where t: "t = Node l z kz RED sz r" using red_node[OF 2(4)] by blast
  show ?case
  proof (cases "cp = RED")
    case True
    have g: "cg = BLACK" "color_of lp = BLACK" using 2(5) True by auto
    show ?thesis
    proof (cases "color_of u = RED")
      case ur: True
      obtain ul y ky sy ur' where u: "u = Node ul y ky RED sy ur'" using red_node[OF ur] by blast
      have "invc (ins_fix C (Node (Node lp p kp BLACK sp t) g kg RED sg (paint BLACK u)))
          \<and> invh (ins_fix C (Node (Node lp p kp BLACK sp t) g kg RED sg (paint BLACK u)))"
        using 2(2-7) True g u top_black_up(2)[OF 2(7)]
        by (intro "2.IH"[OF True ur]) (auto simp: RED_def BLACK_def)
      then show ?thesis using True ur by simp
    next
      case False
      then show ?thesis using 2(2-7) True g t
        by (auto simp: invc_plug invh_plug RED_def BLACK_def)
    qed
  next
    case False
    then show ?thesis using 2(2-7) by (auto simp: invc_plug invh_plug RED_def BLACK_def)
  qed
next
  case (3 u g kg cg sg C p kp cp sp rp t)
  obtain l z kz sz r where t: "t = Node l z kz RED sz r" using red_node[OF 3(4)] by blast
  show ?case
  proof (cases "cp = RED")
    case True
    have g: "cg = BLACK" "color_of rp = BLACK" using 3(5) True by auto
    show ?thesis
    proof (cases "color_of u = RED")
      case ur: True
      obtain ul y ky sy ur' where u: "u = Node ul y ky RED sy ur'" using red_node[OF ur] by blast
      have "invc (ins_fix C (Node (paint BLACK u) g kg RED sg (Node t p kp BLACK sp rp)))
          \<and> invh (ins_fix C (Node (paint BLACK u) g kg RED sg (Node t p kp BLACK sp rp)))"
        using 3(2-7) True g u top_black_up(3)[OF 3(7)]
        by (intro "3.IH"[OF True ur]) (auto simp: RED_def BLACK_def)
      then show ?thesis using True ur by simp
    next
      case False
      then show ?thesis using 3(2-7) True g t
        by (auto simp: invc_plug invh_plug RED_def BLACK_def)
    qed
  next
    case False
    then show ?thesis using 3(2-7) by (auto simp: invc_plug invh_plug RED_def BLACK_def)
  qed
next
  case (4 lp p kp cp sp u g kg cg sg C t)
  show ?case
  proof (cases "cp = RED")
    case True
    have g: "cg = BLACK" "color_of lp = BLACK" using 4(5) True by auto
    show ?thesis
    proof (cases "color_of u = RED")
      case ur: True
      obtain ul y ky sy ur' where u: "u = Node ul y ky RED sy ur'" using red_node[OF ur] by blast
      have "invc (ins_fix C (Node (paint BLACK u) g kg RED sg (Node lp p kp BLACK sp t)))
          \<and> invh (ins_fix C (Node (paint BLACK u) g kg RED sg (Node lp p kp BLACK sp t)))"
        using 4(2-7) True g u top_black_up(4)[OF 4(7)]
        by (intro "4.IH"[OF True ur]) (auto simp: RED_def BLACK_def)
      then show ?thesis using True ur by simp
    next
      case False
      then show ?thesis using 4(2-7) True g
        by (auto simp: invc_plug invh_plug RED_def BLACK_def)
    qed
  next
    case False
    then show ?thesis using 4(2-7) by (auto simp: invc_plug invh_plug RED_def BLACK_def)
  qed
next
  case (5 t)
  then show ?case by simp
next
  case (6 p kp cp sp rp t)
  then show ?case by (auto simp: RED_def BLACK_def)
next
  case (7 lp p kp cp sp t)
  then show ?case by (auto simp: RED_def BLACK_def)
qed

lemma rep_cells_some: "rep m nil par t \<Longrightarrow> a \<in> set (addrs t) \<Longrightarrow> m a \<noteq> None"
  by (induction t arbitrary: par) auto

lemma ctx_add_lists [simp]:
  "before_addrs (ctx_add v C) = before_addrs C" "after_addrs (ctx_add v C) = after_addrs C"
  "before_keys (ctx_add v C) = before_keys C" "after_keys (ctx_add v C) = after_keys C"
  by (induction C; simp)+

lemma ctx_add_simps [simp]:
  "ctx_addrs (ctx_add v C) = ctx_addrs C" "ctx_ptr nil (ctx_add v C) = ctx_ptr nil C"
  "ctx_color (ctx_add v C) = ctx_color C"
  by (simp add: ctx_addrs_def) (cases C; simp)+

lemma ctx_add_root [simp]: "ctx_root (ctx_add v C) p = ctx_root C p"
  by (induction C arbitrary: p) simp_all

lemma ctx_add_invc [simp]: "ctx_invc (ctx_add v C) = ctx_invc C"
  by (induction C) simp_all

lemma ctx_add_invh [simp]: "ctx_invh (ctx_add v C) n = ctx_invh C n"
  by (induction C arbitrary: n) simp_all

lemma top_black_add [simp]: "top_black (ctx_add v C) = top_black C"
  by (induction C rule: top_black.induct) auto

lemma updateSize_ctx:
  "rep_ctx (cells h) nil C p \<Longrightarrow> distinct (ctx_addrs C) \<Longrightarrow> nil \<notin> set (ctx_addrs C) \<Longrightarrow>
   \<exists>h'. updateSize h (ctx_ptr nil C) nil v = Some h' \<and> rep_ctx (cells h') nil (ctx_add v C) p \<and>
     next_free h' = next_free h \<and> (\<forall>a. a \<notin> set (ctx_addrs C) \<longrightarrow> cells h' a = cells h a)"
proof (induction C arbitrary: h p)
  case Top
  show ?case by (subst updateSize.simps) simp
next
  case (InL C y ky cy sy r)
  let ?yn = "\<lparr>nsize = sy, left = p, right = root_ptr nil r, parent = ctx_ptr nil C, key = ky, color = cy\<rparr>"
  let ?h1 = "h\<lparr>cells := (cells h)(y \<mapsto> ?yn\<lparr>nsize := sy + v\<rparr>)\<rparr>"
  have cy: "cells h y = Some ?yn" and yn: "y \<noteq> nil" using InL.prems by auto
  have r1: "rep_ctx (cells ?h1) nil C y" using InL.prems by simp
  from InL.IH[OF r1] InL.prems obtain h' where
    u: "updateSize ?h1 (ctx_ptr nil C) nil v = Some h'"
    and rc: "rep_ctx (cells h') nil (ctx_add v C) y"
    and nf: "next_free h' = next_free h"
    and fr: "\<forall>a. a \<notin> set (ctx_addrs C) \<longrightarrow> cells h' a = cells ?h1 a"
    by auto
  have 1: "updateSize h (ctx_ptr nil (InL C y ky cy sy r)) nil v = Some h'"
    using cy yn u by (subst updateSize.simps) simp
  have cy': "cells h' y = Some (?yn\<lparr>nsize := sy + v\<rparr>)" using fr InL.prems by simp
  have "rep (cells h') nil y r = rep (cells h) nil y r"
    using fr InL.prems by (intro rep_cong) auto
  then have 2: "rep_ctx (cells h') nil (ctx_add v (InL C y ky cy sy r)) p"
    using rc cy' InL.prems by simp
  have 3: "\<forall>a. a \<notin> set (ctx_addrs (InL C y ky cy sy r)) \<longrightarrow> cells h' a = cells h a"
    using fr by simp
  show ?case using 1 2 3 nf by blast
next
  case (InR l y ky cy sy C)
  let ?yn = "\<lparr>nsize = sy, left = root_ptr nil l, right = p, parent = ctx_ptr nil C, key = ky, color = cy\<rparr>"
  let ?h1 = "h\<lparr>cells := (cells h)(y \<mapsto> ?yn\<lparr>nsize := sy + v\<rparr>)\<rparr>"
  have cy: "cells h y = Some ?yn" and yn: "y \<noteq> nil" using InR.prems by auto
  have r1: "rep_ctx (cells ?h1) nil C y" using InR.prems by simp
  from InR.IH[OF r1] InR.prems obtain h' where
    u: "updateSize ?h1 (ctx_ptr nil C) nil v = Some h'"
    and rc: "rep_ctx (cells h') nil (ctx_add v C) y"
    and nf: "next_free h' = next_free h"
    and fr: "\<forall>a. a \<notin> set (ctx_addrs C) \<longrightarrow> cells h' a = cells ?h1 a"
    by auto
  have 1: "updateSize h (ctx_ptr nil (InR l y ky cy sy C)) nil v = Some h'"
    using cy yn u by (subst updateSize.simps) simp
  have cy': "cells h' y = Some (?yn\<lparr>nsize := sy + v\<rparr>)" using fr InR.prems by simp
  have "rep (cells h') nil y l = rep (cells h) nil y l"
    using fr InR.prems by (intro rep_cong) auto
  then have 2: "rep_ctx (cells h') nil (ctx_add v (InR l y ky cy sy C)) p"
    using rc cy' InR.prems by simp
  have 3: "\<forall>a. a \<notin> set (ctx_addrs (InR l y ky cy sy C)) \<longrightarrow> cells h' a = cells h a"
    using fr by simp
  show ?case using 1 2 3 nf by blast
qed

lemma descend_path: "descend x C t = (C', t') \<Longrightarrow> path_ok x C \<Longrightarrow> path_ok x C'"
  by (induction t arbitrary: C) (auto simp: equal_def split: if_splits)

lemma bst_path_bounds:
  "bst (plug C t) \<Longrightarrow> path_ok x C \<Longrightarrow>
   (\<forall>y\<in>set (before_keys C). y < x) \<and> (\<forall>y\<in>set (after_keys C). x < y)"
proof (induction C arbitrary: t)
  case Top
  then show ?case by simp
next
  case (InL C a k c s r)
  have b: "bst (plug C (Node t a k c s r))" using InL.prems by simp
  from InL.IH[OF b] InL.prems have ih: "(\<forall>y\<in>set (before_keys C). y < x) \<and> (\<forall>y\<in>set (after_keys C). x < y)" by simp
  have "\<forall>y\<in>set (inorder r). k < y" using b by (auto simp: bst_def inorder_plug sorted_wrt_append)
  then show ?case using ih InL.prems(2) by auto
next
  case (InR l a k c s C)
  have b: "bst (plug C (Node l a k c s t))" using InR.prems by simp
  from InR.IH[OF b] InR.prems have ih: "(\<forall>y\<in>set (before_keys C). y < x) \<and> (\<forall>y\<in>set (after_keys C). x < y)" by simp
  have "\<forall>y\<in>set (inorder l). y < k" using b by (auto simp: bst_def inorder_plug sorted_wrt_append)
  then show ?case using ih InR.prems(2) by auto
qed

lemma bst_insert_plug:
  assumes "bst (plug C Leaf)" "path_ok x C"
  shows "bst (plug C (Node Leaf z x c s Leaf))"
proof -
  have b: "(\<forall>y\<in>set (before_keys C). y < x) \<and> (\<forall>y\<in>set (after_keys C). x < y)"
    by (rule bst_path_bounds[OF assms])
  have "sorted_wrt (<) (before_keys C @ after_keys C)" using assms(1) by (simp add: bst_def inorder_plug)
  then show ?thesis using b by (auto simp: bst_def inorder_plug sorted_wrt_append)
qed

lemma top_black_plug: "color_of (plug C t) = BLACK \<Longrightarrow> C \<noteq> Top \<Longrightarrow> top_black C"
  by (induction C arbitrary: t rule: top_black.induct) auto

lemma fixup_insert_fix:
  assumes z: "zrep nil T h C t" and t: "t = Node l z kz cz sz r" and tb: "top_black C"
  shows "\<exists>T' h'. fixup_insert T h z = Some (T', h') \<and>
     fin nil h (set (addrs (plug C t))) T' h' (paint BLACK (ins_fix C t))"
proof -
  from fixup_insert_loop_fix[OF z t tb] obtain T1 h1 where
    l: "fixup_insert_loop T h z = Some (T1, h1)"
    and f: "fin nil h (set (addrs (plug C t))) T1 h1 (ins_fix C t)" by blast
  have "addrs (ins_fix C t) \<noteq> []" using t by (simp add: addrs_ins_fix addrs_plug)
  then obtain l' a k' c' s' r' where n: "ins_fix C t = Node l' a k' c' s' r'"
    by (cases "ins_fix C t") auto
  have d: "distinct (addrs (ins_fix C t))" using z by (simp add: addrs_ins_fix zrep_def)
  have "addrs (plug C t) = addrs l' @ a # addrs r'" using n addrs_ins_fix[of C t] by simp
  then have a: "a \<notin> set (addrs l')" "a \<notin> set (addrs r')" "a \<in> set (addrs (plug C t))"
    using d n by auto
  let ?an = "\<lparr>nsize = s', left = root_ptr nil l', right = root_ptr nil r', parent = nil, key = k', color = c'\<rparr>"
  have ca: "cells h1 a = Some ?an" and ra: "m_root T1 = a"
    and rl: "rep (cells h1) nil a l'" "rep (cells h1) nil a r'"
    using f n by (simp_all add: fin_def)
  define h2 where "h2 = h1\<lparr>cells := (cells h1)(a \<mapsto> ?an\<lparr>color := BLACK\<rparr>)\<rparr>"
  have s: "set_color (m_root T1) BLACK h1 = Some h2" using ca ra by (simp add: heap_defs h2_def)
  have "fixup_insert T h z = Some (T1, h2)" using l s by (simp add: fixup_insert_def)
  moreover have "fin nil h (set (addrs (plug C t))) T1 h2 (paint BLACK (ins_fix C t))"
    using f n a rl ra by (auto simp: fin_def h2_def)
  ultimately show ?thesis by blast
qed

lemma alloc_fresh:
  "alloc_ok h \<Longrightarrow> next_free h \<noteq> nullptr \<Longrightarrow> cells h (next_free h) = None"
  by (simp add: alloc_ok_def)

lemma alloc_ok_step:
  assumes "alloc_ok h" "next_free h \<noteq> nullptr" "next_free h' = next_free h + 1"
    "\<forall>a. a \<noteq> next_free h \<longrightarrow> (cells h' a = None) = (cells h a = None)"
  shows "alloc_ok h'"
proof -
  have "cells h' nullptr = None" using assms by (simp add: alloc_ok_def)
  moreover have "cells h' a = None" if "next_free h' \<noteq> nullptr" "next_free h' \<le> a" for a
  proof -
    have "next_free h + 1 \<noteq> 0" using that assms(3) by (simp add: nullptr_def)
    then have "next_free h \<noteq> - 1" by auto
    moreover have "next_free h + 1 \<le> a" using that assms(3) by simp
    ultimately have "next_free h < a" by (simp add: inc_less_eq_iff)
    then have "next_free h \<le> a" "a \<noteq> next_free h" by auto
    then show ?thesis using assms by (simp add: alloc_ok_def)
  qed
  ultimately show ?thesis by (simp add: alloc_ok_def)
qed

lemma insert_absent:
  assumes v: "valid T h t" and k: "k \<notin> set (inorder t)" and mem: "next_free h \<noteq> nullptr"
  shows "\<exists>T' h' t'. insert_os T h k = Some ((next_free h, True), T', h') \<and> valid T' h' t' \<and>
      set (inorder t') = insert k (set (inorder t)) \<and> m_nil T' = m_nil T \<and>
      next_free h' = next_free h + 1 \<and> get_key h' (next_free h) = Some k"
proof -
  let ?nil = "m_nil T"
  define z where "z = next_free h"
  have vv: "rep (cells h) ?nil ?nil t" "m_root T = root_ptr ?nil t" "distinct (addrs t)"
    "?nil \<notin> set (addrs t)" "nil_ok (cells h) ?nil" "bst t" "size_ok t" "rbt t" "alloc_ok h"
    using v by (simp_all add: valid_def)
  obtain C where d: "descend k Top t = (C, Leaf)" using descend_absent[OF k] by blast
  have pl: "plug C Leaf = t" using descend_plug[OF d] by simp
  have po: "path_ok k C" using descend_path[OF d] by simp
  have il: "insert_loop h ?nil k (m_root T) ?nil = Some (Inr (ctx_ptr ?nil C))"
    using insert_loop_descend[of h ?nil Top t k] vv d by simp
  have zf: "cells h z = None" using alloc_fresh[OF vv(9) mem] by (simp add: z_def)
  have zn: "z \<noteq> ?nil" "z \<notin> set (addrs t)" "?nil \<noteq> z"
    using zf vv(5) rep_cells_some[OF vv(1), of z] by (auto simp: nil_ok_def)
  let ?zn = "\<lparr>nsize = 1, left = ?nil, right = ?nil, parent = ctx_ptr ?nil C, key = k, color = RED\<rparr>"
  let ?tz = "Node Leaf z k RED 1 Leaf"
  define h1 where "h1 = h\<lparr>cells := (cells h)(z \<mapsto> ?zn), next_free := z + 1\<rparr>"
  have nn: "new_node ?zn h = Some (z, h1)" using mem by (simp add: new_node_def h1_def z_def)
  have at: "addrs t = ctx_addrs C" using pl addrs_plug[of C Leaf] by (simp add: ctx_addrs_def)
  have da: "distinct (ctx_addrs C)" "?nil \<notin> set (ctx_addrs C)" "z \<notin> set (ctx_addrs C)"
    using vv zn at by simp_all
  have rc0: "rep_ctx (cells h) ?nil C ?nil" using vv(1) pl rep_plug[of "cells h" ?nil C Leaf] by simp
  have rt0: "m_root T = ctx_root C ?nil" using vv(2) pl root_ptr_plug[of ?nil C Leaf] by simp
  have "\<exists>T1 h2.
      (if ctx_ptr ?nil C = ?nil then Some (T\<lparr>m_root := z\<rparr>, h1)
       else do {
         zk \<leftarrow> get_key h1 z;
         yk \<leftarrow> get_key h1 (ctx_ptr ?nil C);
         h \<leftarrow> (if zk < yk then set_left (ctx_ptr ?nil C) z h1 else set_right (ctx_ptr ?nil C) z h1);
         Some (T, h)
       }) = Some (T1, h2) \<and>
      rep_ctx (cells h2) ?nil C z \<and> cells h2 z = Some ?zn \<and> m_root T1 = ctx_root C z \<and>
      m_nil T1 = ?nil \<and> next_free h2 = z + 1 \<and>
      (\<forall>a. a \<notin> insert z (set (ctx_addrs C)) \<longrightarrow> cells h2 a = cells h a)"
  proof (cases C)
    case Top
    then show ?thesis using rc0 rt0 zn by (simp add: h1_def)
  next
    case (InL C' y ky cy sy r)
    have "y \<noteq> z" "y \<noteq> ?nil" "k < ky" using da po InL by auto
    then show ?thesis using rc0 rt0 zn InL da
      by (simp add: h1_def heap_defs)
  next
    case (InR l y ky cy sy C')
    have "y \<noteq> z" "y \<noteq> ?nil" "\<not> k < ky" using da po InR by auto
    then show ?thesis using rc0 rt0 zn InR da
      by (simp add: h1_def heap_defs)
  qed
  then obtain T1 h2 where
    link: "(if ctx_ptr ?nil C = ?nil then Some (T\<lparr>m_root := z\<rparr>, h1)
       else do {
         zk \<leftarrow> get_key h1 z;
         yk \<leftarrow> get_key h1 (ctx_ptr ?nil C);
         h \<leftarrow> (if zk < yk then set_left (ctx_ptr ?nil C) z h1 else set_right (ctx_ptr ?nil C) z h1);
         Some (T, h)
       }) = Some (T1, h2)"
    and rc2: "rep_ctx (cells h2) ?nil C z" and cz2: "cells h2 z = Some ?zn"
    and T1: "m_root T1 = ctx_root C z" "m_nil T1 = ?nil" and nf2: "next_free h2 = z + 1"
    and fr2: "\<forall>a. a \<notin> insert z (set (ctx_addrs C)) \<longrightarrow> cells h2 a = cells h a"
    by blast
  have gp: "get_parent h2 z = Some (ctx_ptr ?nil C)" using cz2 by (simp add: heap_defs)
  from updateSize_ctx[OF rc2 da(1,2), of 1] obtain h3 where
    us: "updateSize h2 (ctx_ptr ?nil C) ?nil 1 = Some h3"
    and rc3: "rep_ctx (cells h3) ?nil (ctx_add 1 C) z"
    and nf3: "next_free h3 = next_free h2"
    and fr3: "\<forall>a. a \<notin> set (ctx_addrs C) \<longrightarrow> cells h3 a = cells h2 a"
    by blast
  have cz3: "cells h3 z = Some ?zn" using fr3 da(3) cz2 by simp
  have cn3: "cells h3 ?nil = cells h ?nil" using fr3 fr2 da(2) zn by simp
  have A: "set (addrs (plug (ctx_add 1 C) ?tz)) = insert z (set (addrs t))"
    by (simp add: set_addrs_plug at)
  have zr: "zrep ?nil T1 h3 (ctx_add 1 C) ?tz"
    unfolding zrep_def using rc3 cz3 T1 da vv(5) cn3 zn
    by (simp add: distinct_plug set_addrs_plug nil_ok_def)
  have tb: "top_black (ctx_add 1 C)"
    using top_black_plug[of C Leaf] vv(8) pl by (cases "C = Top") (auto simp: rbt_def)
  from fixup_insert_fix[OF zr refl tb] obtain T' h' where
    fx: "fixup_insert T1 h3 z = Some (T', h')"
    and fi: "fin ?nil h3 (insert z (set (addrs t))) T' h' (paint BLACK (ins_fix (ctx_add 1 C) ?tz))"
    unfolding A by blast
  let ?t' = "paint BLACK (ins_fix (ctx_add 1 C) ?tz)"
  have res: "insert_os T h k = Some ((z, True), T', h')"
    unfolding insert_os_def using il nn link gp us fx T1(2) by simp
  have ad: "addrs ?t' = before_addrs C @ z # after_addrs C"
    by (simp add: addrs_ins_fix addrs_plug)
  have io: "inorder ?t' = before_keys C @ k # after_keys C"
    by (simp add: inorder_ins_fix inorder_plug)
  have it: "inorder t = before_keys C @ after_keys C"
    using pl inorder_plug[of C Leaf] by simp
  have fr: "\<forall>a. a \<notin> insert z (set (addrs t)) \<longrightarrow> cells h' a = cells h a"
    using fi fr3 fr2 at by (simp add: fin_def)
  have nf: "next_free h' = z + 1" using fi nf3 nf2 by (simp add: fin_def)
  have v1: "rep (cells h') ?nil ?nil ?t'" "m_root T' = root_ptr ?nil ?t'" "m_nil T' = ?nil"
    using fi by (simp_all add: fin_def)
  have v2: "distinct (addrs ?t')" "?nil \<notin> set (addrs ?t')"
    using da zn unfolding ad at[unfolded ctx_addrs_def, symmetric] 
    by (auto simp: ctx_addrs_def at)
  have v3: "nil_ok (cells h') ?nil" using fr zn vv(4,5) by (simp add: nil_ok_def)
  have v4: "bst ?t'"
    using bst_insert_plug[of C k z RED 1] vv(6) pl po by (simp add: bst_def inorder_ins_fix inorder_plug)
  have so: "size_ok (plug C Leaf)" using vv(7) pl by simp
  have v5: "size_ok ?t'"
    using ctx_size_ok_add[of C 0 1] so by (simp add: size_ok_plug size_ok_ins_fix)
  have ic: "invc (plug C Leaf)" "invh (plug C Leaf)" using vv(8) pl by (simp_all add: rbt_def)
  have "invc (ins_fix (ctx_add 1 C) ?tz) \<and> invh (ins_fix (ctx_add 1 C) ?tz)"
    using ic tb by (intro rb_ins_fix) (simp_all add: invc_plug invh_plug RED_def BLACK_def)
  moreover have "ins_fix (ctx_add 1 C) ?tz \<noteq> Leaf"
    using addrs_ins_fix[of "ctx_add 1 C" ?tz] by (auto simp: addrs_plug)
  ultimately have v6: "rbt ?t'"
    by (simp add: rbt_def invc_paint_black color_paint)
  have v7: "alloc_ok h'"
  proof (rule alloc_ok_step[OF vv(9) mem])
    show "next_free h' = next_free h + 1" using nf by (simp add: z_def)
    show "\<forall>a. a \<noteq> next_free h \<longrightarrow> (cells h' a = None) = (cells h a = None)"
    proof (intro allI impI)
      fix a assume "a \<noteq> next_free h"
      show "(cells h' a = None) = (cells h a = None)"
      proof (cases "a \<in> set (addrs t)")
        case True
        then have "a \<in> set (addrs ?t')" using ad at by (auto simp: ctx_addrs_def)
        then show ?thesis using rep_cells_some[OF v1(1), of a] rep_cells_some[OF vv(1), of a] True by auto
      next
        case False
        then show ?thesis using fr \<open>a \<noteq> next_free h\<close> by (simp add: z_def)
      qed
    qed
  qed
  have "valid T' h' ?t'"
    unfolding valid_def using v1 v2 v3 v4 v5 v6 v7 by simp
  moreover have "set (inorder ?t') = insert k (set (inorder t))" using io it by auto
  moreover have "get_key h' z = Some k"
  proof -
    have "z \<in> set (addrs ?t')" using ad by simp
    then obtain i where i: "i < length (addrs ?t')" "addrs ?t' ! i = z" by (auto simp: in_set_conv_nth)
    have "i = length (before_addrs C)" using i v2(1) ad
      by (metis nth_append_length distinct_conv_nth length_append less_add_Suc1 list.size(4) nth_eq_iff_index_eq add_Suc_right)
    then have "inorder ?t' ! i = k" using io by (simp add: length_before nth_append)
    then show ?thesis using key_at_addr[OF v1(1) i(1)] i(2) by (simp add: get_key_def)
  qed
  ultimately show ?thesis using res v1(3) nf by (auto simp: z_def)
qed

lemma order_of_key_valid:
  assumes "valid T h t"
  shows "\<exists>c. order_of_key T h k = Some c \<and> unat c = length (filter (\<lambda>x. x < k) (inorder t))"
proof -
  let ?n = "length (filter (\<lambda>x. x < k) (inorder t))"
  have v: "rep (cells h) (m_nil T) (m_nil T) t" "m_nil T \<notin> set (addrs t)" "nil_ok (cells h) (m_nil T)"
    "m_root T = root_ptr (m_nil T) t" "size_ok t" "bst t"
    using assms by (auto simp: valid_def)
  have s0: "get_size h (m_root T) = Some (stored_size t)"
    using rep_root_size[OF v(1,3)] v(4) by (simp add: get_size_def)
  have "order_of_key T h k = Some (rank_res k (stored_size t) t)"
    using order_of_key_loop_rank[OF v(1,2,3), of k "stored_size t"] s0 v(4)
    by (simp add: order_of_key_def)
  moreover have "rank_res k (stored_size t) t = of_nat ?n"
    using rank_res_count[OF v(5,6), of k 0] by simp
  moreover have "?n < 2 ^ 64"
    using valid_size_bound[OF assms] length_filter_le[of "\<lambda>x. x < k" "inorder t"] by linarith
  then have "unat (of_nat ?n :: size_t) = ?n" by (simp add: unat_of_nat)
  ultimately show ?thesis by simp
qed

lemma find_by_order_valid:
  assumes "valid T h t"
  shows "find_by_order T h ord =
           Some (if unat ord < length (inorder t) then addrs t ! unat ord else m_nil T)
         \<and> (unat ord < length (inorder t) \<longrightarrow>
              get_key h (addrs t ! unat ord) = Some (inorder t ! unat ord))"
proof -
  have v: "rep (cells h) (m_nil T) (m_nil T) t" "m_nil T \<notin> set (addrs t)" "nil_ok (cells h) (m_nil T)"
    "m_root T = root_ptr (m_nil T) t" "size_ok t"
    using assms by (auto simp: valid_def)
  have b: "0 + length (inorder t) < 2 ^ 64" using valid_size_bound[OF assms] by simp
  have o: "unat ord < 2 ^ 64" using unsigned_less[of ord] by simp
  obtain rl where l0: "get_left h (m_root T) = Some rl" "get_size h rl = Some (lsize t)"
    using rep_root_lsize[OF v(1,3)] v(4) by (auto simp: get_left_def get_size_def split: option.splits)
  have "find_by_order_loop h (m_nil T) ord (0 + lsize t) (root_ptr (m_nil T) t) = Some (sel (m_nil T) ord 0 t)"
    by (rule find_by_order_loop_sel[OF v(1,2,3)])
  then have "find_by_order T h ord = Some (sel (m_nil T) ord 0 t)"
    using l0 v(4) by (simp add: find_by_order_def)
  moreover have "sel (m_nil T) (of_nat (unat ord)) (of_nat 0) t =
     (if 0 \<le> unat ord \<and> unat ord < 0 + length (inorder t) then addrs t ! (unat ord - 0) else m_nil T)"
    by (rule sel_nth[OF v(5) b o])
  ultimately have 1: "find_by_order T h ord =
           Some (if unat ord < length (inorder t) then addrs t ! unat ord else m_nil T)" by simp
  have 2: "unat ord < length (inorder t) \<longrightarrow>
              get_key h (addrs t ! unat ord) = Some (inorder t ! unat ord)"
    using key_at_addr[OF v(1), of "unat ord"] by (simp add: get_key_def length_addrs)
  show ?thesis using 1 2 by blast
qed

lemma insert_present:
  assumes "valid T h t" "k \<in> set (inorder t)"
  shows "\<exists>p. insert_os T h k = Some ((p, False), T, h) \<and> p \<in> set (addrs t) \<and> get_key h p = Some k"
proof -
  have v: "rep (cells h) (m_nil T) (ctx_ptr (m_nil T) Top) t" "m_nil T \<notin> set (addrs t)"
    "m_root T = root_ptr (m_nil T) t" "bst t"
    using assms by (auto simp: valid_def)
  from descend_present[OF v(4) assms(2), of Top] obtain C' l a c s r where
    d: "descend k Top t = (C', Node l a k c s r)" and a: "a \<in> set (addrs t)" by blast
  have "insert_loop h (m_nil T) k (m_root T) (m_nil T) = Some (Inl a)"
    using insert_loop_descend[OF v(1,2), of k] d v(3) by simp
  then have 1: "insert_os T h k = Some ((a, False), T, h)" by (simp add: insert_os_def)
  have "plug C' (Node l a k c s r) = t" using descend_plug[OF d] by simp
  then have "rep (cells h) (m_nil T) (m_nil T) (plug C' (Node l a k c s r))" using v(1) by simp
  then have "get_key h a = Some k" by (simp add: rep_plug get_key_def)
  then show ?thesis using 1 a by blast
qed

lemma ctor_valid:
  assumes "alloc_ok h" "next_free h \<noteq> nullptr"
  shows "\<exists>T h'. ordered_set_ctor h = Some (T, h') \<and> valid T h' Leaf \<and>
     next_free h' = next_free h + 1 \<and> m_nil T = next_free h"
proof -
  let ?p = "next_free h"
  let ?n = "\<lparr>nsize = 0, left = ?p, right = ?p, parent = ?p, key = 0, color = BLACK\<rparr>"
  let ?h' = "h\<lparr>cells := (cells h)(?p \<mapsto> ?n), next_free := ?p + 1\<rparr>"
  have c: "ordered_set_ctor h = Some (\<lparr>m_nil = ?p, m_root = ?p\<rparr>, ?h')"
    using assms(2) by (simp add: ordered_set_ctor_def new_node_def heap_defs)
  have "alloc_ok ?h'" by (rule alloc_ok_step[OF assms]) simp_all
  then have "valid \<lparr>m_nil = ?p, m_root = ?p\<rparr> ?h' Leaf"
    by (simp add: valid_def nil_ok_def bst_def rbt_def)
  then show ?thesis using c by simp
qed

lemma insert_valid:
  assumes "valid T h t" "insert_os T h k = Some (r, T', h')"
  shows "\<exists>t'. valid T' h' t' \<and> set (inorder t') = insert k (set (inorder t)) \<and>
     m_nil T' = m_nil T"
proof (cases "k \<in> set (inorder t)")
  case True
  from insert_present[OF assms(1) True] assms(2) have "T' = T" "h' = h" by auto
  then show ?thesis using assms(1) True by auto
next
  case False
  have "next_free h \<noteq> nullptr"
  proof
    assume n: "next_free h = nullptr"
    have vv: "rep (cells h) (m_nil T) (ctx_ptr (m_nil T) Top) t" "m_nil T \<notin> set (addrs t)"
      "m_root T = root_ptr (m_nil T) t"
      using assms(1) by (simp_all add: valid_def)
    obtain C where d: "descend k Top t = (C, Leaf)" using descend_absent[OF False] by blast
    have "insert_loop h (m_nil T) k (m_root T) (m_nil T) = Some (Inr (ctx_ptr (m_nil T) C))"
      using insert_loop_descend[OF vv(1,2), of k] d vv(3) by simp
    then have "insert_os T h k = None" using n by (simp add: insert_os_def new_node_def)
    then show False using assms(2) by simp
  qed
  from insert_absent[OF assms(1) False this] assms(2) show ?thesis by auto
qed

lemma insert_total:
  assumes "valid T h t" "next_free h \<noteq> nullptr"
  shows "\<exists>r T' h'. insert_os T h k = Some (r, T', h') \<and>
     (next_free h' = next_free h \<or> next_free h' = next_free h + 1)"
proof (cases "k \<in> set (inorder t)")
  case True
  from insert_present[OF assms(1) True] show ?thesis by auto
next
  case False
  from insert_absent[OF assms(1) False assms(2)] show ?thesis by blast
qed

lemma insert_all_valid:
  "valid T h t \<Longrightarrow> insert_all T h ks = Some (T', h') \<Longrightarrow>
   \<exists>t'. valid T' h' t' \<and> set (inorder t') = set (inorder t) \<union> set ks \<and> m_nil T' = m_nil T"
proof (induction ks arbitrary: T h t)
  case Nil
  then show ?case by auto
next
  case (Cons k ks)
  from Cons.prems(2) obtain r T1 h1 where
    i: "insert_os T h k = Some (r, T1, h1)" and a: "insert_all T1 h1 ks = Some (T', h')"
    by (auto split: option.splits)
  from insert_valid[OF Cons.prems(1) i] obtain t1 where
    v1: "valid T1 h1 t1" "set (inorder t1) = insert k (set (inorder t))" "m_nil T1 = m_nil T" by blast
  from Cons.IH[OF v1(1) a] v1(2,3) show ?case by auto
qed

lemma build_valid:
  assumes "alloc_ok h0" "build h0 ks = Some (T, h)"
  shows "\<exists>t. valid T h t \<and> set (inorder t) = set ks"
proof -
  have n: "next_free h0 \<noteq> nullptr"
  proof
    assume "next_free h0 = nullptr"
    then have "build h0 ks = None" by (simp add: build_def ordered_set_ctor_def new_node_def)
    then show False using assms(2) by simp
  qed
  from ctor_valid[OF assms(1) n] obtain T0 h1 where
    c: "ordered_set_ctor h0 = Some (T0, h1)" and v: "valid T0 h1 Leaf" by blast
  have "insert_all T0 h1 ks = Some (T, h)" using assms(2) c by (simp add: build_def)
  from insert_all_valid[OF v this] show ?thesis by auto
qed

lemma unat_inc: "unat (n :: ptr) + 1 < 2 ^ 64 \<Longrightarrow> unat (n + 1) = unat n + 1 \<and> n + 1 \<noteq> 0"
  using unat_add_lem[of n 1] by auto

lemma insert_all_total:
  "valid T h t \<Longrightarrow> next_free h \<noteq> nullptr \<Longrightarrow> unat (next_free h) + length ks < 2 ^ 64 \<Longrightarrow>
   \<exists>T' h'. insert_all T h ks = Some (T', h')"
proof (induction ks arbitrary: T h t)
  case Nil
  then show ?case by simp
next
  case (Cons k ks)
  from insert_total[OF Cons.prems(1,2), of k] obtain r T1 h1 where
    i: "insert_os T h k = Some (r, T1, h1)"
    and nf: "next_free h1 = next_free h \<or> next_free h1 = next_free h + 1" by blast
  from insert_valid[OF Cons.prems(1) i] obtain t1 where v1: "valid T1 h1 t1" by blast
  have b: "unat (next_free h) + 1 < 2 ^ 64" using Cons.prems(3) by simp
  have "next_free h1 \<noteq> nullptr \<and> unat (next_free h1) + length ks < 2 ^ 64"
    using nf Cons.prems(2,3) unat_inc[OF b] by (auto simp: nullptr_def)
  then obtain T' h' where "insert_all T1 h1 ks = Some (T', h')"
    using Cons.IH[OF v1] by blast
  then show ?case using i by simp
qed

lemma build_total:
  assumes "alloc_ok h0" "next_free h0 \<noteq> nullptr" "unat (next_free h0) + Suc (length ks) < 2 ^ 64"
  shows "\<exists>T h. build h0 ks = Some (T, h)"
proof -
  from ctor_valid[OF assms(1,2)] obtain T0 h1 where
    c: "ordered_set_ctor h0 = Some (T0, h1)" and v: "valid T0 h1 Leaf"
    and nf: "next_free h1 = next_free h0 + 1" by blast
  have b: "unat (next_free h0) + 1 < 2 ^ 64" using assms(3) by simp
  have "next_free h1 \<noteq> nullptr" "unat (next_free h1) + length ks < 2 ^ 64"
    using nf unat_inc[OF b] assms(3) by (auto simp: nullptr_def)
  from insert_all_total[OF v this] c show ?thesis by (simp add: build_def)
qed

lemma sorted_rank:
  assumes "sorted_wrt (<) (xs :: 'a::linorder list)" "j < length xs"
  shows "length (filter (\<lambda>x. x < xs ! j) xs) = j"
proof -
  have xs: "xs = take j xs @ xs ! j # drop (Suc j) xs" using assms(2) by (simp add: id_take_nth_drop)
  have s: "sorted_wrt (<) (take j xs @ xs ! j # drop (Suc j) xs)" using assms(1) xs by simp
  have 1: "filter (\<lambda>x. x < xs ! j) (take j xs) = take j xs"
    using s by (auto simp: sorted_wrt_append filter_id_conv)
  have 2: "filter (\<lambda>x. x < xs ! j) (drop (Suc j) xs) = []"
    using s by (auto simp: sorted_wrt_append filter_empty_conv)
  have "filter (\<lambda>x. x < xs ! j) xs = filter (\<lambda>x. x < xs ! j) (take j xs @ xs ! j # drop (Suc j) xs)"
    using xs by simp
  also have "\<dots> = take j xs" using 1 2 by simp
  finally show ?thesis using assms(2) by simp
qed

lemma size_os_valid: "valid T h t \<Longrightarrow> size_os T h = Some (of_nat (length (inorder t)))"
  using rep_root_size[of "cells h" "m_nil T" "m_nil T" t]
  by (simp add: valid_def size_os_def get_size_def stored_size_count)

lemma roundtrip_valid:
  assumes v: "valid T h t" and s: "size_os T h = Some n" and i: "i < n"
  shows "\<exists>p k. find_by_order T h i = Some p \<and> p \<noteq> m_nil T \<and> get_key h p = Some k \<and>
      order_of_key T h k = Some i"
proof -
  let ?len = "length (inorder t)"
  have b: "?len < 2 ^ 64" by (rule valid_size_bound[OF v])
  have n: "n = of_nat ?len" using size_os_valid[OF v] s by simp
  have "unat n = ?len" using b n by (simp add: unat_of_nat)
  then have ui: "unat i < ?len" using i by (simp add: word_less_nat_alt)
  let ?p = "addrs t ! unat i" and ?k = "inorder t ! unat i"
  have f: "find_by_order T h i = Some ?p" "get_key h ?p = Some ?k"
    using find_by_order_valid[OF v, of i] ui by simp_all
  have "?p \<in> set (addrs t)" using ui by (simp add: length_addrs)
  then have pn: "?p \<noteq> m_nil T" using v by (auto simp: valid_def)
  obtain c where c: "order_of_key T h ?k = Some c" "unat c = length (filter (\<lambda>x. x < ?k) (inorder t))"
    using order_of_key_valid[OF v, of ?k] by blast
  have "sorted_wrt (<) (inorder t)" using v by (simp add: valid_def bst_def)
  from sorted_rank[OF this ui] c(2) have "unat c = unat i" by simp
  then have "c = i" by (simp add: word_unat_eq_iff)
  then show ?thesis using f pn c(1) by blast
qed

text \<open>The blocks of one round of \<open>fixup_erase\<close> on a tree with a hole.\<close>

lemma xrep_parent: "xrep nil T h C t \<Longrightarrow> get_parent h (root_ptr nil t) = Some (ctx_ptr nil C)"
  by (simp add: xrep_def get_parent_def)

lemma root_notin: "q \<noteq> nil \<Longrightarrow> q \<notin> set (addrs t) \<Longrightarrow> q \<noteq> root_ptr nil t"
  using root_ptr_neq[of q nil t] by auto

lemma erase_block1_left:
  fixes t :: "'k tree" and nil :: ptr
  defines "x \<equiv> root_ptr nil t"
  assumes xr: "xrep nil T h (InL C p kp cp sp (Node wl wa wk RED ws wr)) t"
  shows "\<exists>T1 h1.
     do {
       h \<leftarrow> set_color wa BLACK h;
       xp \<leftarrow> get_parent h x;
       h \<leftarrow> set_color xp RED h;
       xp \<leftarrow> get_parent h x;
       (T, h) \<leftarrow> rotate_left T h xp;
       xp \<leftarrow> get_parent h x;
       w \<leftarrow> get_right h xp;
       Some (T, h, w)
     } = Some (T1, h1, root_ptr nil wl) \<and>
     xrep nil T1 h1 (InL (InL C wa wk BLACK (ws + stored_size t + 1) wr) p kp RED
        (sp - stored_size wr - 1) wl) t \<and>
     next_free h1 = next_free h \<and>
     (\<forall>a. a \<notin> set (addrs (plug (InL C p kp cp sp (Node wl wa wk RED ws wr)) t)) \<longrightarrow>
          cells h1 a = cells h a)"
proof -
  let ?w = "Node wl wa wk RED ws wr"
  let ?A = "set (addrs (plug (InL C p kp cp sp ?w) t))"
  let ?t0 = "Node t p kp cp sp ?w"
  let ?t2 = "Node t p kp RED sp (Node wl wa wk BLACK ws wr)"
  have rc: "rep_ctx (cells h) nil (InL C p kp cp sp ?w) x"
    and rt: "rep (cells h) nil p t"
    and T: "m_root T = ctx_root C p" "m_nil T = nil"
    and d: "distinct (addrs (plug C ?t0))" and n: "nil \<notin> set (addrs (plug C ?t0))"
    and nn: "nil_node (cells h) nil"
    and px: "map_option parent (cells h x) = Some p"
    using xr by (simp_all add: xrep_def x_def)
  have A: "?A = set (addrs (plug C ?t0))" by simp
  have ne: "p \<noteq> wa" "wa \<noteq> p" "p \<noteq> nil" "wa \<noteq> nil" "nil \<noteq> p" "nil \<noteq> wa"
    using d n by (auto simp: distinct_plug set_addrs_plug)
  have xne: "x \<noteq> p" "x \<noteq> wa" "p \<noteq> x" "wa \<noteq> x"
    using d n root_notin[of p nil t] root_notin[of wa nil t] by (auto simp: distinct_plug set_addrs_plug x_def)
  let ?pn = "\<lparr>nsize = sp, left = x, right = wa, parent = ctx_ptr nil C, key = kp, color = cp\<rparr>"
  let ?wn = "\<lparr>nsize = ws, left = root_ptr nil wl, right = root_ptr nil wr, parent = p, key = wk, color = RED\<rparr>"
  have cp: "cells h p = Some ?pn" using rc by simp
  have cw: "cells h wa = Some ?wn" using rc by simp
  define h1 where "h1 = h\<lparr>cells := (cells h)(wa \<mapsto> ?wn\<lparr>color := BLACK\<rparr>)\<rparr>"
  define h2 where "h2 = h1\<lparr>cells := (cells h1)(p \<mapsto> ?pn\<lparr>color := RED\<rparr>)\<rparr>"
  have s1: "set_color wa BLACK h = Some h1" using cw by (simp add: heap_defs h1_def)
  have g1: "get_parent h1 x = Some p" using px xne by (simp add: get_parent_def h1_def)
  have c1: "cells h1 p = Some ?pn" using cp ne by (simp add: h1_def)
  have s2: "set_color p RED h1 = Some h2" using c1 by (simp add: heap_defs h2_def)
  have g2: "get_parent h2 x = Some p" using px xne by (simp add: get_parent_def h2_def h1_def)
  have h2c: "cells h2 = (cells h)(wa \<mapsto> ?wn\<lparr>color := BLACK\<rparr>, p \<mapsto> ?pn\<lparr>color := RED\<rparr>)"
    by (simp add: h2_def h1_def)
  have dd: "p \<notin> set (addrs t)" "p \<notin> set (addrs wl)" "p \<notin> set (addrs wr)" "p \<notin> set (ctx_addrs C)"
    "wa \<notin> set (addrs t)" "wa \<notin> set (addrs wl)" "wa \<notin> set (addrs wr)" "wa \<notin> set (ctx_addrs C)"
    using d by (auto simp: distinct_plug)
  have d2: "distinct (addrs (plug C ?t2))" and n2: "nil \<notin> set (addrs (plug C ?t2))"
    using d n by (auto simp: distinct_plug set_addrs_plug)
  have A2: "set (addrs (plug C ?t2)) = ?A" by (auto simp: set_addrs_plug)
  have r2c: "rep_ctx (cells h2) nil C p" using rc dd by (simp add: h2c)
  have r2t: "rep (cells h2) nil (ctx_ptr nil C) ?t2"
    using rc rt dd ne by (simp add: h2c x_def)
  from rotate_left_rep[OF r2c r2t T(1) T(2) d2 n2] obtain T3 h3 where
    rl: "rotate_left T h2 p = Some (T3, h3)"
    and c3: "rep_ctx (cells h3) nil C wa"
    and t3: "rep (cells h3) nil (ctx_ptr nil C)
       (Node (Node t p kp RED (sp - stored_size wr - 1) wl) wa wk BLACK (ws + stored_size t + 1) wr)"
    and T3: "m_root T3 = ctx_root C wa" "m_nil T3 = nil"
    and nf3: "next_free h3 = next_free h2"
    and fr3: "\<forall>a. a \<notin> ?A \<longrightarrow> cells h3 a = cells h2 a"
    unfolding A2 by blast
  have fr: "\<forall>a. a \<notin> ?A \<longrightarrow> cells h3 a = cells h a"
  proof (intro allI impI)
    fix a assume a: "a \<notin> ?A"
    then have "a \<noteq> p" "a \<noteq> wa" unfolding A by (auto simp: set_addrs_plug)
    then have "cells h2 a = cells h a" by (simp add: h2c)
    then show "cells h3 a = cells h a" using fr3 a by simp
  qed
  have nA: "nil \<notin> ?A" using n by simp
  have px3: "map_option parent (cells h3 x) = Some p"
  proof (cases t)
    case Leaf
    then have "x = nil" by (simp add: x_def)
    then show ?thesis using fr nA px by simp
  next
    case (Node l1 a1 k1 c1 s1 r1)
    then show ?thesis using t3 by (simp add: x_def)
  qed
  have g3: "get_parent h3 x = Some p" using px3 by (simp add: get_parent_def)
  have c3p: "cells h3 p = Some \<lparr>nsize = sp - stored_size wr - 1, left = x, right = root_ptr nil wl, parent = wa, key = kp, color = RED\<rparr>"
    using t3 by (simp add: x_def)
  have gr3: "get_right h3 p = Some (root_ptr nil wl)" using c3p by (simp add: get_right_def)
  have blk: "do {
       h \<leftarrow> set_color wa BLACK h;
       xp \<leftarrow> get_parent h x;
       h \<leftarrow> set_color xp RED h;
       xp \<leftarrow> get_parent h x;
       (T, h) \<leftarrow> rotate_left T h xp;
       xp \<leftarrow> get_parent h x;
       w \<leftarrow> get_right h xp;
       Some (T, h, w)
     } = Some (T3, h3, root_ptr nil wl)"
    using s1 g1 s2 g2 rl g3 gr3 by simp
  have nn3: "nil_node (cells h3) nil" using nn fr nA by (simp add: nil_node_def)
  have "xrep nil T3 h3 (InL (InL C wa wk BLACK (ws + stored_size t + 1) wr) p kp RED
        (sp - stored_size wr - 1) wl) t"
    unfolding xrep_def using c3 t3 T3 d n nn3 px3
    by (simp add: x_def distinct_plug set_addrs_plug)
  moreover have "next_free h3 = next_free h" using nf3 by (simp add: h2_def h1_def)
  ultimately show ?thesis using blk fr by blast
qed

lemma erase_case2_left:
  fixes t :: "'k tree" and nil :: ptr
  defines "x \<equiv> root_ptr nil t"
  assumes xr: "xrep nil T h (InL C p kp cp sp (Node wl wa wk wc ws wr)) t"
  shows "\<exists>h1.
     do {
       h \<leftarrow> set_color wa RED h;
       xp \<leftarrow> get_parent h x;
       Some (T, h, xp)
     } = Some (T, h1, p) \<and>
     xrep nil T h1 C (Node t p kp cp sp (Node wl wa wk RED ws wr)) \<and>
     next_free h1 = next_free h \<and>
     (\<forall>a. a \<notin> set (addrs (plug (InL C p kp cp sp (Node wl wa wk wc ws wr)) t)) \<longrightarrow>
          cells h1 a = cells h a)"
proof -
  let ?w = "Node wl wa wk wc ws wr"
  let ?t0 = "Node t p kp cp sp ?w"
  have rc: "rep_ctx (cells h) nil (InL C p kp cp sp ?w) x"
    and rt: "rep (cells h) nil p t"
    and T: "m_root T = ctx_root C p" "m_nil T = nil"
    and d: "distinct (addrs (plug C ?t0))" and n: "nil \<notin> set (addrs (plug C ?t0))"
    and nn: "nil_node (cells h) nil"
    and px: "map_option parent (cells h x) = Some p"
    using xr by (simp_all add: xrep_def x_def)
  have ne: "p \<noteq> wa" "wa \<noteq> p" "p \<noteq> nil" "wa \<noteq> nil" "nil \<noteq> p" "nil \<noteq> wa"
    using d n by (auto simp: distinct_plug set_addrs_plug)
  have xne: "x \<noteq> p" "x \<noteq> wa" "p \<noteq> x" "wa \<noteq> x"
    using d n root_notin[of p nil t] root_notin[of wa nil t] by (auto simp: distinct_plug set_addrs_plug x_def)
  let ?wn = "\<lparr>nsize = ws, left = root_ptr nil wl, right = root_ptr nil wr, parent = p, key = wk, color = wc\<rparr>"
  have cw: "cells h wa = Some ?wn" using rc by simp
  define h1 where "h1 = h\<lparr>cells := (cells h)(wa \<mapsto> ?wn\<lparr>color := RED\<rparr>)\<rparr>"
  have s1: "set_color wa RED h = Some h1" using cw by (simp add: heap_defs h1_def)
  have g1: "get_parent h1 x = Some p" using px xne by (simp add: get_parent_def h1_def)
  have dd: "wa \<notin> set (addrs t)" "wa \<notin> set (addrs wl)" "wa \<notin> set (addrs wr)" "wa \<notin> set (ctx_addrs C)"
    using d by (auto simp: distinct_plug)
  have "xrep nil T h1 C (Node t p kp cp sp (Node wl wa wk RED ws wr))"
    unfolding xrep_def using rc rt T d n nn dd ne xne
    by (simp add: h1_def x_def distinct_plug set_addrs_plug nil_node_def)
  moreover have "\<forall>a. a \<notin> set (addrs (plug (InL C p kp cp sp ?w) t)) \<longrightarrow> cells h1 a = cells h a"
    by (auto simp: h1_def set_addrs_plug)
  moreover have "next_free h1 = next_free h" by (simp add: h1_def)
  ultimately show ?thesis using s1 g1 by simp
qed

lemma erase_block3_left:
  fixes t :: "'k tree" and nil :: ptr
  defines "x \<equiv> root_ptr nil t"
  assumes xr: "xrep nil T h (InL C p kp cp sp (Node (Node wll wla wlk wlc wls wlr) wa wk wc ws wr)) t"
  shows "\<exists>T1 h1.
     do {
       wl \<leftarrow> get_left h wa;
       h \<leftarrow> set_color wl BLACK h;
       h \<leftarrow> set_color wa RED h;
       (T, h) \<leftarrow> rotate_right T h wa;
       xp \<leftarrow> get_parent h x;
       w \<leftarrow> get_right h xp;
       Some (T, h, w)
     } = Some (T1, h1, wla) \<and>
     xrep nil T1 h1 (InL C p kp cp sp
        (Node wll wla wlk BLACK (wls + stored_size wr + 1)
           (Node wlr wa wk RED (ws - stored_size wll - 1) wr))) t \<and>
     next_free h1 = next_free h \<and>
     (\<forall>a. a \<notin> set (addrs (plug (InL C p kp cp sp (Node (Node wll wla wlk wlc wls wlr) wa wk wc ws wr)) t)) \<longrightarrow>
          cells h1 a = cells h a)"
proof -
  let ?wl = "Node wll wla wlk wlc wls wlr"
  let ?w = "Node ?wl wa wk wc ws wr"
  let ?w2 = "Node (Node wll wla wlk BLACK wls wlr) wa wk RED ws wr"
  let ?A = "set (addrs (plug (InL C p kp cp sp ?w) t))"
  let ?Cw = "InR t p kp cp sp C"
  have rc: "rep_ctx (cells h) nil (InL C p kp cp sp ?w) x"
    and rt: "rep (cells h) nil p t"
    and T: "m_root T = ctx_root C p" "m_nil T = nil"
    and d: "distinct (addrs (plug ?Cw ?w))" and n: "nil \<notin> set (addrs (plug ?Cw ?w))"
    and nn: "nil_node (cells h) nil"
    and px: "map_option parent (cells h x) = Some p"
    using xr by (simp_all add: xrep_def x_def)
  have A: "?A = set (addrs (plug ?Cw ?w))" by simp
  have ne: "p \<noteq> wa" "wa \<noteq> p" "p \<noteq> nil" "wa \<noteq> nil" "nil \<noteq> p" "nil \<noteq> wa"
     "wla \<noteq> wa" "wa \<noteq> wla" "wla \<noteq> p" "p \<noteq> wla" "wla \<noteq> nil" "nil \<noteq> wla"
    using d n by (auto simp: distinct_plug set_addrs_plug)
  have xne: "x \<noteq> p" "x \<noteq> wa" "p \<noteq> x" "wa \<noteq> x" "x \<noteq> wla" "wla \<noteq> x"
    using d n root_notin[of p nil t] root_notin[of wa nil t] root_notin[of wla nil t]
    by (auto simp: distinct_plug set_addrs_plug x_def)
  let ?wn = "\<lparr>nsize = ws, left = wla, right = root_ptr nil wr, parent = p, key = wk, color = wc\<rparr>"
  let ?wln = "\<lparr>nsize = wls, left = root_ptr nil wll, right = root_ptr nil wlr, parent = wa, key = wlk, color = wlc\<rparr>"
  have cw: "cells h wa = Some ?wn" using rc by simp
  have cwl: "cells h wla = Some ?wln" using rc by simp
  define h1 where "h1 = h\<lparr>cells := (cells h)(wla \<mapsto> ?wln\<lparr>color := BLACK\<rparr>)\<rparr>"
  define h2 where "h2 = h1\<lparr>cells := (cells h1)(wa \<mapsto> ?wn\<lparr>color := RED\<rparr>)\<rparr>"
  have g0: "get_left h wa = Some wla" using cw by (simp add: get_left_def)
  have s1: "set_color wla BLACK h = Some h1" using cwl by (simp add: heap_defs h1_def)
  have c1: "cells h1 wa = Some ?wn" using cw ne by (simp add: h1_def)
  have s2: "set_color wa RED h1 = Some h2" using c1 by (simp add: heap_defs h2_def)
  have h2c: "cells h2 = (cells h)(wla \<mapsto> ?wln\<lparr>color := BLACK\<rparr>, wa \<mapsto> ?wn\<lparr>color := RED\<rparr>)"
    by (simp add: h2_def h1_def)
  have dd: "wa \<notin> set (addrs t)" "wa \<notin> set (addrs wll)" "wa \<notin> set (addrs wlr)" "wa \<notin> set (addrs wr)" "wa \<notin> set (ctx_addrs C)"
    "wla \<notin> set (addrs t)" "wla \<notin> set (addrs wll)" "wla \<notin> set (addrs wlr)" "wla \<notin> set (addrs wr)" "wla \<notin> set (ctx_addrs C)"
    using d by (auto simp: distinct_plug)
  have d2: "distinct (addrs (plug ?Cw ?w2))" and n2: "nil \<notin> set (addrs (plug ?Cw ?w2))"
    using d n by (auto simp: distinct_plug set_addrs_plug)
  have A2: "set (addrs (plug ?Cw ?w2)) = ?A" by (auto simp: set_addrs_plug)
  have r2c: "rep_ctx (cells h2) nil ?Cw wa" using rc rt dd ne by (simp add: h2c x_def)
  have r2t: "rep (cells h2) nil (ctx_ptr nil ?Cw) ?w2"
    using rc dd ne by (simp add: h2c)
  have T2: "m_root T = ctx_root ?Cw wa" using T by simp
  from rotate_right_rep[OF r2c r2t T2 T(2) d2 n2] obtain T3 h3 where
    rl: "rotate_right T h2 wa = Some (T3, h3)"
    and c3: "rep_ctx (cells h3) nil ?Cw wla"
    and t3: "rep (cells h3) nil (ctx_ptr nil ?Cw)
       (Node wll wla wlk BLACK (wls + stored_size wr + 1) (Node wlr wa wk RED (ws - stored_size wll - 1) wr))"
    and T3: "m_root T3 = ctx_root ?Cw wla" "m_nil T3 = nil"
    and nf3: "next_free h3 = next_free h2"
    and fr3: "\<forall>a. a \<notin> ?A \<longrightarrow> cells h3 a = cells h2 a"
    unfolding A2 by blast
  have fr: "\<forall>a. a \<notin> ?A \<longrightarrow> cells h3 a = cells h a"
  proof (intro allI impI)
    fix a assume a: "a \<notin> ?A"
    then have "a \<noteq> wla" "a \<noteq> wa" unfolding A by (auto simp: set_addrs_plug)
    then have "cells h2 a = cells h a" by (simp add: h2c)
    then show "cells h3 a = cells h a" using fr3 a by simp
  qed
  have nA: "nil \<notin> ?A" using n by simp
  have px3: "map_option parent (cells h3 x) = Some p"
  proof (cases t)
    case Leaf
    then have "x = nil" by (simp add: x_def)
    then show ?thesis using fr nA px by simp
  next
    case (Node l1 a1 k1 c1 s1 r1)
    then show ?thesis using c3 by (simp add: x_def)
  qed
  have g3: "get_parent h3 x = Some p" using px3 by (simp add: get_parent_def)
  have c3p: "cells h3 p = Some \<lparr>nsize = sp, left = x, right = wla, parent = ctx_ptr nil C, key = kp, color = cp\<rparr>"
    using c3 by (simp add: x_def)
  have gr3: "get_right h3 p = Some wla" using c3p by (simp add: get_right_def)
  have blk: "do {
       wl \<leftarrow> get_left h wa;
       h \<leftarrow> set_color wl BLACK h;
       h \<leftarrow> set_color wa RED h;
       (T, h) \<leftarrow> rotate_right T h wa;
       xp \<leftarrow> get_parent h x;
       w \<leftarrow> get_right h xp;
       Some (T, h, w)
     } = Some (T3, h3, wla)"
    using g0 s1 s2 rl g3 gr3 by simp
  have nn3: "nil_node (cells h3) nil" using nn fr nA by (simp add: nil_node_def)
  have "xrep nil T3 h3 (InL C p kp cp sp
        (Node wll wla wlk BLACK (wls + stored_size wr + 1)
           (Node wlr wa wk RED (ws - stored_size wll - 1) wr))) t"
    unfolding xrep_def using c3 t3 T3 d n nn3 px3
    by (simp add: x_def distinct_plug set_addrs_plug)
  moreover have "next_free h3 = next_free h" using nf3 by (simp add: h2_def h1_def)
  ultimately show ?thesis using blk fr by blast
qed

lemma plug_not_leaf: "t \<noteq> Leaf \<Longrightarrow> plug C t \<noteq> Leaf"
  by (induction C arbitrary: t) auto

lemma rep_root_parent:
  "rep m nil par t \<Longrightarrow> t \<noteq> Leaf \<Longrightarrow> map_option parent (m (root_ptr nil t)) = Some par"
  by (cases t) auto

lemma xrep_top:
  assumes "rep_ctx (cells h) nil C (root_ptr nil t)" "rep (cells h) nil (ctx_ptr nil C) t"
    "m_root T = ctx_root C (root_ptr nil t)" "m_nil T = nil" "t \<noteq> Leaf"
    "distinct (addrs (plug C t))" "nil \<notin> set (addrs (plug C t))" "nil_node (cells h) nil"
  shows "xrep nil T h Top (plug C t)"
proof -
  have r: "rep (cells h) nil nil (plug C t)" using assms(1,2) by (simp add: rep_plug)
  have "map_option parent (cells h (root_ptr nil (plug C t))) = Some nil"
    by (rule rep_root_parent[OF r plug_not_leaf[OF assms(5)]])
  then show ?thesis using r assms by (simp add: xrep_def root_ptr_plug)
qed

lemma erase_case4_left:
  fixes t :: "'k tree" and nil :: ptr
  defines "x \<equiv> root_ptr nil t"
  assumes xr: "xrep nil T h (InL C p kp cp sp (Node wl wa wk wc ws (Node wrl wra wrk wrc wrs wrr))) t"
  shows "\<exists>T1 h1.
     do {
       xp \<leftarrow> get_parent h x;
       xpc \<leftarrow> get_color h xp;
       h \<leftarrow> set_color wa xpc h;
       xp \<leftarrow> get_parent h x;
       h \<leftarrow> set_color xp BLACK h;
       wr \<leftarrow> get_right h wa;
       h \<leftarrow> set_color wr BLACK h;
       xp \<leftarrow> get_parent h x;
       (T, h) \<leftarrow> rotate_left T h xp;
       Some (T, h, m_root T)
     } = Some (T1, h1, m_root T1) \<and>
     xrep nil T1 h1 Top
        (plug C (Node (Node t p kp BLACK (sp - wrs - 1) wl) wa wk cp (ws + stored_size t + 1)
                   (Node wrl wra wrk BLACK wrs wrr))) \<and>
     next_free h1 = next_free h \<and>
     (\<forall>a. a \<notin> set (addrs (plug (InL C p kp cp sp (Node wl wa wk wc ws (Node wrl wra wrk wrc wrs wrr))) t)) \<longrightarrow>
          cells h1 a = cells h a)"
proof -
  let ?wr = "Node wrl wra wrk wrc wrs wrr"
  let ?w = "Node wl wa wk wc ws ?wr"
  let ?wr2 = "Node wrl wra wrk BLACK wrs wrr"
  let ?w2 = "Node wl wa wk cp ws ?wr2"
  let ?t2 = "Node t p kp BLACK sp ?w2"
  let ?A = "set (addrs (plug (InL C p kp cp sp ?w) t))"
  have rc: "rep_ctx (cells h) nil (InL C p kp cp sp ?w) x"
    and rt: "rep (cells h) nil p t"
    and T: "m_root T = ctx_root C p" "m_nil T = nil"
    and d: "distinct (addrs (plug (InL C p kp cp sp ?w) t))" and n: "nil \<notin> ?A"
    and nn: "nil_node (cells h) nil"
    and px: "map_option parent (cells h x) = Some p"
    using xr by (simp_all add: xrep_def x_def)
  have ne: "p \<noteq> wa" "wa \<noteq> p" "p \<noteq> nil" "wa \<noteq> nil" "nil \<noteq> p" "nil \<noteq> wa"
     "wra \<noteq> wa" "wa \<noteq> wra" "wra \<noteq> p" "p \<noteq> wra" "wra \<noteq> nil" "nil \<noteq> wra"
    using d n by (auto simp: distinct_plug set_addrs_plug)
  have xne: "x \<noteq> p" "x \<noteq> wa" "p \<noteq> x" "wa \<noteq> x" "x \<noteq> wra" "wra \<noteq> x"
    using d n root_notin[of p nil t] root_notin[of wa nil t] root_notin[of wra nil t]
    by (auto simp: distinct_plug set_addrs_plug x_def)
  let ?pn = "\<lparr>nsize = sp, left = x, right = wa, parent = ctx_ptr nil C, key = kp, color = cp\<rparr>"
  let ?wn = "\<lparr>nsize = ws, left = root_ptr nil wl, right = wra, parent = p, key = wk, color = wc\<rparr>"
  let ?wrn = "\<lparr>nsize = wrs, left = root_ptr nil wrl, right = root_ptr nil wrr, parent = wa, key = wrk, color = wrc\<rparr>"
  have cp0: "cells h p = Some ?pn" using rc by simp
  have cw: "cells h wa = Some ?wn" using rc by simp
  have cwr: "cells h wra = Some ?wrn" using rc by simp
  define h1 where "h1 = h\<lparr>cells := (cells h)(wa \<mapsto> ?wn\<lparr>color := cp\<rparr>)\<rparr>"
  define h2 where "h2 = h1\<lparr>cells := (cells h1)(p \<mapsto> ?pn\<lparr>color := BLACK\<rparr>)\<rparr>"
  define h3 where "h3 = h2\<lparr>cells := (cells h2)(wra \<mapsto> ?wrn\<lparr>color := BLACK\<rparr>)\<rparr>"
  have g0: "get_parent h x = Some p" using px by (simp add: get_parent_def)
  have gc0: "get_color h p = Some cp" using cp0 by (simp add: get_color_def)
  have s1: "set_color wa cp h = Some h1" using cw by (simp add: heap_defs h1_def)
  have g1: "get_parent h1 x = Some p" using px xne by (simp add: get_parent_def h1_def)
  have c1p: "cells h1 p = Some ?pn" using cp0 ne by (simp add: h1_def)
  have s2: "set_color p BLACK h1 = Some h2" using c1p by (simp add: heap_defs h2_def)
  have c2w: "cells h2 wa = Some (?wn\<lparr>color := cp\<rparr>)" using ne by (simp add: h2_def h1_def)
  have gr2: "get_right h2 wa = Some wra" using c2w by (simp add: get_right_def)
  have c2wr: "cells h2 wra = Some ?wrn" using cwr ne by (simp add: h2_def h1_def)
  have s3: "set_color wra BLACK h2 = Some h3" using c2wr by (simp add: heap_defs h3_def)
  have h3c: "cells h3 = (cells h)(wa \<mapsto> ?wn\<lparr>color := cp\<rparr>, p \<mapsto> ?pn\<lparr>color := BLACK\<rparr>,
       wra \<mapsto> ?wrn\<lparr>color := BLACK\<rparr>)"
    by (simp add: h3_def h2_def h1_def)
  have g3: "get_parent h3 x = Some p" using px xne by (simp add: get_parent_def h3c)
  have dd: "wa \<notin> set (addrs t)" "wa \<notin> set (addrs wl)" "wa \<notin> set (addrs wrl)" "wa \<notin> set (addrs wrr)" "wa \<notin> set (ctx_addrs C)"
    "wra \<notin> set (addrs t)" "wra \<notin> set (addrs wl)" "wra \<notin> set (addrs wrl)" "wra \<notin> set (addrs wrr)" "wra \<notin> set (ctx_addrs C)"
    "p \<notin> set (addrs t)" "p \<notin> set (addrs wl)" "p \<notin> set (addrs wrl)" "p \<notin> set (addrs wrr)" "p \<notin> set (ctx_addrs C)"
    using d by (auto simp: distinct_plug)
  have d2: "distinct (addrs (plug C ?t2))" and n2: "nil \<notin> set (addrs (plug C ?t2))"
    using d n by (auto simp: distinct_plug set_addrs_plug)
  have A2: "set (addrs (plug C ?t2)) = ?A" by (auto simp: set_addrs_plug)
  have r3c: "rep_ctx (cells h3) nil C p" using rc dd ne by (simp add: h3c)
  have r3t: "rep (cells h3) nil (ctx_ptr nil C) ?t2"
    using rc rt dd ne by (simp add: h3c x_def)
  from rotate_left_rep[OF r3c r3t T d2 n2] obtain T4 h4 where
    rl: "rotate_left T h3 p = Some (T4, h4)"
    and c4: "rep_ctx (cells h4) nil C wa"
    and t4: "rep (cells h4) nil (ctx_ptr nil C)
       (Node (Node t p kp BLACK (sp - stored_size ?wr2 - 1) wl) wa wk cp (ws + stored_size t + 1) ?wr2)"
    and T4: "m_root T4 = ctx_root C wa" "m_nil T4 = nil"
    and nf4: "next_free h4 = next_free h3"
    and fr4: "\<forall>a. a \<notin> ?A \<longrightarrow> cells h4 a = cells h3 a"
    unfolding A2 by blast
  have fr: "\<forall>a. a \<notin> ?A \<longrightarrow> cells h4 a = cells h a"
  proof (intro allI impI)
    fix a assume a: "a \<notin> ?A"
    then have "a \<noteq> wra" "a \<noteq> wa" "a \<noteq> p" by (auto simp: set_addrs_plug)
    then have "cells h3 a = cells h a" by (simp add: h3c)
    then show "cells h4 a = cells h a" using fr4 a by simp
  qed
  have blk: "do {
       xp \<leftarrow> get_parent h x;
       xpc \<leftarrow> get_color h xp;
       h \<leftarrow> set_color wa xpc h;
       xp \<leftarrow> get_parent h x;
       h \<leftarrow> set_color xp BLACK h;
       wr \<leftarrow> get_right h wa;
       h \<leftarrow> set_color wr BLACK h;
       xp \<leftarrow> get_parent h x;
       (T, h) \<leftarrow> rotate_left T h xp;
       Some (T, h, m_root T)
     } = Some (T4, h4, m_root T4)"
    using g0 gc0 s1 g1 s2 gr2 s3 g3 rl by simp
  have nn4: "nil_node (cells h4) nil" using nn fr n by (simp add: nil_node_def)
  let ?r = "Node (Node t p kp BLACK (sp - wrs - 1) wl) wa wk cp (ws + stored_size t + 1) ?wr2"
  have "xrep nil T4 h4 Top (plug C ?r)"
  proof (rule xrep_top)
    show "rep_ctx (cells h4) nil C (root_ptr nil ?r)" using c4 by simp
    show "rep (cells h4) nil (ctx_ptr nil C) ?r" using t4 by simp
    show "m_root T4 = ctx_root C (root_ptr nil ?r)" using T4 by simp
    show "m_nil T4 = nil" by fact
    show "?r \<noteq> Leaf" by simp
    show "distinct (addrs (plug C ?r))" using d by (auto simp: distinct_plug)
    show "nil \<notin> set (addrs (plug C ?r))" using n by (auto simp: set_addrs_plug)
    show "nil_node (cells h4) nil" by fact
  qed
  moreover have "next_free h4 = next_free h" using nf4 by (simp add: h3_def h2_def h1_def)
  ultimately show ?thesis using blk fr by blast
qed

lemma color_root_nn:
  "rep m nil par t \<Longrightarrow> nil_node m nil \<Longrightarrow> map_option color (m (root_ptr nil t)) = Some (color_of t)"
  by (cases t) (auto simp: nil_node_def)

lemma not_black_red: "c \<noteq> BLACK \<Longrightarrow> c = RED" "c \<noteq> RED \<Longrightarrow> c = BLACK"
  by (auto simp: RED_def BLACK_def)

lemma erase_tail_left:
  fixes t :: "'k tree" and nil :: ptr
  defines "x \<equiv> root_ptr nil t"
  assumes xr: "xrep nil T h (InL C p kp cp sp (Node wl wa wk wc ws wr)) t"
  shows "\<exists>T1 h1.
     do {
       wl \<leftarrow> get_left h wa;
       wlc \<leftarrow> get_color h wl;
       both \<leftarrow> (if wlc = BLACK then do {
                  wr \<leftarrow> get_right h wa;
                  wrc \<leftarrow> get_color h wr;
                  Some (wrc = BLACK)
                } else Some False);
       if both then do {
         h \<leftarrow> set_color wa RED h;
         xp \<leftarrow> get_parent h x;
         Some (T, h, xp)
       } else do {
         wr \<leftarrow> get_right h wa;
         wrc \<leftarrow> get_color h wr;
         (T, h, w) \<leftarrow> (if wrc = BLACK then do {
                         wl \<leftarrow> get_left h wa;
                         h \<leftarrow> set_color wl BLACK h;
                         h \<leftarrow> set_color wa RED h;
                         (T, h) \<leftarrow> rotate_right T h wa;
                         xp \<leftarrow> get_parent h x;
                         w \<leftarrow> get_right h xp;
                         Some (T, h, w)
                       } else Some (T, h, wa));
         xp \<leftarrow> get_parent h x;
         xpc \<leftarrow> get_color h xp;
         h \<leftarrow> set_color w xpc h;
         xp \<leftarrow> get_parent h x;
         h \<leftarrow> set_color xp BLACK h;
         wr \<leftarrow> get_right h w;
         h \<leftarrow> set_color wr BLACK h;
         xp \<leftarrow> get_parent h x;
         (T, h) \<leftarrow> rotate_left T h xp;
         Some (T, h, m_root T)
       }
     } = Some (T1, h1, root_ptr nil (snd (del_tail_left C p kp cp sp (Node wl wa wk wc ws wr) t))) \<and>
     xrep nil T1 h1 (fst (del_tail_left C p kp cp sp (Node wl wa wk wc ws wr) t))
        (snd (del_tail_left C p kp cp sp (Node wl wa wk wc ws wr) t)) \<and>
     next_free h1 = next_free h \<and>
     (\<forall>a. a \<notin> set (addrs (plug (InL C p kp cp sp (Node wl wa wk wc ws wr)) t)) \<longrightarrow>
          cells h1 a = cells h a)"
proof -
  let ?w = "Node wl wa wk wc ws wr"
  have rc: "rep_ctx (cells h) nil (InL C p kp cp sp ?w) x"
    and nn: "nil_node (cells h) nil"
    using xr by (simp_all add: xrep_def x_def)
  have cw: "cells h wa = Some \<lparr>nsize = ws, left = root_ptr nil wl, right = root_ptr nil wr, parent = p, key = wk, color = wc\<rparr>"
    and rl: "rep (cells h) nil wa wl" and rr: "rep (cells h) nil wa wr"
    using rc by simp_all
  have gl: "get_left h wa = Some (root_ptr nil wl)" and gr: "get_right h wa = Some (root_ptr nil wr)"
    using cw by (simp_all add: get_left_def get_right_def)
  have cl: "get_color h (root_ptr nil wl) = Some (color_of wl)"
    and cr: "get_color h (root_ptr nil wr) = Some (color_of wr)"
    using color_root_nn[OF rl nn] color_root_nn[OF rr nn] by (simp_all add: get_color_def)
  have nb: "RED \<noteq> BLACK" by (simp add: RED_def BLACK_def)
  consider (both) "color_of wl = BLACK" "color_of wr = BLACK"
    | (c3) "color_of wl = RED" "color_of wr = BLACK"
    | (c4) "color_of wr = RED"
    using not_black_red by blast
  then show ?thesis
  proof cases
    case both
    from erase_case2_left[OF xr] obtain h1 where
      e: "do { h \<leftarrow> set_color wa RED h; xp \<leftarrow> get_parent h x; Some (T, h, xp) } = Some (T, h1, p)"
      and x1: "xrep nil T h1 C (Node t p kp cp sp (Node wl wa wk RED ws wr))"
      and nf: "next_free h1 = next_free h"
      and fr: "\<forall>a. a \<notin> set (addrs (plug (InL C p kp cp sp ?w) t)) \<longrightarrow> cells h1 a = cells h a"
      unfolding x_def by blast
    have cl': "get_color h (root_ptr nil wl) = Some BLACK" using cl both by simp
    have cr': "get_color h (root_ptr nil wr) = Some BLACK" using cr both by simp
    show ?thesis
      apply (rule exI[of _ T], rule exI[of _ h1])
      using both x1 nf fr e gl gr cl' cr' by (simp add: RED_def BLACK_def)
  next
    case c3
    from red_node[OF c3(1)] obtain wll wla wlk wls wlr where wl: "wl = Node wll wla wlk RED wls wlr"
      by blast
    from erase_block3_left[OF xr[unfolded wl]] obtain T1 h1 where
      e1: "do {
       wl \<leftarrow> get_left h wa;
       h \<leftarrow> set_color wl BLACK h;
       h \<leftarrow> set_color wa RED h;
       (T, h) \<leftarrow> rotate_right T h wa;
       xp \<leftarrow> get_parent h x;
       w \<leftarrow> get_right h xp;
       Some (T, h, w)
     } = Some (T1, h1, wla)"
      and x1: "xrep nil T1 h1 (InL C p kp cp sp
        (Node wll wla wlk BLACK (wls + stored_size wr + 1)
           (Node wlr wa wk RED (ws - stored_size wll - 1) wr))) t"
      and nf1: "next_free h1 = next_free h"
      and fr1: "\<forall>a. a \<notin> set (addrs (plug (InL C p kp cp sp ?w) t)) \<longrightarrow> cells h1 a = cells h a"
      unfolding x_def wl by blast
    from erase_case4_left[OF x1] obtain T2 h2 where
      e2: "do {
       xp \<leftarrow> get_parent h1 x;
       xpc \<leftarrow> get_color h1 xp;
       h \<leftarrow> set_color wla xpc h1;
       xp \<leftarrow> get_parent h x;
       h \<leftarrow> set_color xp BLACK h;
       wr \<leftarrow> get_right h wla;
       h \<leftarrow> set_color wr BLACK h;
       xp \<leftarrow> get_parent h x;
       (T, h) \<leftarrow> rotate_left T1 h xp;
       Some (T, h, m_root T)
     } = Some (T2, h2, m_root T2)"
      and x2: "xrep nil T2 h2 Top
        (plug C (Node (Node t p kp BLACK (sp - (ws - stored_size wll - 1) - 1) wll) wla wlk cp
                   (wls + stored_size wr + 1 + stored_size t + 1)
                   (Node wlr wa wk BLACK (ws - stored_size wll - 1) wr)))"
      and nf2: "next_free h2 = next_free h1"
      and fr2: "\<forall>a. a \<notin> set (addrs (plug (InL C p kp cp sp (Node wll wla wlk BLACK (wls + stored_size wr + 1)
           (Node wlr wa wk RED (ws - stored_size wll - 1) wr))) t)) \<longrightarrow> cells h2 a = cells h1 a"
      unfolding x_def by blast
    have mr: "m_root T2 = ctx_root C wla" using x2 by (simp add: xrep_def root_ptr_plug)
    have fr: "\<forall>a. a \<notin> set (addrs (plug (InL C p kp cp sp ?w) t)) \<longrightarrow> cells h2 a = cells h a"
      using fr1 fr2 unfolding wl by (auto simp: set_addrs_plug)
    have gl': "get_left h wa = Some wla" using gl by (simp add: wl)
    have cl': "get_color h wla = Some RED" using cl by (simp add: wl)
    have cr': "get_color h (root_ptr nil wr) = Some BLACK" using cr c3 by simp
    show ?thesis
      unfolding wl
      apply (rule exI[of _ T2], rule exI[of _ h2])
      using c3(2) x2 nf1 nf2 fr[unfolded wl] e1 e2 mr gl' gr cl' cr'
      by (simp add: root_ptr_plug RED_def BLACK_def)
  next
    case c4
    from red_node[OF c4] obtain wrl wra wrk wrs wrr where wr: "wr = Node wrl wra wrk RED wrs wrr"
      by blast
    from erase_case4_left[OF xr[unfolded wr]] obtain T2 h2 where
      e2: "do {
       xp \<leftarrow> get_parent h x;
       xpc \<leftarrow> get_color h xp;
       h \<leftarrow> set_color wa xpc h;
       xp \<leftarrow> get_parent h x;
       h \<leftarrow> set_color xp BLACK h;
       wr \<leftarrow> get_right h wa;
       h \<leftarrow> set_color wr BLACK h;
       xp \<leftarrow> get_parent h x;
       (T, h) \<leftarrow> rotate_left T h xp;
       Some (T, h, m_root T)
     } = Some (T2, h2, m_root T2)"
      and x2: "xrep nil T2 h2 Top
        (plug C (Node (Node t p kp BLACK (sp - wrs - 1) wl) wa wk cp (ws + stored_size t + 1)
                   (Node wrl wra wrk BLACK wrs wrr)))"
      and nf2: "next_free h2 = next_free h"
      and fr: "\<forall>a. a \<notin> set (addrs (plug (InL C p kp cp sp (Node wl wa wk wc ws (Node wrl wra wrk RED wrs wrr))) t)) \<longrightarrow> cells h2 a = cells h a"
      unfolding x_def by blast
    have mr: "m_root T2 = ctx_root C wa" using x2 by (simp add: xrep_def root_ptr_plug)
    have gr': "get_right h wa = Some wra" using gr by (simp add: wr)
    have cr': "get_color h wra = Some RED" using cr by (simp add: wr)
    show ?thesis
      unfolding wr
      apply (rule exI[of _ T2], rule exI[of _ h2])
      using x2 nf2 fr e2 mr gl gr' cl cr'
      by (simp add: root_ptr_plug RED_def BLACK_def)
  qed
qed

lemma fixup_erase_body_left:
  fixes t :: "'k tree" and nil :: ptr
  defines "x \<equiv> root_ptr nil t"
  assumes xr: "xrep nil T h (InL C p kp cp sp (Node wl wa wk wc ws wr)) t"
    and pre: "wc = RED \<longrightarrow> wl \<noteq> Leaf"
  shows "\<exists>T1 h1.
     fixup_erase_body T h x =
       Some (T1, h1, root_ptr nil (snd (del_step (InL C p kp cp sp (Node wl wa wk wc ws wr)) t))) \<and>
     xrep nil T1 h1 (fst (del_step (InL C p kp cp sp (Node wl wa wk wc ws wr)) t))
        (snd (del_step (InL C p kp cp sp (Node wl wa wk wc ws wr)) t)) \<and>
     next_free h1 = next_free h \<and>
     (\<forall>a. a \<notin> set (addrs (plug (InL C p kp cp sp (Node wl wa wk wc ws wr)) t)) \<longrightarrow>
          cells h1 a = cells h a)"
proof -
  let ?w = "Node wl wa wk wc ws wr"
  have rc: "rep_ctx (cells h) nil (InL C p kp cp sp ?w) x"
    using xr by (simp_all add: xrep_def x_def)
  have gp: "get_parent h x = Some p" using xrep_parent[OF xr] by (simp add: x_def)
  have cpp: "cells h p = Some \<lparr>nsize = sp, left = x, right = wa, parent = ctx_ptr nil C, key = kp, color = cp\<rparr>"
    and cw: "cells h wa = Some \<lparr>nsize = ws, left = root_ptr nil wl, right = root_ptr nil wr, parent = p, key = wk, color = wc\<rparr>"
    using rc by simp_all
  have glp: "get_left h p = Some x" and grp: "get_right h p = Some wa"
    using cpp by (simp_all add: get_left_def get_right_def)
  have gcw: "get_color h wa = Some wc" using cw by (simp add: get_color_def)
  show ?thesis
  proof (cases "wc = RED")
    case True
    with pre obtain wll wla wlk wlc wls wlr where wl: "wl = Node wll wla wlk wlc wls wlr"
      by (cases wl) auto
    from erase_block1_left[OF xr[unfolded True]] obtain T1 h1 where
      e1: "do {
         h \<leftarrow> set_color wa BLACK h;
         xp \<leftarrow> get_parent h x;
         h \<leftarrow> set_color xp RED h;
         xp \<leftarrow> get_parent h x;
         (T, h) \<leftarrow> rotate_left T h xp;
         xp \<leftarrow> get_parent h x;
         w \<leftarrow> get_right h xp;
         Some (T, h, w)
       } = Some (T1, h1, root_ptr nil wl)"
      and x1: "xrep nil T1 h1 (InL (InL C wa wk BLACK (ws + stored_size t + 1) wr) p kp RED
                  (sp - stored_size wr - 1) wl) t"
      and nf1: "next_free h1 = next_free h"
      and fr1: "\<forall>a. a \<notin> set (addrs (plug (InL C p kp cp sp (Node wl wa wk RED ws wr)) t)) \<longrightarrow>
          cells h1 a = cells h a"
      unfolding x_def by blast
    from erase_tail_left[OF x1[unfolded wl]] obtain T2 h2 where
      e2: "do {
       wl \<leftarrow> get_left h1 wla;
       wlc \<leftarrow> get_color h1 wl;
       both \<leftarrow> (if wlc = BLACK then do {
                  wr \<leftarrow> get_right h1 wla;
                  wrc \<leftarrow> get_color h1 wr;
                  Some (wrc = BLACK)
                } else Some False);
       if both then do {
         h \<leftarrow> set_color wla RED h1;
         xp \<leftarrow> get_parent h x;
         Some (T1, h, xp)
       } else do {
         wr \<leftarrow> get_right h1 wla;
         wrc \<leftarrow> get_color h1 wr;
         (T, h, w) \<leftarrow> (if wrc = BLACK then do {
                         wl \<leftarrow> get_left h1 wla;
                         h \<leftarrow> set_color wl BLACK h1;
                         h \<leftarrow> set_color wla RED h;
                         (T, h) \<leftarrow> rotate_right T1 h wla;
                         xp \<leftarrow> get_parent h x;
                         w \<leftarrow> get_right h xp;
                         Some (T, h, w)
                       } else Some (T1, h1, wla));
         xp \<leftarrow> get_parent h x;
         xpc \<leftarrow> get_color h xp;
         h \<leftarrow> set_color w xpc h;
         xp \<leftarrow> get_parent h x;
         h \<leftarrow> set_color xp BLACK h;
         wr \<leftarrow> get_right h w;
         h \<leftarrow> set_color wr BLACK h;
         xp \<leftarrow> get_parent h x;
         (T, h) \<leftarrow> rotate_left T h xp;
         Some (T, h, m_root T)
       }
     } = Some (T2, h2, root_ptr nil (snd (del_tail_left (InL C wa wk BLACK (ws + stored_size t + 1) wr) p kp RED
                  (sp - stored_size wr - 1) (Node wll wla wlk wlc wls wlr) t)))"
      and x2: "xrep nil T2 h2
          (fst (del_tail_left (InL C wa wk BLACK (ws + stored_size t + 1) wr) p kp RED
                  (sp - stored_size wr - 1) (Node wll wla wlk wlc wls wlr) t))
          (snd (del_tail_left (InL C wa wk BLACK (ws + stored_size t + 1) wr) p kp RED
                  (sp - stored_size wr - 1) (Node wll wla wlk wlc wls wlr) t))"
      and nf2: "next_free h2 = next_free h1"
      and fr2: "\<forall>a. a \<notin> set (addrs (plug (InL (InL C wa wk BLACK (ws + stored_size t + 1) wr) p kp RED
                  (sp - stored_size wr - 1) (Node wll wla wlk wlc wls wlr)) t)) \<longrightarrow>
          cells h2 a = cells h1 a"
      unfolding x_def by blast
    have fr: "\<forall>a. a \<notin> set (addrs (plug (InL C p kp cp sp ?w) t)) \<longrightarrow> cells h2 a = cells h a"
      using fr1 fr2 unfolding wl True by (auto simp: set_addrs_plug)
    have ds: "del_step (InL C p kp cp sp ?w) t =
       del_tail_left (InL C wa wk BLACK (ws + stored_size t + 1) wr) p kp RED
                  (sp - stored_size wr - 1) (Node wll wla wlk wlc wls wlr) t"
      using True by (simp add: wl)
    have e1': "do {
         h \<leftarrow> set_color wa BLACK h;
         xp \<leftarrow> get_parent h x;
         h \<leftarrow> set_color xp RED h;
         xp \<leftarrow> get_parent h x;
         (T, h) \<leftarrow> rotate_left T h xp;
         xp \<leftarrow> get_parent h x;
         w \<leftarrow> get_right h xp;
         Some (T, h, w)
       } = Some (T1, h1, wla)" using e1 by (simp add: wl)
    have "fixup_erase_body T h x = Some (T2, h2, root_ptr nil (snd (del_step (InL C p kp cp sp ?w) t)))"
      unfolding ds using e1' e2 gp glp grp gcw True
      by (simp add: fixup_erase_body_def)
    then show ?thesis using x2 nf1 nf2 fr unfolding ds by auto
  next
    case False
    from erase_tail_left[OF xr] obtain T2 h2 where
      e2: "do {
       wl \<leftarrow> get_left h wa;
       wlc \<leftarrow> get_color h wl;
       both \<leftarrow> (if wlc = BLACK then do {
                  wr \<leftarrow> get_right h wa;
                  wrc \<leftarrow> get_color h wr;
                  Some (wrc = BLACK)
                } else Some False);
       if both then do {
         h \<leftarrow> set_color wa RED h;
         xp \<leftarrow> get_parent h x;
         Some (T, h, xp)
       } else do {
         wr \<leftarrow> get_right h wa;
         wrc \<leftarrow> get_color h wr;
         (T, h, w) \<leftarrow> (if wrc = BLACK then do {
                         wl \<leftarrow> get_left h wa;
                         h \<leftarrow> set_color wl BLACK h;
                         h \<leftarrow> set_color wa RED h;
                         (T, h) \<leftarrow> rotate_right T h wa;
                         xp \<leftarrow> get_parent h x;
                         w \<leftarrow> get_right h xp;
                         Some (T, h, w)
                       } else Some (T, h, wa));
         xp \<leftarrow> get_parent h x;
         xpc \<leftarrow> get_color h xp;
         h \<leftarrow> set_color w xpc h;
         xp \<leftarrow> get_parent h x;
         h \<leftarrow> set_color xp BLACK h;
         wr \<leftarrow> get_right h w;
         h \<leftarrow> set_color wr BLACK h;
         xp \<leftarrow> get_parent h x;
         (T, h) \<leftarrow> rotate_left T h xp;
         Some (T, h, m_root T)
       }
     } = Some (T2, h2, root_ptr nil (snd (del_tail_left C p kp cp sp ?w t)))"
      and x2: "xrep nil T2 h2 (fst (del_tail_left C p kp cp sp ?w t)) (snd (del_tail_left C p kp cp sp ?w t))"
      and nf2: "next_free h2 = next_free h"
      and fr: "\<forall>a. a \<notin> set (addrs (plug (InL C p kp cp sp ?w) t)) \<longrightarrow> cells h2 a = cells h a"
      unfolding x_def by blast
    have ds: "del_step (InL C p kp cp sp ?w) t = del_tail_left C p kp cp sp ?w t"
      using False by simp
    have "fixup_erase_body T h x = Some (T2, h2, root_ptr nil (snd (del_step (InL C p kp cp sp ?w) t)))"
      unfolding ds using e2 gp glp grp gcw False
      by (simp add: fixup_erase_body_def)
    then show ?thesis using x2 nf2 fr unfolding ds by auto
  qed
qed

lemma erase_block1_right:
  fixes t :: "'k tree" and nil :: ptr
  defines "x \<equiv> root_ptr nil t"
  assumes xr: "xrep nil T h (InR (Node wl wa wk RED ws wr) p kp cp sp C) t"
  shows "\<exists>T1 h1.
     do {
       h \<leftarrow> set_color wa BLACK h;
       xp \<leftarrow> get_parent h x;
       h \<leftarrow> set_color xp RED h;
       xp \<leftarrow> get_parent h x;
       (T, h) \<leftarrow> rotate_right T h xp;
       xp \<leftarrow> get_parent h x;
       w \<leftarrow> get_left h xp;
       Some (T, h, w)
     } = Some (T1, h1, root_ptr nil wr) \<and>
     xrep nil T1 h1 (InR wr p kp RED
        (sp - stored_size wl - 1) (InR wl wa wk BLACK (ws + stored_size t + 1) C)) t \<and>
     next_free h1 = next_free h \<and>
     (\<forall>a. a \<notin> set (addrs (plug (InR (Node wl wa wk RED ws wr) p kp cp sp C) t)) \<longrightarrow>
          cells h1 a = cells h a)"
proof -
  let ?w = "Node wl wa wk RED ws wr"
  let ?A = "set (addrs (plug (InR ?w p kp cp sp C) t))"
  let ?t0 = "Node ?w p kp cp sp t"
  let ?t2 = "Node (Node wl wa wk BLACK ws wr) p kp RED sp t"
  have rc: "rep_ctx (cells h) nil (InR ?w p kp cp sp C) x"
    and rt: "rep (cells h) nil p t"
    and T: "m_root T = ctx_root C p" "m_nil T = nil"
    and d: "distinct (addrs (plug C ?t0))" and n: "nil \<notin> set (addrs (plug C ?t0))"
    and nn: "nil_node (cells h) nil"
    and px: "map_option parent (cells h x) = Some p"
    using xr by (simp_all add: xrep_def x_def)
  have A: "?A = set (addrs (plug C ?t0))" by simp
  have ne: "p \<noteq> wa" "wa \<noteq> p" "p \<noteq> nil" "wa \<noteq> nil" "nil \<noteq> p" "nil \<noteq> wa"
    using d n by (auto simp: distinct_plug set_addrs_plug)
  have xne: "x \<noteq> p" "x \<noteq> wa" "p \<noteq> x" "wa \<noteq> x"
    using d n root_notin[of p nil t] root_notin[of wa nil t] by (auto simp: distinct_plug set_addrs_plug x_def)
  let ?pn = "\<lparr>nsize = sp, left = wa, right = x, parent = ctx_ptr nil C, key = kp, color = cp\<rparr>"
  let ?wn = "\<lparr>nsize = ws, left = root_ptr nil wl, right = root_ptr nil wr, parent = p, key = wk, color = RED\<rparr>"
  have cp: "cells h p = Some ?pn" using rc by simp
  have cw: "cells h wa = Some ?wn" using rc by simp
  define h1 where "h1 = h\<lparr>cells := (cells h)(wa \<mapsto> ?wn\<lparr>color := BLACK\<rparr>)\<rparr>"
  define h2 where "h2 = h1\<lparr>cells := (cells h1)(p \<mapsto> ?pn\<lparr>color := RED\<rparr>)\<rparr>"
  have s1: "set_color wa BLACK h = Some h1" using cw by (simp add: heap_defs h1_def)
  have g1: "get_parent h1 x = Some p" using px xne by (simp add: get_parent_def h1_def)
  have c1: "cells h1 p = Some ?pn" using cp ne by (simp add: h1_def)
  have s2: "set_color p RED h1 = Some h2" using c1 by (simp add: heap_defs h2_def)
  have g2: "get_parent h2 x = Some p" using px xne by (simp add: get_parent_def h2_def h1_def)
  have h2c: "cells h2 = (cells h)(wa \<mapsto> ?wn\<lparr>color := BLACK\<rparr>, p \<mapsto> ?pn\<lparr>color := RED\<rparr>)"
    by (simp add: h2_def h1_def)
  have dd: "p \<notin> set (addrs t)" "p \<notin> set (addrs wr)" "p \<notin> set (addrs wl)" "p \<notin> set (ctx_addrs C)"
    "wa \<notin> set (addrs t)" "wa \<notin> set (addrs wr)" "wa \<notin> set (addrs wl)" "wa \<notin> set (ctx_addrs C)"
    using d by (auto simp: distinct_plug)
  have d2: "distinct (addrs (plug C ?t2))" and n2: "nil \<notin> set (addrs (plug C ?t2))"
    using d n by (auto simp: distinct_plug set_addrs_plug)
  have A2: "set (addrs (plug C ?t2)) = ?A" by (auto simp: set_addrs_plug)
  have r2c: "rep_ctx (cells h2) nil C p" using rc dd by (simp add: h2c)
  have r2t: "rep (cells h2) nil (ctx_ptr nil C) ?t2"
    using rc rt dd ne by (simp add: h2c x_def)
  from rotate_right_rep[OF r2c r2t T(1) T(2) d2 n2] obtain T3 h3 where
    rl: "rotate_right T h2 p = Some (T3, h3)"
    and c3: "rep_ctx (cells h3) nil C wa"
    and t3: "rep (cells h3) nil (ctx_ptr nil C)
       (Node wl wa wk BLACK (ws + stored_size t + 1) (Node wr p kp RED (sp - stored_size wl - 1) t))"
    and T3: "m_root T3 = ctx_root C wa" "m_nil T3 = nil"
    and nf3: "next_free h3 = next_free h2"
    and fr3: "\<forall>a. a \<notin> ?A \<longrightarrow> cells h3 a = cells h2 a"
    unfolding A2 by blast
  have fr: "\<forall>a. a \<notin> ?A \<longrightarrow> cells h3 a = cells h a"
  proof (intro allI impI)
    fix a assume a: "a \<notin> ?A"
    then have "a \<noteq> p" "a \<noteq> wa" unfolding A by (auto simp: set_addrs_plug)
    then have "cells h2 a = cells h a" by (simp add: h2c)
    then show "cells h3 a = cells h a" using fr3 a by simp
  qed
  have nA: "nil \<notin> ?A" using n by simp
  have px3: "map_option parent (cells h3 x) = Some p"
  proof (cases t)
    case Leaf
    then have "x = nil" by (simp add: x_def)
    then show ?thesis using fr nA px by simp
  next
    case (Node r1 a1 k1 c1 s1 l1)
    then show ?thesis using t3 by (simp add: x_def)
  qed
  have g3: "get_parent h3 x = Some p" using px3 by (simp add: get_parent_def)
  have c3p: "cells h3 p = Some \<lparr>nsize = sp - stored_size wl - 1, left = root_ptr nil wr, right = x, parent = wa, key = kp, color = RED\<rparr>"
    using t3 by (simp add: x_def)
  have gr3: "get_left h3 p = Some (root_ptr nil wr)" using c3p by (simp add: get_left_def)
  have blk: "do {
       h \<leftarrow> set_color wa BLACK h;
       xp \<leftarrow> get_parent h x;
       h \<leftarrow> set_color xp RED h;
       xp \<leftarrow> get_parent h x;
       (T, h) \<leftarrow> rotate_right T h xp;
       xp \<leftarrow> get_parent h x;
       w \<leftarrow> get_left h xp;
       Some (T, h, w)
     } = Some (T3, h3, root_ptr nil wr)"
    using s1 g1 s2 g2 rl g3 gr3 by simp
  have nn3: "nil_node (cells h3) nil" using nn fr nA by (simp add: nil_node_def)
  have "xrep nil T3 h3 (InR wr p kp RED
        (sp - stored_size wl - 1) (InR wl wa wk BLACK (ws + stored_size t + 1) C)) t"
    unfolding xrep_def using c3 t3 T3 d n nn3 px3
    by (simp add: x_def distinct_plug set_addrs_plug)
  moreover have "next_free h3 = next_free h" using nf3 by (simp add: h2_def h1_def)
  ultimately show ?thesis using blk fr by blast
qed

lemma erase_case2_right:
  fixes t :: "'k tree" and nil :: ptr
  defines "x \<equiv> root_ptr nil t"
  assumes xr: "xrep nil T h (InR (Node wl wa wk wc ws wr) p kp cp sp C) t"
  shows "\<exists>h1.
     do {
       h \<leftarrow> set_color wa RED h;
       xp \<leftarrow> get_parent h x;
       Some (T, h, xp)
     } = Some (T, h1, p) \<and>
     xrep nil T h1 C (Node (Node wl wa wk RED ws wr) p kp cp sp t) \<and>
     next_free h1 = next_free h \<and>
     (\<forall>a. a \<notin> set (addrs (plug (InR (Node wl wa wk wc ws wr) p kp cp sp C) t)) \<longrightarrow>
          cells h1 a = cells h a)"
proof -
  let ?w = "Node wl wa wk wc ws wr"
  let ?t0 = "Node ?w p kp cp sp t"
  have rc: "rep_ctx (cells h) nil (InR ?w p kp cp sp C) x"
    and rt: "rep (cells h) nil p t"
    and T: "m_root T = ctx_root C p" "m_nil T = nil"
    and d: "distinct (addrs (plug C ?t0))" and n: "nil \<notin> set (addrs (plug C ?t0))"
    and nn: "nil_node (cells h) nil"
    and px: "map_option parent (cells h x) = Some p"
    using xr by (simp_all add: xrep_def x_def)
  have ne: "p \<noteq> wa" "wa \<noteq> p" "p \<noteq> nil" "wa \<noteq> nil" "nil \<noteq> p" "nil \<noteq> wa"
    using d n by (auto simp: distinct_plug set_addrs_plug)
  have xne: "x \<noteq> p" "x \<noteq> wa" "p \<noteq> x" "wa \<noteq> x"
    using d n root_notin[of p nil t] root_notin[of wa nil t] by (auto simp: distinct_plug set_addrs_plug x_def)
  let ?wn = "\<lparr>nsize = ws, left = root_ptr nil wl, right = root_ptr nil wr, parent = p, key = wk, color = wc\<rparr>"
  have cw: "cells h wa = Some ?wn" using rc by simp
  define h1 where "h1 = h\<lparr>cells := (cells h)(wa \<mapsto> ?wn\<lparr>color := RED\<rparr>)\<rparr>"
  have s1: "set_color wa RED h = Some h1" using cw by (simp add: heap_defs h1_def)
  have g1: "get_parent h1 x = Some p" using px xne by (simp add: get_parent_def h1_def)
  have dd: "wa \<notin> set (addrs t)" "wa \<notin> set (addrs wr)" "wa \<notin> set (addrs wl)" "wa \<notin> set (ctx_addrs C)"
    using d by (auto simp: distinct_plug)
  have "xrep nil T h1 C (Node (Node wl wa wk RED ws wr) p kp cp sp t)"
    unfolding xrep_def using rc rt T d n nn dd ne xne
    by (simp add: h1_def x_def distinct_plug set_addrs_plug nil_node_def)
  moreover have "\<forall>a. a \<notin> set (addrs (plug (InR ?w p kp cp sp C) t)) \<longrightarrow> cells h1 a = cells h a"
    by (auto simp: h1_def set_addrs_plug)
  moreover have "next_free h1 = next_free h" by (simp add: h1_def)
  ultimately show ?thesis using s1 g1 by simp
qed

lemma erase_block3_right:
  fixes t :: "'k tree" and nil :: ptr
  defines "x \<equiv> root_ptr nil t"
  assumes xr: "xrep nil T h (InR (Node wl wa wk wc ws (Node wrl wra wrk wrc wrs wrr)) p kp cp sp C) t"
  shows "\<exists>T1 h1.
     do {
       wr \<leftarrow> get_right h wa;
       h \<leftarrow> set_color wr BLACK h;
       h \<leftarrow> set_color wa RED h;
       (T, h) \<leftarrow> rotate_left T h wa;
       xp \<leftarrow> get_parent h x;
       w \<leftarrow> get_left h xp;
       Some (T, h, w)
     } = Some (T1, h1, wra) \<and>
     xrep nil T1 h1 (InR (Node (Node wl wa wk RED (ws - stored_size wrr - 1) wrl) wra wrk BLACK (wrs + stored_size wl + 1)
           wrr) p kp cp sp
        C) t \<and>
     next_free h1 = next_free h \<and>
     (\<forall>a. a \<notin> set (addrs (plug (InR (Node wl wa wk wc ws (Node wrl wra wrk wrc wrs wrr)) p kp cp sp C) t)) \<longrightarrow>
          cells h1 a = cells h a)"
proof -
  let ?wr = "Node wrl wra wrk wrc wrs wrr"
  let ?w = "Node wl wa wk wc ws ?wr"
  let ?w2 = "Node wl wa wk RED ws (Node wrl wra wrk BLACK wrs wrr)"
  let ?A = "set (addrs (plug (InR ?w p kp cp sp C) t))"
  let ?Cw = "InL C p kp cp sp t"
  have rc: "rep_ctx (cells h) nil (InR ?w p kp cp sp C) x"
    and rt: "rep (cells h) nil p t"
    and T: "m_root T = ctx_root C p" "m_nil T = nil"
    and d: "distinct (addrs (plug ?Cw ?w))" and n: "nil \<notin> set (addrs (plug ?Cw ?w))"
    and nn: "nil_node (cells h) nil"
    and px: "map_option parent (cells h x) = Some p"
    using xr by (simp_all add: xrep_def x_def)
  have A: "?A = set (addrs (plug ?Cw ?w))" by simp
  have ne: "p \<noteq> wa" "wa \<noteq> p" "p \<noteq> nil" "wa \<noteq> nil" "nil \<noteq> p" "nil \<noteq> wa"
     "wra \<noteq> wa" "wa \<noteq> wra" "wra \<noteq> p" "p \<noteq> wra" "wra \<noteq> nil" "nil \<noteq> wra"
    using d n by (auto simp: distinct_plug set_addrs_plug)
  have xne: "x \<noteq> p" "x \<noteq> wa" "p \<noteq> x" "wa \<noteq> x" "x \<noteq> wra" "wra \<noteq> x"
    using d n root_notin[of p nil t] root_notin[of wa nil t] root_notin[of wra nil t]
    by (auto simp: distinct_plug set_addrs_plug x_def)
  let ?wn = "\<lparr>nsize = ws, left = root_ptr nil wl, right = wra, parent = p, key = wk, color = wc\<rparr>"
  let ?wrn = "\<lparr>nsize = wrs, left = root_ptr nil wrl, right = root_ptr nil wrr, parent = wa, key = wrk, color = wrc\<rparr>"
  have cw: "cells h wa = Some ?wn" using rc by simp
  have cwl: "cells h wra = Some ?wrn" using rc by simp
  define h1 where "h1 = h\<lparr>cells := (cells h)(wra \<mapsto> ?wrn\<lparr>color := BLACK\<rparr>)\<rparr>"
  define h2 where "h2 = h1\<lparr>cells := (cells h1)(wa \<mapsto> ?wn\<lparr>color := RED\<rparr>)\<rparr>"
  have g0: "get_right h wa = Some wra" using cw by (simp add: get_right_def)
  have s1: "set_color wra BLACK h = Some h1" using cwl by (simp add: heap_defs h1_def)
  have c1: "cells h1 wa = Some ?wn" using cw ne by (simp add: h1_def)
  have s2: "set_color wa RED h1 = Some h2" using c1 by (simp add: heap_defs h2_def)
  have h2c: "cells h2 = (cells h)(wra \<mapsto> ?wrn\<lparr>color := BLACK\<rparr>, wa \<mapsto> ?wn\<lparr>color := RED\<rparr>)"
    by (simp add: h2_def h1_def)
  have dd: "wa \<notin> set (addrs t)" "wa \<notin> set (addrs wrr)" "wa \<notin> set (addrs wrl)" "wa \<notin> set (addrs wl)" "wa \<notin> set (ctx_addrs C)"
    "wra \<notin> set (addrs t)" "wra \<notin> set (addrs wrr)" "wra \<notin> set (addrs wrl)" "wra \<notin> set (addrs wl)" "wra \<notin> set (ctx_addrs C)"
    using d by (auto simp: distinct_plug)
  have d2: "distinct (addrs (plug ?Cw ?w2))" and n2: "nil \<notin> set (addrs (plug ?Cw ?w2))"
    using d n by (auto simp: distinct_plug set_addrs_plug)
  have A2: "set (addrs (plug ?Cw ?w2)) = ?A" by (auto simp: set_addrs_plug)
  have r2c: "rep_ctx (cells h2) nil ?Cw wa" using rc rt dd ne by (simp add: h2c x_def)
  have r2t: "rep (cells h2) nil (ctx_ptr nil ?Cw) ?w2"
    using rc dd ne by (simp add: h2c)
  have T2: "m_root T = ctx_root ?Cw wa" using T by simp
  from rotate_left_rep[OF r2c r2t T2 T(2) d2 n2] obtain T3 h3 where
    rl: "rotate_left T h2 wa = Some (T3, h3)"
    and c3: "rep_ctx (cells h3) nil ?Cw wra"
    and t3: "rep (cells h3) nil (ctx_ptr nil ?Cw)
       (Node (Node wl wa wk RED (ws - stored_size wrr - 1) wrl) wra wrk BLACK (wrs + stored_size wl + 1) wrr)"
    and T3: "m_root T3 = ctx_root ?Cw wra" "m_nil T3 = nil"
    and nf3: "next_free h3 = next_free h2"
    and fr3: "\<forall>a. a \<notin> ?A \<longrightarrow> cells h3 a = cells h2 a"
    unfolding A2 by blast
  have fr: "\<forall>a. a \<notin> ?A \<longrightarrow> cells h3 a = cells h a"
  proof (intro allI impI)
    fix a assume a: "a \<notin> ?A"
    then have "a \<noteq> wra" "a \<noteq> wa" unfolding A by (auto simp: set_addrs_plug)
    then have "cells h2 a = cells h a" by (simp add: h2c)
    then show "cells h3 a = cells h a" using fr3 a by simp
  qed
  have nA: "nil \<notin> ?A" using n by simp
  have px3: "map_option parent (cells h3 x) = Some p"
  proof (cases t)
    case Leaf
    then have "x = nil" by (simp add: x_def)
    then show ?thesis using fr nA px by simp
  next
    case (Node r1 a1 k1 c1 s1 l1)
    then show ?thesis using c3 by (simp add: x_def)
  qed
  have g3: "get_parent h3 x = Some p" using px3 by (simp add: get_parent_def)
  have c3p: "cells h3 p = Some \<lparr>nsize = sp, left = wra, right = x, parent = ctx_ptr nil C, key = kp, color = cp\<rparr>"
    using c3 by (simp add: x_def)
  have gr3: "get_left h3 p = Some wra" using c3p by (simp add: get_left_def)
  have blk: "do {
       wr \<leftarrow> get_right h wa;
       h \<leftarrow> set_color wr BLACK h;
       h \<leftarrow> set_color wa RED h;
       (T, h) \<leftarrow> rotate_left T h wa;
       xp \<leftarrow> get_parent h x;
       w \<leftarrow> get_left h xp;
       Some (T, h, w)
     } = Some (T3, h3, wra)"
    using g0 s1 s2 rl g3 gr3 by simp
  have nn3: "nil_node (cells h3) nil" using nn fr nA by (simp add: nil_node_def)
  have "xrep nil T3 h3 (InR (Node (Node wl wa wk RED (ws - stored_size wrr - 1) wrl) wra wrk BLACK (wrs + stored_size wl + 1)
           wrr) p kp cp sp
        C) t"
    unfolding xrep_def using c3 t3 T3 d n nn3 px3
    by (simp add: x_def distinct_plug set_addrs_plug)
  moreover have "next_free h3 = next_free h" using nf3 by (simp add: h2_def h1_def)
  ultimately show ?thesis using blk fr by blast
qed

lemma erase_case4_right:
  fixes t :: "'k tree" and nil :: ptr
  defines "x \<equiv> root_ptr nil t"
  assumes xr: "xrep nil T h (InR (Node (Node wll wla wlk wlc wls wlr) wa wk wc ws wr) p kp cp sp C) t"
  shows "\<exists>T1 h1.
     do {
       xp \<leftarrow> get_parent h x;
       xpc \<leftarrow> get_color h xp;
       h \<leftarrow> set_color wa xpc h;
       xp \<leftarrow> get_parent h x;
       h \<leftarrow> set_color xp BLACK h;
       wl \<leftarrow> get_left h wa;
       h \<leftarrow> set_color wl BLACK h;
       xp \<leftarrow> get_parent h x;
       (T, h) \<leftarrow> rotate_right T h xp;
       Some (T, h, m_root T)
     } = Some (T1, h1, m_root T1) \<and>
     xrep nil T1 h1 Top
        (plug C (Node (Node wll wla wlk BLACK wls wlr) wa wk cp (ws + stored_size t + 1)
                   (Node wr p kp BLACK (sp - wls - 1) t))) \<and>
     next_free h1 = next_free h \<and>
     (\<forall>a. a \<notin> set (addrs (plug (InR (Node (Node wll wla wlk wlc wls wlr) wa wk wc ws wr) p kp cp sp C) t)) \<longrightarrow>
          cells h1 a = cells h a)"
proof -
  let ?wl = "Node wll wla wlk wlc wls wlr"
  let ?w = "Node ?wl wa wk wc ws wr"
  let ?wl2 = "Node wll wla wlk BLACK wls wlr"
  let ?w2 = "Node ?wl2 wa wk cp ws wr"
  let ?t2 = "Node ?w2 p kp BLACK sp t"
  let ?A = "set (addrs (plug (InR ?w p kp cp sp C) t))"
  have rc: "rep_ctx (cells h) nil (InR ?w p kp cp sp C) x"
    and rt: "rep (cells h) nil p t"
    and T: "m_root T = ctx_root C p" "m_nil T = nil"
    and d: "distinct (addrs (plug (InR ?w p kp cp sp C) t))" and n: "nil \<notin> ?A"
    and nn: "nil_node (cells h) nil"
    and px: "map_option parent (cells h x) = Some p"
    using xr by (simp_all add: xrep_def x_def)
  have ne: "p \<noteq> wa" "wa \<noteq> p" "p \<noteq> nil" "wa \<noteq> nil" "nil \<noteq> p" "nil \<noteq> wa"
     "wla \<noteq> wa" "wa \<noteq> wla" "wla \<noteq> p" "p \<noteq> wla" "wla \<noteq> nil" "nil \<noteq> wla"
    using d n by (auto simp: distinct_plug set_addrs_plug)
  have xne: "x \<noteq> p" "x \<noteq> wa" "p \<noteq> x" "wa \<noteq> x" "x \<noteq> wla" "wla \<noteq> x"
    using d n root_notin[of p nil t] root_notin[of wa nil t] root_notin[of wla nil t]
    by (auto simp: distinct_plug set_addrs_plug x_def)
  let ?pn = "\<lparr>nsize = sp, left = wa, right = x, parent = ctx_ptr nil C, key = kp, color = cp\<rparr>"
  let ?wn = "\<lparr>nsize = ws, left = wla, right = root_ptr nil wr, parent = p, key = wk, color = wc\<rparr>"
  let ?wln = "\<lparr>nsize = wls, left = root_ptr nil wll, right = root_ptr nil wlr, parent = wa, key = wlk, color = wlc\<rparr>"
  have cp0: "cells h p = Some ?pn" using rc by simp
  have cw: "cells h wa = Some ?wn" using rc by simp
  have cwr: "cells h wla = Some ?wln" using rc by simp
  define h1 where "h1 = h\<lparr>cells := (cells h)(wa \<mapsto> ?wn\<lparr>color := cp\<rparr>)\<rparr>"
  define h2 where "h2 = h1\<lparr>cells := (cells h1)(p \<mapsto> ?pn\<lparr>color := BLACK\<rparr>)\<rparr>"
  define h3 where "h3 = h2\<lparr>cells := (cells h2)(wla \<mapsto> ?wln\<lparr>color := BLACK\<rparr>)\<rparr>"
  have g0: "get_parent h x = Some p" using px by (simp add: get_parent_def)
  have gc0: "get_color h p = Some cp" using cp0 by (simp add: get_color_def)
  have s1: "set_color wa cp h = Some h1" using cw by (simp add: heap_defs h1_def)
  have g1: "get_parent h1 x = Some p" using px xne by (simp add: get_parent_def h1_def)
  have c1p: "cells h1 p = Some ?pn" using cp0 ne by (simp add: h1_def)
  have s2: "set_color p BLACK h1 = Some h2" using c1p by (simp add: heap_defs h2_def)
  have c2w: "cells h2 wa = Some (?wn\<lparr>color := cp\<rparr>)" using ne by (simp add: h2_def h1_def)
  have gr2: "get_left h2 wa = Some wla" using c2w by (simp add: get_left_def)
  have c2wr: "cells h2 wla = Some ?wln" using cwr ne by (simp add: h2_def h1_def)
  have s3: "set_color wla BLACK h2 = Some h3" using c2wr by (simp add: heap_defs h3_def)
  have h3c: "cells h3 = (cells h)(wa \<mapsto> ?wn\<lparr>color := cp\<rparr>, p \<mapsto> ?pn\<lparr>color := BLACK\<rparr>,
       wla \<mapsto> ?wln\<lparr>color := BLACK\<rparr>)"
    by (simp add: h3_def h2_def h1_def)
  have g3: "get_parent h3 x = Some p" using px xne by (simp add: get_parent_def h3c)
  have dd: "wa \<notin> set (addrs t)" "wa \<notin> set (addrs wr)" "wa \<notin> set (addrs wlr)" "wa \<notin> set (addrs wll)" "wa \<notin> set (ctx_addrs C)"
    "wla \<notin> set (addrs t)" "wla \<notin> set (addrs wr)" "wla \<notin> set (addrs wlr)" "wla \<notin> set (addrs wll)" "wla \<notin> set (ctx_addrs C)"
    "p \<notin> set (addrs t)" "p \<notin> set (addrs wr)" "p \<notin> set (addrs wlr)" "p \<notin> set (addrs wll)" "p \<notin> set (ctx_addrs C)"
    using d by (auto simp: distinct_plug)
  have d2: "distinct (addrs (plug C ?t2))" and n2: "nil \<notin> set (addrs (plug C ?t2))"
    using d n by (auto simp: distinct_plug set_addrs_plug)
  have A2: "set (addrs (plug C ?t2)) = ?A" by (auto simp: set_addrs_plug)
  have r3c: "rep_ctx (cells h3) nil C p" using rc dd ne by (simp add: h3c)
  have r3t: "rep (cells h3) nil (ctx_ptr nil C) ?t2"
    using rc rt dd ne by (simp add: h3c x_def)
  from rotate_right_rep[OF r3c r3t T d2 n2] obtain T4 h4 where
    rl: "rotate_right T h3 p = Some (T4, h4)"
    and c4: "rep_ctx (cells h4) nil C wa"
    and t4: "rep (cells h4) nil (ctx_ptr nil C)
       (Node ?wl2 wa wk cp (ws + stored_size t + 1) (Node wr p kp BLACK (sp - stored_size ?wl2 - 1) t))"
    and T4: "m_root T4 = ctx_root C wa" "m_nil T4 = nil"
    and nf4: "next_free h4 = next_free h3"
    and fr4: "\<forall>a. a \<notin> ?A \<longrightarrow> cells h4 a = cells h3 a"
    unfolding A2 by blast
  have fr: "\<forall>a. a \<notin> ?A \<longrightarrow> cells h4 a = cells h a"
  proof (intro allI impI)
    fix a assume a: "a \<notin> ?A"
    then have "a \<noteq> wla" "a \<noteq> wa" "a \<noteq> p" by (auto simp: set_addrs_plug)
    then have "cells h3 a = cells h a" by (simp add: h3c)
    then show "cells h4 a = cells h a" using fr4 a by simp
  qed
  have blk: "do {
       xp \<leftarrow> get_parent h x;
       xpc \<leftarrow> get_color h xp;
       h \<leftarrow> set_color wa xpc h;
       xp \<leftarrow> get_parent h x;
       h \<leftarrow> set_color xp BLACK h;
       wl \<leftarrow> get_left h wa;
       h \<leftarrow> set_color wl BLACK h;
       xp \<leftarrow> get_parent h x;
       (T, h) \<leftarrow> rotate_right T h xp;
       Some (T, h, m_root T)
     } = Some (T4, h4, m_root T4)"
    using g0 gc0 s1 g1 s2 gr2 s3 g3 rl by simp
  have nn4: "nil_node (cells h4) nil" using nn fr n by (simp add: nil_node_def)
  let ?r = "Node ?wl2 wa wk cp (ws + stored_size t + 1) (Node wr p kp BLACK (sp - wls - 1) t)"
  have "xrep nil T4 h4 Top (plug C ?r)"
  proof (rule xrep_top)
    show "rep_ctx (cells h4) nil C (root_ptr nil ?r)" using c4 by simp
    show "rep (cells h4) nil (ctx_ptr nil C) ?r" using t4 by simp
    show "m_root T4 = ctx_root C (root_ptr nil ?r)" using T4 by simp
    show "m_nil T4 = nil" by fact
    show "?r \<noteq> Leaf" by simp
    show "distinct (addrs (plug C ?r))" using d by (auto simp: distinct_plug)
    show "nil \<notin> set (addrs (plug C ?r))" using n by (auto simp: set_addrs_plug)
    show "nil_node (cells h4) nil" by fact
  qed
  moreover have "next_free h4 = next_free h" using nf4 by (simp add: h3_def h2_def h1_def)
  ultimately show ?thesis using blk fr by blast
qed

lemma erase_tail_right:
  fixes t :: "'k tree" and nil :: ptr
  defines "x \<equiv> root_ptr nil t"
  assumes xr: "xrep nil T h (InR (Node wl wa wk wc ws wr) p kp cp sp C) t"
  shows "\<exists>T1 h1.
     do {
       wr \<leftarrow> get_right h wa;
       wrc \<leftarrow> get_color h wr;
       both \<leftarrow> (if wrc = BLACK then do {
                  wl \<leftarrow> get_left h wa;
                  wlc \<leftarrow> get_color h wl;
                  Some (wlc = BLACK)
                } else Some False);
       if both then do {
         h \<leftarrow> set_color wa RED h;
         xp \<leftarrow> get_parent h x;
         Some (T, h, xp)
       } else do {
         wl \<leftarrow> get_left h wa;
         wlc \<leftarrow> get_color h wl;
         (T, h, w) \<leftarrow> (if wlc = BLACK then do {
                         wr \<leftarrow> get_right h wa;
                         h \<leftarrow> set_color wr BLACK h;
                         h \<leftarrow> set_color wa RED h;
                         (T, h) \<leftarrow> rotate_left T h wa;
                         xp \<leftarrow> get_parent h x;
                         w \<leftarrow> get_left h xp;
                         Some (T, h, w)
                       } else Some (T, h, wa));
         xp \<leftarrow> get_parent h x;
         xpc \<leftarrow> get_color h xp;
         h \<leftarrow> set_color w xpc h;
         xp \<leftarrow> get_parent h x;
         h \<leftarrow> set_color xp BLACK h;
         wl \<leftarrow> get_left h w;
         h \<leftarrow> set_color wl BLACK h;
         xp \<leftarrow> get_parent h x;
         (T, h) \<leftarrow> rotate_right T h xp;
         Some (T, h, m_root T)
       }
     } = Some (T1, h1, root_ptr nil (snd (del_tail_right C p kp cp sp (Node wl wa wk wc ws wr) t))) \<and>
     xrep nil T1 h1 (fst (del_tail_right C p kp cp sp (Node wl wa wk wc ws wr) t))
        (snd (del_tail_right C p kp cp sp (Node wl wa wk wc ws wr) t)) \<and>
     next_free h1 = next_free h \<and>
     (\<forall>a. a \<notin> set (addrs (plug (InR (Node wl wa wk wc ws wr) p kp cp sp C) t)) \<longrightarrow>
          cells h1 a = cells h a)"
proof -
  let ?w = "Node wl wa wk wc ws wr"
  have rc: "rep_ctx (cells h) nil (InR ?w p kp cp sp C) x"
    and nn: "nil_node (cells h) nil"
    using xr by (simp_all add: xrep_def x_def)
  have cw: "cells h wa = Some \<lparr>nsize = ws, left = root_ptr nil wl, right = root_ptr nil wr, parent = p, key = wk, color = wc\<rparr>"
    and rl: "rep (cells h) nil wa wr" and rr: "rep (cells h) nil wa wl"
    using rc by simp_all
  have gl: "get_right h wa = Some (root_ptr nil wr)" and gr: "get_left h wa = Some (root_ptr nil wl)"
    using cw by (simp_all add: get_right_def get_left_def)
  have cl: "get_color h (root_ptr nil wr) = Some (color_of wr)"
    and cr: "get_color h (root_ptr nil wl) = Some (color_of wl)"
    using color_root_nn[OF rl nn] color_root_nn[OF rr nn] by (simp_all add: get_color_def)
  have nb: "RED \<noteq> BLACK" by (simp add: RED_def BLACK_def)
  consider (both) "color_of wr = BLACK" "color_of wl = BLACK"
    | (c3) "color_of wr = RED" "color_of wl = BLACK"
    | (c4) "color_of wl = RED"
    using not_black_red by blast
  then show ?thesis
  proof cases
    case both
    from erase_case2_right[OF xr] obtain h1 where
      e: "do { h \<leftarrow> set_color wa RED h; xp \<leftarrow> get_parent h x; Some (T, h, xp) } = Some (T, h1, p)"
      and x1: "xrep nil T h1 C (Node (Node wl wa wk RED ws wr) p kp cp sp t)"
      and nf: "next_free h1 = next_free h"
      and fr: "\<forall>a. a \<notin> set (addrs (plug (InR ?w p kp cp sp C) t)) \<longrightarrow> cells h1 a = cells h a"
      unfolding x_def by blast
    have cl': "get_color h (root_ptr nil wr) = Some BLACK" using cl both by simp
    have cr': "get_color h (root_ptr nil wl) = Some BLACK" using cr both by simp
    show ?thesis
      apply (rule exI[of _ T], rule exI[of _ h1])
      using both x1 nf fr e gl gr cl' cr' by (simp add: RED_def BLACK_def)
  next
    case c3
    from red_node[OF c3(1)] obtain wrr wra wrk wrs wrl where wr: "wr = Node wrl wra wrk RED wrs wrr"
      by blast
    from erase_block3_right[OF xr[unfolded wr]] obtain T1 h1 where
      e1: "do {
       wr \<leftarrow> get_right h wa;
       h \<leftarrow> set_color wr BLACK h;
       h \<leftarrow> set_color wa RED h;
       (T, h) \<leftarrow> rotate_left T h wa;
       xp \<leftarrow> get_parent h x;
       w \<leftarrow> get_left h xp;
       Some (T, h, w)
     } = Some (T1, h1, wra)"
      and x1: "xrep nil T1 h1 (InR (Node (Node wl wa wk RED (ws - stored_size wrr - 1) wrl) wra wrk BLACK (wrs + stored_size wl + 1)
           wrr) p kp cp sp
        C) t"
      and nf1: "next_free h1 = next_free h"
      and fr1: "\<forall>a. a \<notin> set (addrs (plug (InR ?w p kp cp sp C) t)) \<longrightarrow> cells h1 a = cells h a"
      unfolding x_def wr by blast
    from erase_case4_right[OF x1] obtain T2 h2 where
      e2: "do {
       xp \<leftarrow> get_parent h1 x;
       xpc \<leftarrow> get_color h1 xp;
       h \<leftarrow> set_color wra xpc h1;
       xp \<leftarrow> get_parent h x;
       h \<leftarrow> set_color xp BLACK h;
       wl \<leftarrow> get_left h wra;
       h \<leftarrow> set_color wl BLACK h;
       xp \<leftarrow> get_parent h x;
       (T, h) \<leftarrow> rotate_right T1 h xp;
       Some (T, h, m_root T)
     } = Some (T2, h2, m_root T2)"
      and x2: "xrep nil T2 h2 Top
        (plug C (Node (Node wl wa wk BLACK (ws - stored_size wrr - 1) wrl) wra wrk cp
                   (wrs + stored_size wl + 1 + stored_size t + 1)
                   (Node wrr p kp BLACK (sp - (ws - stored_size wrr - 1) - 1) t)))"
      and nf2: "next_free h2 = next_free h1"
      and fr2: "\<forall>a. a \<notin> set (addrs (plug (InR (Node (Node wl wa wk RED (ws - stored_size wrr - 1) wrl) wra wrk BLACK (wrs + stored_size wl + 1)
           wrr) p kp cp sp C) t)) \<longrightarrow> cells h2 a = cells h1 a"
      unfolding x_def by blast
    have mr: "m_root T2 = ctx_root C wra" using x2 by (simp add: xrep_def root_ptr_plug)
    have fr: "\<forall>a. a \<notin> set (addrs (plug (InR ?w p kp cp sp C) t)) \<longrightarrow> cells h2 a = cells h a"
      using fr1 fr2 unfolding wr by (auto simp: set_addrs_plug)
    have gl': "get_right h wa = Some wra" using gl by (simp add: wr)
    have cl': "get_color h wra = Some RED" using cl by (simp add: wr)
    have cr': "get_color h (root_ptr nil wl) = Some BLACK" using cr c3 by simp
    show ?thesis
      unfolding wr
      apply (rule exI[of _ T2], rule exI[of _ h2])
      using c3(2) x2 nf1 nf2 fr[unfolded wr] e1 e2 mr gl' gr cl' cr'
      by (simp add: root_ptr_plug RED_def BLACK_def)
  next
    case c4
    from red_node[OF c4] obtain wlr wla wlk wls wll where wl: "wl = Node wll wla wlk RED wls wlr"
      by blast
    from erase_case4_right[OF xr[unfolded wl]] obtain T2 h2 where
      e2: "do {
       xp \<leftarrow> get_parent h x;
       xpc \<leftarrow> get_color h xp;
       h \<leftarrow> set_color wa xpc h;
       xp \<leftarrow> get_parent h x;
       h \<leftarrow> set_color xp BLACK h;
       wl \<leftarrow> get_left h wa;
       h \<leftarrow> set_color wl BLACK h;
       xp \<leftarrow> get_parent h x;
       (T, h) \<leftarrow> rotate_right T h xp;
       Some (T, h, m_root T)
     } = Some (T2, h2, m_root T2)"
      and x2: "xrep nil T2 h2 Top
        (plug C (Node (Node wll wla wlk BLACK wls wlr) wa wk cp (ws + stored_size t + 1)
                   (Node wr p kp BLACK (sp - wls - 1) t)))"
      and nf2: "next_free h2 = next_free h"
      and fr: "\<forall>a. a \<notin> set (addrs (plug (InR (Node (Node wll wla wlk RED wls wlr) wa wk wc ws wr) p kp cp sp C) t)) \<longrightarrow> cells h2 a = cells h a"
      unfolding x_def by blast
    have mr: "m_root T2 = ctx_root C wa" using x2 by (simp add: xrep_def root_ptr_plug)
    have gr': "get_left h wa = Some wla" using gr by (simp add: wl)
    have cr': "get_color h wla = Some RED" using cr by (simp add: wl)
    show ?thesis
      unfolding wl
      apply (rule exI[of _ T2], rule exI[of _ h2])
      using x2 nf2 fr e2 mr gl gr' cl cr'
      by (simp add: root_ptr_plug RED_def BLACK_def)
  qed
qed

lemma fixup_erase_body_right:
  fixes t :: "'k tree" and nil :: ptr
  defines "x \<equiv> root_ptr nil t"
  assumes xr: "xrep nil T h (InR (Node wl wa wk wc ws wr) p kp cp sp C) t"
    and pre: "wc = RED \<longrightarrow> wr \<noteq> Leaf"
  shows "\<exists>T1 h1.
     fixup_erase_body T h x =
       Some (T1, h1, root_ptr nil (snd (del_step (InR (Node wl wa wk wc ws wr) p kp cp sp C) t))) \<and>
     xrep nil T1 h1 (fst (del_step (InR (Node wl wa wk wc ws wr) p kp cp sp C) t))
        (snd (del_step (InR (Node wl wa wk wc ws wr) p kp cp sp C) t)) \<and>
     next_free h1 = next_free h \<and>
     (\<forall>a. a \<notin> set (addrs (plug (InR (Node wl wa wk wc ws wr) p kp cp sp C) t)) \<longrightarrow>
          cells h1 a = cells h a)"
proof -
  let ?w = "Node wl wa wk wc ws wr"
  have rc: "rep_ctx (cells h) nil (InR ?w p kp cp sp C) x"
    using xr by (simp_all add: xrep_def x_def)
  have gp: "get_parent h x = Some p" using xrep_parent[OF xr] by (simp add: x_def)
  have cpp: "cells h p = Some \<lparr>nsize = sp, left = wa, right = x, parent = ctx_ptr nil C, key = kp, color = cp\<rparr>"
    and cw: "cells h wa = Some \<lparr>nsize = ws, left = root_ptr nil wl, right = root_ptr nil wr, parent = p, key = wk, color = wc\<rparr>"
    using rc by simp_all
  have glp: "get_right h p = Some x" and grp: "get_left h p = Some wa"
    using cpp by (simp_all add: get_right_def get_left_def)
  have gcw: "get_color h wa = Some wc" using cw by (simp add: get_color_def)
  have xw: "x \<noteq> wa"
    using xr root_notin[of wa nil t] by (auto simp: xrep_def distinct_plug set_addrs_plug x_def)
  show ?thesis
  proof (cases "wc = RED")
    case True
    with pre obtain wrr wra wrk wrc wrs wrl where wr: "wr = Node wrl wra wrk wrc wrs wrr"
      by (cases wr) auto
    from erase_block1_right[OF xr[unfolded True]] obtain T1 h1 where
      e1: "do {
         h \<leftarrow> set_color wa BLACK h;
         xp \<leftarrow> get_parent h x;
         h \<leftarrow> set_color xp RED h;
         xp \<leftarrow> get_parent h x;
         (T, h) \<leftarrow> rotate_right T h xp;
         xp \<leftarrow> get_parent h x;
         w \<leftarrow> get_left h xp;
         Some (T, h, w)
       } = Some (T1, h1, root_ptr nil wr)"
      and x1: "xrep nil T1 h1 (InR wr p kp RED
                  (sp - stored_size wl - 1) (InR wl wa wk BLACK (ws + stored_size t + 1) C)) t"
      and nf1: "next_free h1 = next_free h"
      and fr1: "\<forall>a. a \<notin> set (addrs (plug (InR (Node wl wa wk RED ws wr) p kp cp sp C) t)) \<longrightarrow>
          cells h1 a = cells h a"
      unfolding x_def by blast
    from erase_tail_right[OF x1[unfolded wr]] obtain T2 h2 where
      e2: "do {
       wr \<leftarrow> get_right h1 wra;
       wrc \<leftarrow> get_color h1 wr;
       both \<leftarrow> (if wrc = BLACK then do {
                  wl \<leftarrow> get_left h1 wra;
                  wlc \<leftarrow> get_color h1 wl;
                  Some (wlc = BLACK)
                } else Some False);
       if both then do {
         h \<leftarrow> set_color wra RED h1;
         xp \<leftarrow> get_parent h x;
         Some (T1, h, xp)
       } else do {
         wl \<leftarrow> get_left h1 wra;
         wlc \<leftarrow> get_color h1 wl;
         (T, h, w) \<leftarrow> (if wlc = BLACK then do {
                         wr \<leftarrow> get_right h1 wra;
                         h \<leftarrow> set_color wr BLACK h1;
                         h \<leftarrow> set_color wra RED h;
                         (T, h) \<leftarrow> rotate_left T1 h wra;
                         xp \<leftarrow> get_parent h x;
                         w \<leftarrow> get_left h xp;
                         Some (T, h, w)
                       } else Some (T1, h1, wra));
         xp \<leftarrow> get_parent h x;
         xpc \<leftarrow> get_color h xp;
         h \<leftarrow> set_color w xpc h;
         xp \<leftarrow> get_parent h x;
         h \<leftarrow> set_color xp BLACK h;
         wl \<leftarrow> get_left h w;
         h \<leftarrow> set_color wl BLACK h;
         xp \<leftarrow> get_parent h x;
         (T, h) \<leftarrow> rotate_right T h xp;
         Some (T, h, m_root T)
       }
     } = Some (T2, h2, root_ptr nil (snd (del_tail_right (InR wl wa wk BLACK (ws + stored_size t + 1) C) p kp RED
                  (sp - stored_size wl - 1) (Node wrl wra wrk wrc wrs wrr) t)))"
      and x2: "xrep nil T2 h2
          (fst (del_tail_right (InR wl wa wk BLACK (ws + stored_size t + 1) C) p kp RED
                  (sp - stored_size wl - 1) (Node wrl wra wrk wrc wrs wrr) t))
          (snd (del_tail_right (InR wl wa wk BLACK (ws + stored_size t + 1) C) p kp RED
                  (sp - stored_size wl - 1) (Node wrl wra wrk wrc wrs wrr) t))"
      and nf2: "next_free h2 = next_free h1"
      and fr2: "\<forall>a. a \<notin> set (addrs (plug (InR (Node wrl wra wrk wrc wrs wrr) p kp RED
                  (sp - stored_size wl - 1) (InR wl wa wk BLACK (ws + stored_size t + 1) C)) t)) \<longrightarrow>
          cells h2 a = cells h1 a"
      unfolding x_def by blast
    have fr: "\<forall>a. a \<notin> set (addrs (plug (InR ?w p kp cp sp C) t)) \<longrightarrow> cells h2 a = cells h a"
      using fr1 fr2 unfolding wr True by (auto simp: set_addrs_plug)
    have ds: "del_step (InR ?w p kp cp sp C) t =
       del_tail_right (InR wl wa wk BLACK (ws + stored_size t + 1) C) p kp RED
                  (sp - stored_size wl - 1) (Node wrl wra wrk wrc wrs wrr) t"
      using True by (simp add: wr)
    have e1': "do {
         h \<leftarrow> set_color wa BLACK h;
         xp \<leftarrow> get_parent h x;
         h \<leftarrow> set_color xp RED h;
         xp \<leftarrow> get_parent h x;
         (T, h) \<leftarrow> rotate_right T h xp;
         xp \<leftarrow> get_parent h x;
         w \<leftarrow> get_left h xp;
         Some (T, h, w)
       } = Some (T1, h1, wra)" using e1 by (simp add: wr)
    have "fixup_erase_body T h x = Some (T2, h2, root_ptr nil (snd (del_step (InR ?w p kp cp sp C) t)))"
      unfolding ds using e1' e2 gp glp grp gcw True xw
      by (simp add: fixup_erase_body_def)
    then show ?thesis using x2 nf1 nf2 fr unfolding ds by auto
  next
    case False
    from erase_tail_right[OF xr] obtain T2 h2 where
      e2: "do {
       wr \<leftarrow> get_right h wa;
       wrc \<leftarrow> get_color h wr;
       both \<leftarrow> (if wrc = BLACK then do {
                  wl \<leftarrow> get_left h wa;
                  wlc \<leftarrow> get_color h wl;
                  Some (wlc = BLACK)
                } else Some False);
       if both then do {
         h \<leftarrow> set_color wa RED h;
         xp \<leftarrow> get_parent h x;
         Some (T, h, xp)
       } else do {
         wl \<leftarrow> get_left h wa;
         wlc \<leftarrow> get_color h wl;
         (T, h, w) \<leftarrow> (if wlc = BLACK then do {
                         wr \<leftarrow> get_right h wa;
                         h \<leftarrow> set_color wr BLACK h;
                         h \<leftarrow> set_color wa RED h;
                         (T, h) \<leftarrow> rotate_left T h wa;
                         xp \<leftarrow> get_parent h x;
                         w \<leftarrow> get_left h xp;
                         Some (T, h, w)
                       } else Some (T, h, wa));
         xp \<leftarrow> get_parent h x;
         xpc \<leftarrow> get_color h xp;
         h \<leftarrow> set_color w xpc h;
         xp \<leftarrow> get_parent h x;
         h \<leftarrow> set_color xp BLACK h;
         wl \<leftarrow> get_left h w;
         h \<leftarrow> set_color wl BLACK h;
         xp \<leftarrow> get_parent h x;
         (T, h) \<leftarrow> rotate_right T h xp;
         Some (T, h, m_root T)
       }
     } = Some (T2, h2, root_ptr nil (snd (del_tail_right C p kp cp sp ?w t)))"
      and x2: "xrep nil T2 h2 (fst (del_tail_right C p kp cp sp ?w t)) (snd (del_tail_right C p kp cp sp ?w t))"
      and nf2: "next_free h2 = next_free h"
      and fr: "\<forall>a. a \<notin> set (addrs (plug (InR ?w p kp cp sp C) t)) \<longrightarrow> cells h2 a = cells h a"
      unfolding x_def by blast
    have ds: "del_step (InR ?w p kp cp sp C) t = del_tail_right C p kp cp sp ?w t"
      using False by simp
    have "fixup_erase_body T h x = Some (T2, h2, root_ptr nil (snd (del_step (InR ?w p kp cp sp C) t)))"
      unfolding ds using e2 gp glp grp gcw False xw
      by (simp add: fixup_erase_body_def)
    then show ?thesis using x2 nf2 fr unfolding ds by auto
  qed
qed

lemma paint_black_id: "color_of t = BLACK \<Longrightarrow> paint BLACK t = t"
  by (cases t) auto

lemma top_black_parent:
  "top_black (InL C a k c s r) \<Longrightarrow> top_black C"
  "top_black (InR l a k c s C) \<Longrightarrow> top_black C"
  by (cases C; simp)+

lemma bheight_pos_node: "bheight t = Suc n \<Longrightarrow> \<exists>l a k c s r. t = Node l a k c s r"
  by (cases t) auto

lemma del_tail_left_inv:
  assumes d: "dinv (InL C p kp cp sp w) t" and tb: "color_of t = BLACK" and wb: "color_of w = BLACK"
    and r: "del_tail_left C p kp cp sp w t = (C', t')"
  shows "dinv C' t' \<and> addrs (plug C' t') = addrs (plug (InL C p kp cp sp w) t) \<and>
     inorder (plug C' t') = inorder (plug (InL C p kp cp sp w) t) \<and>
     (C' = Top \<or> (C' = C \<and> color_of t' = cp))"
proof -
  have it: "invc t" using d tb by (simp add: dinv_def paint_black_id)
  have ht: "invh t" and ic: "ctx_invc (InL C p kp cp sp w)"
    and hc: "ctx_invh (InL C p kp cp sp w) (Suc (bheight t))"
    and tbl: "top_black (InL C p kp cp sp w)" and so: "size_ok (plug C (Node t p kp cp sp w))"
    using d unfolding dinv_def plug.simps by blast+
  from hc have bw: "bheight w = Suc (bheight t)" by simp
  then obtain wl wa wk wc ws wr where w: "w = Node wl wa wk wc ws wr"
    using bheight_pos_node by blast
  have wc: "wc = BLACK" using wb w by simp
  have iw: "invc wl" "invc wr" and hw: "invh wl" "invh wr" "bheight wl = bheight wr" "bheight wl = bheight t"
    using ic hc bw by (simp_all add: w wc)
  have icC: "ctx_invc C" and cpr: "cp = RED \<longrightarrow> ctx_color C = BLACK"
    and hC: "ctx_invh C (if cp = BLACK then Suc (Suc (bheight t)) else Suc (bheight t))"
    using ic hc by simp_all
  have tC: "top_black C" using tbl by (rule top_black_parent)
  have so': "size_ok (Node t p kp cp sp w)" "ctx_size_ok C sp" using so by (auto simp: size_ok_plug)
  have nb: "RED \<noteq> BLACK" by (simp add: RED_def BLACK_def)
  consider (both) "color_of wl = BLACK" "color_of wr = BLACK"
    | (c3) "color_of wl = RED" "color_of wr = BLACK"
    | (c4) "color_of wr = RED"
    using not_black_red by blast
  then show ?thesis
  proof cases
    case both
    then have e: "C' = C" "t' = Node t p kp cp sp (Node wl wa wk RED ws wr)" using r by (auto simp: w)
    have "dinv C' t'"
      unfolding dinv_def e using it ht iw hw icC hC tC so both bw
      by (auto simp: w wc size_ok_plug RED_def BLACK_def)
    then show ?thesis by (simp add: e w addrs_plug inorder_plug)
  next
    case c3
    from red_node[OF c3(1)] obtain wll wla wlk wls wlr where wl: "wl = Node wll wla wlk RED wls wlr"
      by blast
    let ?X = "Node t p kp BLACK sp (Node wll wla wlk cp (wls + stored_size wr + 1)
                 (Node wlr wa wk BLACK (ws - stored_size wll - 1) wr))"
    have e: "C' = Top" "t' = plug C (rot_left ?X)" using r c3 by (auto simp: w wl RED_def BLACK_def)
    have sX: "size_ok ?X" "stored_size ?X = sp" using so' by (auto simp: w wl)
    have s: "size_ok (plug C (rot_left ?X))"
      by (rule size_ok_plug_rot(1)[OF sX(1)]) (simp add: so'(2))
    have i: "invc (plug C (rot_left ?X))"
      using it iw icC cpr c3 by (auto simp: invc_plug wl RED_def BLACK_def)
    have h: "invh (plug C (rot_left ?X))"
      using ht hw hC by (auto simp: invh_plug wl RED_def BLACK_def)
    have "dinv C' t'" unfolding dinv_def e using s i h by (simp add: invc_paint_black)
    then show ?thesis by (simp add: e w wl addrs_plug inorder_plug)
  next
    case c4
    from red_node[OF c4] obtain wrl wra wrk wrs wrr where wr: "wr = Node wrl wra wrk RED wrs wrr"
      by blast
    let ?X = "Node t p kp BLACK sp (Node wl wa wk cp ws (Node wrl wra wrk BLACK wrs wrr))"
    have e: "C' = Top" "t' = plug C (rot_left ?X)" using r c4 by (auto simp: w wr RED_def BLACK_def)
    have sX: "size_ok ?X" "stored_size ?X = sp" using so' by (auto simp: w wr)
    have s: "size_ok (plug C (rot_left ?X))"
      by (rule size_ok_plug_rot(1)[OF sX(1)]) (simp add: so'(2))
    have i: "invc (plug C (rot_left ?X))"
      using it iw icC cpr by (auto simp: invc_plug wr RED_def BLACK_def)
    have h: "invh (plug C (rot_left ?X))"
      using ht hw hC by (auto simp: invh_plug wr RED_def BLACK_def)
    have "dinv C' t'" unfolding dinv_def e using s i h by (simp add: invc_paint_black)
    then show ?thesis by (simp add: e w wr addrs_plug inorder_plug)
  qed
qed

lemma del_step_pre_left:
  assumes "dinv (InL C p kp cp sp w) t"
  shows "\<exists>wl wa wk wc ws wr. w = Node wl wa wk wc ws wr \<and> (wc = RED \<longrightarrow> wl \<noteq> Leaf)"
proof -
  have hc: "ctx_invh (InL C p kp cp sp w) (Suc (bheight t))" using assms unfolding dinv_def by blast
  then have bw: "bheight w = Suc (bheight t)" by simp
  then obtain wl wa wk wc ws wr where w: "w = Node wl wa wk wc ws wr"
    using bheight_pos_node by blast
  have "wc = RED \<longrightarrow> wl \<noteq> Leaf" using bw by (auto simp: w RED_def BLACK_def)
  then show ?thesis using w by blast
qed

lemma del_step_left_inv:
  assumes d: "dinv (InL C p kp cp sp w) t" and tb: "color_of t = BLACK"
    and r: "del_step (InL C p kp cp sp w) t = (C', t')"
  shows "dinv C' t' \<and> addrs (plug C' t') = addrs (plug (InL C p kp cp sp w) t) \<and>
     inorder (plug C' t') = inorder (plug (InL C p kp cp sp w) t) \<and>
     dmeasure C' t' < dmeasure (InL C p kp cp sp w) t"
proof -
  from del_step_pre_left[OF d] obtain wl wa wk wc ws wr where
    w: "w = Node wl wa wk wc ws wr" and pre: "wc = RED \<longrightarrow> wl \<noteq> Leaf" by blast
  have m0: "dmeasure (InL C p kp cp sp w) t = 2 * depth C + 3" using tb by (simp add: dmeasure_def)
  show ?thesis
  proof (cases "wc = RED")
    case False
    then have wb: "color_of w = BLACK" using not_black_red by (simp add: w)
    have r': "del_tail_left C p kp cp sp w t = (C', t')"
      using r unfolding w by (simp only: del_step.simps False if_False)
    from del_tail_left_inv[OF d tb wb r'] have
      a: "dinv C' t'" "addrs (plug C' t') = addrs (plug (InL C p kp cp sp w) t)"
         "inorder (plug C' t') = inorder (plug (InL C p kp cp sp w) t)"
      and c: "C' = Top \<or> (C' = C \<and> color_of t' = cp)" by blast+
    have "dmeasure C' t' < 2 * depth C + 3" using c by (auto simp: dmeasure_def)
    then show ?thesis using a m0 by simp
  next
    case True
    let ?C1 = "InL C wa wk BLACK (ws + stored_size t + 1) wr"
    let ?sp = "sp - stored_size wr - 1"
    have it: "invc (paint BLACK t)" and ht: "invh t" and ic: "ctx_invc (InL C p kp cp sp w)"
      and hc: "ctx_invh (InL C p kp cp sp w) (Suc (bheight t))"
      and tbl: "top_black (InL C p kp cp sp w)" and so: "size_ok (plug C (Node t p kp cp sp w))"
      using d unfolding dinv_def plug.simps by blast+
    have cpb: "cp = BLACK" using ic True not_black_red by (auto simp: w RED_def BLACK_def)
    have i1: "ctx_invc (InL ?C1 p kp RED ?sp wl)"
      using ic True by (auto simp: w RED_def BLACK_def)
    have h1: "ctx_invh (InL ?C1 p kp RED ?sp wl) (Suc (bheight t))"
      using hc True cpb by (auto simp: w RED_def BLACK_def)
    have t1: "top_black (InL ?C1 p kp RED ?sp wl)"
      using tbl cpb by (cases C) (simp_all add: RED_def BLACK_def)
    have so': "size_ok (Node t p kp RED sp (Node wl wa wk BLACK ws wr))" "ctx_size_ok C sp"
      using so by (auto simp: size_ok_plug w)
    have s1: "size_ok (plug C (rot_left (Node t p kp RED sp (Node wl wa wk BLACK ws wr))))"
      by (rule size_ok_plug_rot(1)[OF so'(1)]) (simp add: so'(2))
    have s1': "size_ok (plug (InL ?C1 p kp RED ?sp wl) t)" using s1 by simp
    have d1: "dinv (InL ?C1 p kp RED ?sp wl) t"
      unfolding dinv_def using it ht i1 h1 t1 s1' by blast
    have wlb: "color_of wl = BLACK" using ic True by (auto simp: w RED_def BLACK_def)
    have r': "del_tail_left ?C1 p kp RED ?sp wl t = (C', t')"
      using r unfolding w by (simp only: del_step.simps True if_True simp_thms)
    from del_tail_left_inv[OF d1 tb wlb r'] have
      a: "dinv C' t'" "addrs (plug C' t') = addrs (plug (InL ?C1 p kp RED ?sp wl) t)"
         "inorder (plug C' t') = inorder (plug (InL ?C1 p kp RED ?sp wl) t)"
      and c: "C' = Top \<or> (C' = ?C1 \<and> color_of t' = RED)" by blast+
    have "dmeasure C' t' < 2 * depth C + 3" using c by (auto simp: dmeasure_def RED_def BLACK_def)
    then show ?thesis using a m0 by (simp add: w addrs_plug inorder_plug)
  qed
qed

lemma del_tail_right_inv:
  assumes d: "dinv (InR w p kp cp sp C) t" and tb: "color_of t = BLACK" and wb: "color_of w = BLACK"
    and r: "del_tail_right C p kp cp sp w t = (C', t')"
  shows "dinv C' t' \<and> addrs (plug C' t') = addrs (plug (InR w p kp cp sp C) t) \<and>
     inorder (plug C' t') = inorder (plug (InR w p kp cp sp C) t) \<and>
     (C' = Top \<or> (C' = C \<and> color_of t' = cp))"
proof -
  have it: "invc t" using d tb by (simp add: dinv_def paint_black_id)
  have ht: "invh t" and ic: "ctx_invc (InR w p kp cp sp C)"
    and hc: "ctx_invh (InR w p kp cp sp C) (Suc (bheight t))"
    and tbl: "top_black (InR w p kp cp sp C)" and so: "size_ok (plug C (Node w p kp cp sp t))"
    using d unfolding dinv_def plug.simps by blast+
  from hc have bw: "bheight w = Suc (bheight t)" by simp
  then obtain wr wa wk wc ws wl where w: "w = Node wl wa wk wc ws wr"
    using bheight_pos_node by blast
  have wc: "wc = BLACK" using wb w by simp
  have iw: "invc wr" "invc wl" and hw: "invh wr" "invh wl" "bheight wr = bheight wl" "bheight wr = bheight t"
    using ic hc bw by (simp_all add: w wc)
  have icC: "ctx_invc C" and cpr: "cp = RED \<longrightarrow> ctx_color C = BLACK"
    and hC: "ctx_invh C (if cp = BLACK then Suc (Suc (bheight t)) else Suc (bheight t))"
    using ic hc bw by auto
  have tC: "top_black C" using tbl by (rule top_black_parent)
  have so': "size_ok (Node w p kp cp sp t)" "ctx_size_ok C sp" using so by (auto simp: size_ok_plug)
  have nb: "RED \<noteq> BLACK" by (simp add: RED_def BLACK_def)
  consider (both) "color_of wr = BLACK" "color_of wl = BLACK"
    | (c3) "color_of wr = RED" "color_of wl = BLACK"
    | (c4) "color_of wl = RED"
    using not_black_red by blast
  then show ?thesis
  proof cases
    case both
    then have e: "C' = C" "t' = Node (Node wl wa wk RED ws wr) p kp cp sp t" using r by (auto simp: w)
    have "dinv C' t'"
      unfolding dinv_def e using it ht iw hw icC hC tC so both bw
      by (auto simp: w wc size_ok_plug RED_def BLACK_def)
    then show ?thesis by (simp add: e w addrs_plug inorder_plug)
  next
    case c3
    from red_node[OF c3(1)] obtain wrr wra wrk wrs wrl where wr: "wr = Node wrl wra wrk RED wrs wrr"
      by blast
    let ?X = "Node (Node (Node wl wa wk BLACK (ws - stored_size wrr - 1) wrl) wra wrk cp (wrs + stored_size wl + 1)
                 wrr) p kp BLACK sp t"
    have e: "C' = Top" "t' = plug C (rot_right ?X)" using r c3 by (auto simp: w wr RED_def BLACK_def)
    have sX: "size_ok ?X" "stored_size ?X = sp" using so' by (auto simp: w wr)
    have s: "size_ok (plug C (rot_right ?X))"
      by (rule size_ok_plug_rot(2)[OF sX(1)]) (simp add: so'(2))
    have i: "invc (plug C (rot_right ?X))"
      using it iw icC cpr c3 by (auto simp: invc_plug wr RED_def BLACK_def)
    have h: "invh (plug C (rot_right ?X))"
      using ht hw hC by (auto simp: invh_plug wr RED_def BLACK_def)
    have "dinv C' t'" unfolding dinv_def e using s i h by (simp add: invc_paint_black)
    then show ?thesis by (simp add: e w wr addrs_plug inorder_plug)
  next
    case c4
    from red_node[OF c4] obtain wlr wla wlk wls wll where wl: "wl = Node wll wla wlk RED wls wlr"
      by blast
    let ?X = "Node (Node (Node wll wla wlk BLACK wls wlr) wa wk cp ws wr) p kp BLACK sp t"
    have e: "C' = Top" "t' = plug C (rot_right ?X)" using r c4 by (auto simp: w wl RED_def BLACK_def)
    have sX: "size_ok ?X" "stored_size ?X = sp" using so' by (auto simp: w wl)
    have s: "size_ok (plug C (rot_right ?X))"
      by (rule size_ok_plug_rot(2)[OF sX(1)]) (simp add: so'(2))
    have i: "invc (plug C (rot_right ?X))"
      using it iw icC cpr by (auto simp: invc_plug wl RED_def BLACK_def)
    have h: "invh (plug C (rot_right ?X))"
      using ht hw hC by (auto simp: invh_plug wl RED_def BLACK_def)
    have "dinv C' t'" unfolding dinv_def e using s i h by (simp add: invc_paint_black)
    then show ?thesis by (simp add: e w wl addrs_plug inorder_plug)
  qed
qed

lemma del_step_pre_right:
  assumes "dinv (InR w p kp cp sp C) t"
  shows "\<exists>wr wa wk wc ws wl. w = Node wl wa wk wc ws wr \<and> (wc = RED \<longrightarrow> wr \<noteq> Leaf)"
proof -
  have hc: "ctx_invh (InR w p kp cp sp C) (Suc (bheight t))" using assms unfolding dinv_def by blast
  then have bw: "bheight w = Suc (bheight t)" by simp
  then obtain wr wa wk wc ws wl where w: "w = Node wl wa wk wc ws wr"
    using bheight_pos_node by blast
  have "invh w" using hc by simp
  then have "wc = RED \<longrightarrow> wr \<noteq> Leaf" using bw by (auto simp: w RED_def BLACK_def)
  then show ?thesis using w by blast
qed

lemma del_step_right_inv:
  assumes d: "dinv (InR w p kp cp sp C) t" and tb: "color_of t = BLACK"
    and r: "del_step (InR w p kp cp sp C) t = (C', t')"
  shows "dinv C' t' \<and> addrs (plug C' t') = addrs (plug (InR w p kp cp sp C) t) \<and>
     inorder (plug C' t') = inorder (plug (InR w p kp cp sp C) t) \<and>
     dmeasure C' t' < dmeasure (InR w p kp cp sp C) t"
proof -
  from del_step_pre_right[OF d] obtain wr wa wk wc ws wl where
    w: "w = Node wl wa wk wc ws wr" and pre: "wc = RED \<longrightarrow> wr \<noteq> Leaf" by blast
  have m0: "dmeasure (InR w p kp cp sp C) t = 2 * depth C + 3" using tb by (simp add: dmeasure_def)
  show ?thesis
  proof (cases "wc = RED")
    case False
    then have wb: "color_of w = BLACK" using not_black_red by (simp add: w)
    have r': "del_tail_right C p kp cp sp w t = (C', t')"
      using r unfolding w by (simp only: del_step.simps False if_False)
    from del_tail_right_inv[OF d tb wb r'] have
      a: "dinv C' t'" "addrs (plug C' t') = addrs (plug (InR w p kp cp sp C) t)"
         "inorder (plug C' t') = inorder (plug (InR w p kp cp sp C) t)"
      and c: "C' = Top \<or> (C' = C \<and> color_of t' = cp)" by blast+
    have "dmeasure C' t' < 2 * depth C + 3" using c by (auto simp: dmeasure_def)
    then show ?thesis using a m0 by simp
  next
    case True
    let ?C1 = "InR wl wa wk BLACK (ws + stored_size t + 1) C"
    let ?sp = "sp - stored_size wl - 1"
    have it: "invc (paint BLACK t)" and ht: "invh t" and ic: "ctx_invc (InR w p kp cp sp C)"
      and hc: "ctx_invh (InR w p kp cp sp C) (Suc (bheight t))"
      and tbl: "top_black (InR w p kp cp sp C)" and so: "size_ok (plug C (Node w p kp cp sp t))"
      using d unfolding dinv_def plug.simps by blast+
    have cpb: "cp = BLACK" using ic True not_black_red by (auto simp: w RED_def BLACK_def)
    have i1: "ctx_invc (InR wr p kp RED ?sp ?C1)"
      using ic True by (auto simp: w RED_def BLACK_def)
    have h1: "ctx_invh (InR wr p kp RED ?sp ?C1) (Suc (bheight t))"
      using hc True cpb by (auto simp: w RED_def BLACK_def)
    have t1: "top_black (InR wr p kp RED ?sp ?C1)"
      using tbl cpb by (cases C) (simp_all add: RED_def BLACK_def)
    have so': "size_ok (Node (Node wl wa wk BLACK ws wr) p kp RED sp t)" "ctx_size_ok C sp"
      using so by (auto simp: size_ok_plug w)
    have s1: "size_ok (plug C (rot_right (Node (Node wl wa wk BLACK ws wr) p kp RED sp t)))"
      by (rule size_ok_plug_rot(2)[OF so'(1)]) (simp add: so'(2))
    have s1': "size_ok (plug (InR wr p kp RED ?sp ?C1) t)" using s1 by simp
    have d1: "dinv (InR wr p kp RED ?sp ?C1) t"
      unfolding dinv_def using it ht i1 h1 t1 s1' by blast
    have wrb: "color_of wr = BLACK" using ic True by (auto simp: w RED_def BLACK_def)
    have r': "del_tail_right ?C1 p kp RED ?sp wr t = (C', t')"
      using r unfolding w by (simp only: del_step.simps True if_True simp_thms)
    from del_tail_right_inv[OF d1 tb wrb r'] have
      a: "dinv C' t'" "addrs (plug C' t') = addrs (plug (InR wr p kp RED ?sp ?C1) t)"
         "inorder (plug C' t') = inorder (plug (InR wr p kp RED ?sp ?C1) t)"
      and c: "C' = Top \<or> (C' = ?C1 \<and> color_of t' = RED)" by blast+
    have "dmeasure C' t' < 2 * depth C + 3" using c by (auto simp: dmeasure_def RED_def BLACK_def)
    then show ?thesis using a m0 by (simp add: w addrs_plug inorder_plug)
  qed
qed

lemma ctx_root_in: "C \<noteq> Top \<Longrightarrow> ctx_root C x \<in> set (ctx_addrs C)"
proof (induction C arbitrary: x)
  case Top
  then show ?case by simp
next
  case (InL C a k c s r)
  show ?case
  proof (cases "C = Top")
    case True
    then show ?thesis by simp
  next
    case False
    from InL.IH[OF False, of a] show ?thesis by auto
  qed
next
  case (InR l a k c s C)
  show ?case
  proof (cases "C = Top")
    case True
    then show ?thesis by simp
  next
    case False
    from InR.IH[OF False, of a] show ?thesis by auto
  qed
qed

lemma xrep_not_root:
  assumes "xrep nil T h C t" "C \<noteq> Top"
  shows "root_ptr nil t \<noteq> m_root T"
proof -
  have m: "m_root T = ctx_root C (root_ptr nil t)" and d: "distinct (addrs (plug C t))"
    and n: "nil \<notin> set (addrs (plug C t))" using assms(1) by (simp_all add: xrep_def)
  have "m_root T \<in> set (ctx_addrs C)" using ctx_root_in[OF assms(2)] m by simp
  moreover have "root_ptr nil t \<notin> set (ctx_addrs C)"
    using root_ptr_cases[of nil t] d n by (auto simp: distinct_plug set_addrs_plug)
  ultimately show ?thesis by auto
qed

lemma xrep_color: "xrep nil T h C t \<Longrightarrow> get_color h (root_ptr nil t) = Some (color_of t)"
  using color_root_nn[of "cells h" nil "ctx_ptr nil C" t] by (simp add: xrep_def get_color_def)

lemma del_step_inv:
  assumes d: "dinv C t" and tb: "color_of t = BLACK" and c: "C \<noteq> Top"
    and r: "del_step C t = (C', t')"
  shows "dinv C' t' \<and> addrs (plug C' t') = addrs (plug C t) \<and>
     inorder (plug C' t') = inorder (plug C t) \<and> dmeasure C' t' < dmeasure C t"
proof (cases C)
  case Top
  then show ?thesis using c by simp
next
  case (InL C0 p kp cp sp w)
  show ?thesis using del_step_left_inv[OF d[unfolded InL] tb r[unfolded InL]] unfolding InL .
next
  case (InR w p kp cp sp C0)
  show ?thesis using del_step_right_inv[OF d[unfolded InR] tb r[unfolded InR]] unfolding InR .
qed

lemma fixup_erase_body_step:
  assumes xr: "xrep nil T h C t" and d: "dinv C t" and c: "C \<noteq> Top"
  shows "\<exists>T1 h1.
     fixup_erase_body T h (root_ptr nil t) = Some (T1, h1, root_ptr nil (snd (del_step C t))) \<and>
     xrep nil T1 h1 (fst (del_step C t)) (snd (del_step C t)) \<and>
     next_free h1 = next_free h \<and>
     (\<forall>a. a \<notin> set (addrs (plug C t)) \<longrightarrow> cells h1 a = cells h a)"
proof (cases C)
  case Top
  then show ?thesis using c by simp
next
  case (InL C0 p kp cp sp w)
  from del_step_pre_left[OF d[unfolded InL]] obtain wl wa wk wc ws wr where
    w: "w = Node wl wa wk wc ws wr" and pre: "wc = RED \<longrightarrow> wl \<noteq> Leaf" by blast
  show ?thesis using fixup_erase_body_left[OF xr[unfolded InL w] pre] unfolding InL w .
next
  case (InR w p kp cp sp C0)
  from del_step_pre_right[OF d[unfolded InR]] obtain wl wa wk wc ws wr where
    w: "w = Node wl wa wk wc ws wr" and pre: "wc = RED \<longrightarrow> wr \<noteq> Leaf" by blast
  show ?thesis using fixup_erase_body_right[OF xr[unfolded InR w] pre] unfolding InR w .
qed

lemma fixup_erase_loop_fix:
  assumes "xrep nil T h C t" "dinv C t"
  shows "\<exists>T' h' C' t'.
     fixup_erase_loop T h (root_ptr nil t) = Some (T', h', root_ptr nil t') \<and>
     xrep nil T' h' C' t' \<and> dinv C' t' \<and> (C' = Top \<or> color_of t' = RED) \<and>
     addrs (plug C' t') = addrs (plug C t) \<and> inorder (plug C' t') = inorder (plug C t) \<and>
     next_free h' = next_free h \<and>
     (\<forall>a. a \<notin> set (addrs (plug C t)) \<longrightarrow> cells h' a = cells h a)"
  using assms
proof (induction "dmeasure C t" arbitrary: T h C t rule: less_induct)
  case less
  note xr = less.prems(1) and d = less.prems(2)
  let ?x = "root_ptr nil t"
  show ?case
  proof (cases "C \<noteq> Top \<and> color_of t = BLACK")
    case False
    have "fixup_erase_loop T h ?x = Some (T, h, ?x)"
    proof (cases "C = Top")
      case True
      then have "?x = m_root T" using xr by (simp add: xrep_def)
      then show ?thesis by (subst fixup_erase_loop.simps) simp
    next
      case c: False
      with False have "color_of t \<noteq> BLACK" by simp
      then show ?thesis using xrep_color[OF xr]
        by (subst fixup_erase_loop.simps) simp
    qed
    moreover have "C = Top \<or> color_of t = RED" using False not_black_red by blast
    ultimately show ?thesis using xr d by blast
  next
    case True
    then have c: "C \<noteq> Top" and tb: "color_of t = BLACK" by simp_all
    obtain C1 t1 where ds: "del_step C t = (C1, t1)" by (cases "del_step C t")
    from fixup_erase_body_step[OF xr d c] obtain T1 h1 where
      b: "fixup_erase_body T h ?x = Some (T1, h1, root_ptr nil t1)"
      and x1: "xrep nil T1 h1 C1 t1"
      and nf1: "next_free h1 = next_free h"
      and fr1: "\<forall>a. a \<notin> set (addrs (plug C t)) \<longrightarrow> cells h1 a = cells h a"
      unfolding ds by auto
    from del_step_inv[OF d tb c ds] have
      d1: "dinv C1 t1" and a1: "addrs (plug C1 t1) = addrs (plug C t)"
      and i1: "inorder (plug C1 t1) = inorder (plug C t)"
      and m1: "dmeasure C1 t1 < dmeasure C t" by blast+
    from less.hyps[OF m1 x1 d1] obtain T' h' C' t' where
      l: "fixup_erase_loop T1 h1 (root_ptr nil t1) = Some (T', h', root_ptr nil t')"
      and r: "xrep nil T' h' C' t'" "dinv C' t'" "C' = Top \<or> color_of t' = RED"
        "addrs (plug C' t') = addrs (plug C1 t1)" "inorder (plug C' t') = inorder (plug C1 t1)"
        "next_free h' = next_free h1"
      and fr2: "\<forall>a. a \<notin> set (addrs (plug C1 t1)) \<longrightarrow> cells h' a = cells h1 a"
      by blast
    have "fixup_erase_loop T h ?x = Some (T', h', root_ptr nil t')"
      using xrep_not_root[OF xr c] xrep_color[OF xr] tb b l
      by (subst fixup_erase_loop.simps) simp
    moreover have "\<forall>a. a \<notin> set (addrs (plug C t)) \<longrightarrow> cells h' a = cells h a"
      using fr1 fr2 a1 by simp
    ultimately show ?thesis using r a1 i1 nf1 by (intro exI[of _ T'] exI[of _ h'] exI[of _ C'] exI[of _ t']) simp
  qed
qed

lemma rb_after_fix:
  assumes d: "dinv C t" and e: "C = Top \<or> color_of t = RED"
  shows "invc (plug C (paint BLACK t)) \<and> invh (plug C (paint BLACK t)) \<and>
     color_of (plug C (paint BLACK t)) = BLACK \<and> size_ok (plug C (paint BLACK t))"
proof -
  have it: "invc (paint BLACK t)" and ht: "invh t" and ic: "ctx_invc C"
    and hc: "ctx_invh C (Suc (bheight t))" and tb: "top_black C" and so: "size_ok (plug C t)"
    using d unfolding dinv_def by blast+
  have cb: "color_of (paint BLACK t) = BLACK" by (cases t) auto
  have i: "invc (plug C (paint BLACK t))" using it ic cb by (simp add: invc_plug)
  have h: "invh (plug C (paint BLACK t))"
  proof (cases "C = Top")
    case True
    then show ?thesis using ht by simp
  next
    case False
    with e have "color_of t = RED" by simp
    from bheight_paint_black[OF this] show ?thesis using ht hc by (simp add: invh_plug)
  qed
  have c: "color_of (plug C (paint BLACK t)) = BLACK"
  proof (cases "C = Top")
    case True
    then show ?thesis using cb by simp
  next
    case False
    then show ?thesis using color_plug_top[OF tb] by simp
  qed
  have s: "size_ok (plug C (paint BLACK t))" using so by (simp add: size_ok_plug)
  show ?thesis using i h c s by blast
qed

lemma fixup_erase_fix:
  assumes xr: "xrep nil T h C t" and d: "dinv C t"
  shows "\<exists>T' h' tf. fixup_erase T h (root_ptr nil t) = Some (T', h') \<and>
     fin nil h (set (addrs (plug C t))) T' h' tf \<and> nil_node (cells h') nil \<and>
     invc tf \<and> invh tf \<and> color_of tf = BLACK \<and> size_ok tf \<and>
     addrs tf = addrs (plug C t) \<and> inorder tf = inorder (plug C t)"
proof -
  from fixup_erase_loop_fix[OF xr d] obtain T' h1 C' t' where
    l: "fixup_erase_loop T h (root_ptr nil t) = Some (T', h1, root_ptr nil t')"
    and x1: "xrep nil T' h1 C' t'" and d1: "dinv C' t'" and e: "C' = Top \<or> color_of t' = RED"
    and a1: "addrs (plug C' t') = addrs (plug C t)" and i1: "inorder (plug C' t') = inorder (plug C t)"
    and nf1: "next_free h1 = next_free h"
    and fr1: "\<forall>a. a \<notin> set (addrs (plug C t)) \<longrightarrow> cells h1 a = cells h a"
    by blast
  let ?tf = "plug C' (paint BLACK t')"
  have rc: "rep_ctx (cells h1) nil C' (root_ptr nil t')"
    and rt: "rep (cells h1) nil (ctx_ptr nil C') t'"
    and T: "m_root T' = ctx_root C' (root_ptr nil t')" "m_nil T' = nil"
    and dd: "distinct (addrs (plug C' t'))" and n: "nil \<notin> set (addrs (plug C' t'))"
    and nn: "nil_node (cells h1) nil"
    using x1 by (simp_all add: xrep_def)
  have "\<exists>h2. set_color (root_ptr nil t') BLACK h1 = Some h2 \<and> rep (cells h2) nil nil ?tf \<and>
      nil_node (cells h2) nil \<and> next_free h2 = next_free h1 \<and>
      (\<forall>a. a \<notin> set (addrs (plug C' t')) \<longrightarrow> cells h2 a = cells h1 a)"
  proof (cases t')
    case Leaf
    from nn obtain np k0 where cn: "cells h1 nil = Some \<lparr>nsize = 0, left = nil, right = nil, parent = np, key = k0, color = BLACK\<rparr>"
      by (auto simp: nil_node_def)
    have "(cells h1)(nil \<mapsto> \<lparr>nsize = 0, left = nil, right = nil, parent = np, key = k0, color = BLACK\<rparr>) = cells h1"
      using cn by (rule fun_upd_idem)
    then have s: "set_color nil BLACK h1 = Some h1" using cn by (simp add: heap_defs)
    show ?thesis using s rc rt nn by (simp add: Leaf rep_plug)
  next
    case (Node l a k c s r)
    let ?n = "\<lparr>nsize = s, left = root_ptr nil l, right = root_ptr nil r, parent = ctx_ptr nil C', key = k, color = c\<rparr>"
    define h2 where "h2 = h1\<lparr>cells := (cells h1)(a \<mapsto> ?n\<lparr>color := BLACK\<rparr>)\<rparr>"
    have ca: "cells h1 a = Some ?n" using rt by (simp add: Node)
    have s: "set_color a BLACK h1 = Some h2" using ca by (simp add: heap_defs h2_def)
    have na: "a \<notin> set (addrs l)" "a \<notin> set (addrs r)" "a \<notin> set (ctx_addrs C')" "a \<noteq> nil"
      using dd n by (auto simp: distinct_plug set_addrs_plug Node)
    have "rep (cells h2) nil (ctx_ptr nil C') (Node l a k BLACK s r)"
      using rt na by (simp add: h2_def Node)
    moreover have "rep_ctx (cells h2) nil C' a" using rc na by (simp add: h2_def Node)
    ultimately have "rep (cells h2) nil nil ?tf" by (simp add: rep_plug Node)
    moreover have "nil_node (cells h2) nil" using nn na by (simp add: nil_node_def h2_def)
    moreover have "\<forall>x. x \<notin> set (addrs (plug C' t')) \<longrightarrow> cells h2 x = cells h1 x"
      by (auto simp: h2_def set_addrs_plug Node)
    ultimately show ?thesis using s by (simp add: Node h2_def)
  qed
  then obtain h2 where s: "set_color (root_ptr nil t') BLACK h1 = Some h2"
    and r2: "rep (cells h2) nil nil ?tf" and nn2: "nil_node (cells h2) nil"
    and nf2: "next_free h2 = next_free h1"
    and fr2: "\<forall>a. a \<notin> set (addrs (plug C' t')) \<longrightarrow> cells h2 a = cells h1 a" by blast
  have fe: "fixup_erase T h (root_ptr nil t) = Some (T', h2)"
    using l s by (simp add: fixup_erase_def)
  have "fin nil h (set (addrs (plug C t))) T' h2 ?tf"
    unfolding fin_def using T r2 nf1 nf2 fr1 fr2 a1 by (simp add: root_ptr_plug)
  moreover have "addrs ?tf = addrs (plug C t)" "inorder ?tf = inorder (plug C t)"
    using a1 i1 by (simp_all add: addrs_plug inorder_plug)
  ultimately show ?thesis using fe nn2 rb_after_fix[OF d1 e] by blast
qed

lemma after_comp: "after_addrs (comp_ctx C1 C2) = after_addrs C2 @ after_addrs C1"
  by (induction C2) auto

lemma ctx_addrs_comp: "set (ctx_addrs (comp_ctx D E)) = set (ctx_addrs D) \<union> set (ctx_addrs E)"
  by (auto simp: ctx_addrs_def before_comp after_comp)

lemma distinct_comp:
  "distinct (ctx_addrs (comp_ctx D E)) =
     (distinct (ctx_addrs D) \<and> distinct (ctx_addrs E) \<and> set (ctx_addrs D) \<inter> set (ctx_addrs E) = {})"
  by (auto simp: ctx_addrs_def before_comp after_comp)

lemma ctx_ptr_comp: "E \<noteq> Top \<Longrightarrow> ctx_ptr nil (comp_ctx D E) = ctx_ptr nil E"
  by (cases E) auto

lemma ctx_root_comp: "ctx_root (comp_ctx D E) p = ctx_root D (ctx_root E p)"
  by (induction E arbitrary: p) auto

lemma ctx_ptr_in: "C \<noteq> Top \<Longrightarrow> ctx_ptr nil C \<in> set (ctx_addrs C)"
  by (cases C) auto

lemma ctx_ptr_add [simp]: "ctx_ptr nil (ctx_add v C) = ctx_ptr nil C"
  by (cases C) auto

lemma ctx_add_top [simp]: "(ctx_add v C = Top) = (C = Top)"
  by (cases C) auto

lemma transplant_ctx:
  assumes rc: "rep_ctx (cells h) nil C u" and cu: "cells h u = Some un" and pu: "parent un = ctx_ptr nil C"
    and T: "m_root T = ctx_root C u" "m_nil T = nil"
    and d: "distinct (ctx_addrs C)" "nil \<notin> set (ctx_addrs C)" "u \<notin> set (ctx_addrs C)"
       "v \<notin> set (ctx_addrs C)"
    and cv: "cells h v = Some vn" and uv: "u \<noteq> v" "u \<noteq> nil"
  shows "\<exists>T' h'. transplant T h u v = Some (T', h') \<and> rep_ctx (cells h') nil C v \<and>
     m_root T' = ctx_root C v \<and> m_nil T' = nil \<and>
     cells h' v = Some (vn\<lparr>parent := ctx_ptr nil C\<rparr>) \<and> next_free h' = next_free h \<and>
     (\<forall>a. a \<notin> set (ctx_addrs C) \<longrightarrow> a \<noteq> v \<longrightarrow> cells h' a = cells h a)"
proof (cases C)
  case Top
  have gp: "get_parent h u = Some nil" using cu pu by (simp add: get_parent_def Top)
  define h' where "h' = h\<lparr>cells := (cells h)(v \<mapsto> vn\<lparr>parent := nil\<rparr>)\<rparr>"
  have sp: "set_parent v nil h = Some h'" using cv by (simp add: heap_defs h'_def)
  have "transplant T h u v = Some (T\<lparr>m_root := v\<rparr>, h')"
    using gp sp T by (simp add: transplant_def)
  then show ?thesis using T by (simp add: Top h'_def)
next
  case (InL C0 a k c s r)
  let ?an = "\<lparr>nsize = s, left = u, right = root_ptr nil r, parent = ctx_ptr nil C0, key = k, color = c\<rparr>"
  have ca: "cells h a = Some ?an" and rr: "rep (cells h) nil a r" and r0: "rep_ctx (cells h) nil C0 a"
    using rc by (simp_all add: InL)
  have ne: "a \<noteq> nil" "u \<noteq> a" "v \<noteq> a" "a \<notin> set (addrs r)" "a \<notin> set (ctx_addrs C0)"
    "v \<notin> set (addrs r)" "v \<notin> set (ctx_addrs C0)"
    using d by (auto simp: InL)
  have gp: "get_parent h u = Some a" using cu pu by (simp add: get_parent_def InL)
  have gl: "get_left h a = Some u" using ca by (simp add: get_left_def)
  define h1 where "h1 = h\<lparr>cells := (cells h)(a \<mapsto> ?an\<lparr>left := v\<rparr>)\<rparr>"
  have sl: "set_left a v h = Some h1" using ca by (simp add: heap_defs h1_def)
  have gp1: "get_parent h1 u = Some a" using cu pu ne by (simp add: get_parent_def InL h1_def)
  define h' where "h' = h1\<lparr>cells := (cells h1)(v \<mapsto> vn\<lparr>parent := a\<rparr>)\<rparr>"
  have sp: "set_parent v a h1 = Some h'" using cv ne by (simp add: heap_defs h'_def h1_def)
  have tr: "transplant T h u v = Some (T, h')"
    using gp gl sl gp1 sp T ne by (simp add: transplant_def)
  have "rep_ctx (cells h') nil C v" using rr r0 ne by (simp add: InL h'_def h1_def)
  then show ?thesis using tr T ne by (auto simp: InL h'_def h1_def)
next
  case (InR l a k c s C0)
  let ?an = "\<lparr>nsize = s, left = root_ptr nil l, right = u, parent = ctx_ptr nil C0, key = k, color = c\<rparr>"
  have ca: "cells h a = Some ?an" and rr: "rep (cells h) nil a l" and r0: "rep_ctx (cells h) nil C0 a"
    using rc by (simp_all add: InR)
  have ne: "a \<noteq> nil" "u \<noteq> a" "v \<noteq> a" "a \<notin> set (addrs l)" "a \<notin> set (ctx_addrs C0)"
    "v \<notin> set (addrs l)" "v \<notin> set (ctx_addrs C0)" "u \<notin> set (addrs l)"
    using d by (auto simp: InR)
  have ul: "u \<noteq> root_ptr nil l" using root_notin[OF uv(2) ne(8)] .
  have gp: "get_parent h u = Some a" using cu pu by (simp add: get_parent_def InR)
  have gl: "get_left h a = Some (root_ptr nil l)" using ca by (simp add: get_left_def)
  define h1 where "h1 = h\<lparr>cells := (cells h)(a \<mapsto> ?an\<lparr>right := v\<rparr>)\<rparr>"
  have sl: "set_right a v h = Some h1" using ca by (simp add: heap_defs h1_def)
  have gp1: "get_parent h1 u = Some a" using cu pu ne by (simp add: get_parent_def InR h1_def)
  define h' where "h' = h1\<lparr>cells := (cells h1)(v \<mapsto> vn\<lparr>parent := a\<rparr>)\<rparr>"
  have sp: "set_parent v a h1 = Some h'" using cv ne by (simp add: heap_defs h'_def h1_def)
  have tr: "transplant T h u v = Some (T, h')"
    using gp gl sl gp1 sp T ne ul by (simp add: transplant_def)
  have "rep_ctx (cells h') nil C v" using rr r0 ne by (simp add: InR h'_def h1_def)
  then show ?thesis using tr T ne by (auto simp: InR h'_def h1_def)
qed

lemma rep_reparent:
  assumes "rep m nil par t" "distinct (addrs t)" "m (root_ptr nil t) = Some n" "t \<noteq> Leaf"
  shows "rep (m(root_ptr nil t \<mapsto> n\<lparr>parent := q\<rparr>)) nil q t"
  using assms by (cases t) auto

lemma updateSize_rel:
  "rep_ctx (cells h) nil (comp_ctx D E) p \<Longrightarrow> distinct (ctx_addrs (comp_ctx D E)) \<Longrightarrow>
   nil \<notin> set (ctx_addrs (comp_ctx D E)) \<Longrightarrow> D \<noteq> Top \<Longrightarrow>
   \<exists>h'. updateSize h (ctx_ptr nil (comp_ctx D E)) (ctx_ptr nil D) v = Some h' \<and>
     rep_ctx (cells h') nil (comp_ctx D (ctx_add v E)) p \<and>
     next_free h' = next_free h \<and> (\<forall>a. a \<notin> set (ctx_addrs E) \<longrightarrow> cells h' a = cells h a)"
proof (induction E arbitrary: h p)
  case Top
  show ?case using Top.prems(1) by (subst updateSize.simps) simp
next
  case (InL E y ky cy sy r)
  let ?F = "comp_ctx D E"
  let ?yn = "\<lparr>nsize = sy, left = p, right = root_ptr nil r, parent = ctx_ptr nil ?F, key = ky, color = cy\<rparr>"
  let ?h1 = "h\<lparr>cells := (cells h)(y \<mapsto> ?yn\<lparr>nsize := sy + v\<rparr>)\<rparr>"
  have cy: "cells h y = Some ?yn" using InL.prems by auto
  have dF: "distinct (ctx_addrs ?F)" "nil \<notin> set (ctx_addrs ?F)" "y \<notin> set (ctx_addrs ?F)"
    "y \<notin> set (addrs r)"
    using InL.prems by auto
  have yD: "y \<noteq> ctx_ptr nil D" using ctx_ptr_in[OF InL.prems(4), of nil] dF(3)
    by (auto simp: ctx_addrs_comp)
  have r1: "rep_ctx (cells ?h1) nil ?F y" using InL.prems dF by simp
  from InL.IH[OF r1 dF(1,2) InL.prems(4)] obtain h' where
    u: "updateSize ?h1 (ctx_ptr nil ?F) (ctx_ptr nil D) v = Some h'"
    and rc: "rep_ctx (cells h') nil (comp_ctx D (ctx_add v E)) y"
    and nf: "next_free h' = next_free h"
    and fr: "\<forall>a. a \<notin> set (ctx_addrs E) \<longrightarrow> cells h' a = cells ?h1 a"
    by auto
  have 1: "updateSize h (ctx_ptr nil (comp_ctx D (InL E y ky cy sy r))) (ctx_ptr nil D) v = Some h'"
    using cy yD u by (subst updateSize.simps) simp
  have yE: "y \<notin> set (ctx_addrs E)" using dF(3) by (simp add: ctx_addrs_comp)
  have pe: "ctx_ptr nil (comp_ctx D (ctx_add v E)) = ctx_ptr nil ?F"
    by (cases "E = Top") (simp_all add: ctx_ptr_comp)
  have cy': "cells h' y = Some (?yn\<lparr>nsize := sy + v\<rparr>)" using fr yE by simp
  have "rep (cells h') nil y r = rep (cells h) nil y r"
    using fr InL.prems(2) dF(4) by (intro rep_cong) (auto simp: ctx_addrs_comp)
  then have 2: "rep_ctx (cells h') nil (comp_ctx D (ctx_add v (InL E y ky cy sy r))) p"
    using rc cy' InL.prems(1) pe by simp
  have 3: "\<forall>a. a \<notin> set (ctx_addrs (InL E y ky cy sy r)) \<longrightarrow> cells h' a = cells h a"
    using fr by simp
  show ?case using 1 2 3 nf by blast
next
  case (InR l y ky cy sy E)
  let ?F = "comp_ctx D E"
  let ?yn = "\<lparr>nsize = sy, left = root_ptr nil l, right = p, parent = ctx_ptr nil ?F, key = ky, color = cy\<rparr>"
  let ?h1 = "h\<lparr>cells := (cells h)(y \<mapsto> ?yn\<lparr>nsize := sy + v\<rparr>)\<rparr>"
  have cy: "cells h y = Some ?yn" using InR.prems by auto
  have dF: "distinct (ctx_addrs ?F)" "nil \<notin> set (ctx_addrs ?F)" "y \<notin> set (ctx_addrs ?F)"
    "y \<notin> set (addrs l)"
    using InR.prems by auto
  have yD: "y \<noteq> ctx_ptr nil D" using ctx_ptr_in[OF InR.prems(4), of nil] dF(3)
    by (auto simp: ctx_addrs_comp)
  have r1: "rep_ctx (cells ?h1) nil ?F y" using InR.prems dF by simp
  from InR.IH[OF r1 dF(1,2) InR.prems(4)] obtain h' where
    u: "updateSize ?h1 (ctx_ptr nil ?F) (ctx_ptr nil D) v = Some h'"
    and rc: "rep_ctx (cells h') nil (comp_ctx D (ctx_add v E)) y"
    and nf: "next_free h' = next_free h"
    and fr: "\<forall>a. a \<notin> set (ctx_addrs E) \<longrightarrow> cells h' a = cells ?h1 a"
    by auto
  have 1: "updateSize h (ctx_ptr nil (comp_ctx D (InR l y ky cy sy E))) (ctx_ptr nil D) v = Some h'"
    using cy yD u by (subst updateSize.simps) simp
  have yE: "y \<notin> set (ctx_addrs E)" using dF(3) by (simp add: ctx_addrs_comp)
  have pe: "ctx_ptr nil (comp_ctx D (ctx_add v E)) = ctx_ptr nil ?F"
    by (cases "E = Top") (simp_all add: ctx_ptr_comp)
  have cy': "cells h' y = Some (?yn\<lparr>nsize := sy + v\<rparr>)" using fr yE by simp
  have "rep (cells h') nil y l = rep (cells h) nil y l"
    using fr InR.prems(2) dF(4) by (intro rep_cong) (auto simp: ctx_addrs_comp)
  then have 2: "rep_ctx (cells h') nil (comp_ctx D (ctx_add v (InR l y ky cy sy E))) p"
    using rc cy' InR.prems(1) pe by simp
  have 3: "\<forall>a. a \<notin> set (ctx_addrs (InR l y ky cy sy E)) \<longrightarrow> cells h' a = cells h a"
    using fr by simp
  show ?case using 1 2 3 nf by blast
qed

lemma erase_end:
  assumes r: "rep (cells h3) nil nil tf" and nn: "nil_node (cells h3) nil"
    and n: "nil \<notin> set (addrs tf)" and z: "z \<notin> set (addrs tf)" "z \<noteq> nil" "cells h3 z \<noteq> None"
    and T: "m_nil T' = nil"
  shows "\<exists>h5.
     do {
       h \<leftarrow> set_parent (m_nil T') (m_nil T') h3;
       nc \<leftarrow> get_color h (m_nil T');
       if nc = BLACK then do {
         h \<leftarrow> delete_node z h;
         Some (it, T', h)
       } else None
     } = Some (it, T', h5) \<and>
     rep (cells h5) nil nil tf \<and> nil_ok (cells h5) nil \<and> next_free h5 = next_free h3 \<and>
     cells h5 z = None \<and> (\<forall>a. a \<noteq> nil \<longrightarrow> a \<noteq> z \<longrightarrow> cells h5 a = cells h3 a)"
proof -
  from nn obtain np k0 where
    cn: "cells h3 nil = Some \<lparr>nsize = 0, left = nil, right = nil, parent = np, key = k0, color = BLACK\<rparr>"
    by (auto simp: nil_node_def)
  let ?nn = "\<lparr>nsize = 0, left = nil, right = nil, parent = nil, key = k0, color = BLACK\<rparr>"
  define h4 where "h4 = h3\<lparr>cells := (cells h3)(nil \<mapsto> ?nn)\<rparr>"
  define h5 where "h5 = h4\<lparr>cells := (cells h4)(z := None)\<rparr>"
  have s: "set_parent nil nil h3 = Some h4" using cn by (simp add: heap_defs h4_def)
  have g: "get_color h4 nil = Some BLACK" by (simp add: get_color_def h4_def)
  have dl: "delete_node z h4 = Some h5" using z by (auto simp: delete_node_def h4_def h5_def)
  have e: "do {
       h \<leftarrow> set_parent (m_nil T') (m_nil T') h3;
       nc \<leftarrow> get_color h (m_nil T');
       if nc = BLACK then do {
         h \<leftarrow> delete_node z h;
         Some (it, T', h)
       } else None
     } = Some (it, T', h5)"
    using s g dl by (simp add: T)
  have "rep (cells h5) nil nil tf = rep (cells h3) nil nil tf"
    using n z by (intro rep_cong) (auto simp: h5_def h4_def)
  moreover have "nil_ok (cells h5) nil" using z by (simp add: nil_ok_def h5_def h4_def)
  ultimately show ?thesis using e r by (auto simp: h5_def h4_def)
qed

lemma erase_finish:
  assumes xr: "xrep nil T2 h2 Cx tx"
    and z: "cells h2 z \<noteq> None" "z \<notin> set (addrs (plug Cx tx))" "z \<noteq> nil"
    and bl: "yc = BLACK \<Longrightarrow> dinv Cx tx"
    and rd: "yc \<noteq> BLACK \<Longrightarrow> invc (plug Cx tx) \<and> invh (plug Cx tx) \<and>
               color_of (plug Cx tx) = BLACK \<and> size_ok (plug Cx tx)"
  shows "\<exists>T' h' t'.
     do {
       (T, h) \<leftarrow> (if yc = BLACK then fixup_erase T2 h2 (root_ptr nil tx) else Some (T2, h2));
       h \<leftarrow> set_parent (m_nil T) (m_nil T) h;
       nc \<leftarrow> get_color h (m_nil T);
       if nc = BLACK then do {
         h \<leftarrow> delete_node z h;
         Some (it, T, h)
       } else None
     } = Some (it, T', h') \<and>
     rep (cells h') nil nil t' \<and> m_root T' = root_ptr nil t' \<and> m_nil T' = nil \<and>
     nil_ok (cells h') nil \<and> rbt t' \<and> size_ok t' \<and>
     addrs t' = addrs (plug Cx tx) \<and> inorder t' = inorder (plug Cx tx) \<and>
     next_free h' = next_free h2 \<and> cells h' z = None \<and>
     (\<forall>a. a \<notin> set (addrs (plug Cx tx)) \<longrightarrow> a \<noteq> nil \<longrightarrow> a \<noteq> z \<longrightarrow> cells h' a = cells h2 a)"
proof -
  let ?A = "set (addrs (plug Cx tx))"
  have n: "nil \<notin> ?A" using xr by (simp add: xrep_def)
  have "\<exists>T3 h3 tf. (if yc = BLACK then fixup_erase T2 h2 (root_ptr nil tx) else Some (T2, h2)) = Some (T3, h3) \<and>
     fin nil h2 ?A T3 h3 tf \<and> nil_node (cells h3) nil \<and>
     invc tf \<and> invh tf \<and> color_of tf = BLACK \<and> size_ok tf \<and>
     addrs tf = addrs (plug Cx tx) \<and> inorder tf = inorder (plug Cx tx)"
  proof (cases "yc = BLACK")
    case True
    from fixup_erase_fix[OF xr bl[OF True]] show ?thesis using True by simp
  next
    case False
    have "fin nil h2 ?A T2 h2 (plug Cx tx)" using xr by (simp add: fin_def xrep_def rep_plug root_ptr_plug)
    moreover have "nil_node (cells h2) nil" using xr by (simp add: xrep_def)
    ultimately show ?thesis using False rd[OF False]
      by (intro exI[of _ T2] exI[of _ h2] exI[of _ "plug Cx tx"]) simp
  qed
  then obtain T3 h3 tf where
    f: "(if yc = BLACK then fixup_erase T2 h2 (root_ptr nil tx) else Some (T2, h2)) = Some (T3, h3)"
    and fi: "fin nil h2 ?A T3 h3 tf" and nn: "nil_node (cells h3) nil"
    and p: "invc tf" "invh tf" "color_of tf = BLACK" "size_ok tf"
    and a: "addrs tf = addrs (plug Cx tx)" "inorder tf = inorder (plug Cx tx)"
    by blast
  have T3: "m_nil T3 = nil" "m_root T3 = root_ptr nil tf" and r3: "rep (cells h3) nil nil tf"
    and nf3: "next_free h3 = next_free h2"
    and fr3: "\<forall>a. a \<notin> ?A \<longrightarrow> cells h3 a = cells h2 a"
    using fi by (simp_all add: fin_def)
  have z3: "cells h3 z \<noteq> None" using fr3 z by simp
  from erase_end[OF r3 nn _ _ z(3) z3 T3(1), of it] n z(2) a(1) obtain h5 where
    e: "do {
       h \<leftarrow> set_parent (m_nil T3) (m_nil T3) h3;
       nc \<leftarrow> get_color h (m_nil T3);
       if nc = BLACK then do {
         h \<leftarrow> delete_node z h;
         Some (it, T3, h)
       } else None
     } = Some (it, T3, h5)"
    and r5: "rep (cells h5) nil nil tf" "nil_ok (cells h5) nil" "next_free h5 = next_free h3"
      "cells h5 z = None"
    and fr5: "\<forall>a. a \<noteq> nil \<longrightarrow> a \<noteq> z \<longrightarrow> cells h5 a = cells h3 a"
    by auto
  have "do {
       (T, h) \<leftarrow> (if yc = BLACK then fixup_erase T2 h2 (root_ptr nil tx) else Some (T2, h2));
       h \<leftarrow> set_parent (m_nil T) (m_nil T) h;
       nc \<leftarrow> get_color h (m_nil T);
       if nc = BLACK then do {
         h \<leftarrow> delete_node z h;
         Some (it, T, h)
       } else None
     } = Some (it, T3, h5)"
    unfolding f using e by simp
  moreover have "\<forall>a. a \<notin> ?A \<longrightarrow> a \<noteq> nil \<longrightarrow> a \<noteq> z \<longrightarrow> cells h5 a = cells h2 a"
    using fr3 fr5 by simp
  moreover have "rbt tf" using p by (simp add: rbt_def)
  ultimately show ?thesis using r5 T3 p a nf3
    by (intro exI[of _ T3] exI[of _ h5] exI[of _ tf]) simp
qed

lemma nil_node_cell: "nil_node m nil \<Longrightarrow> \<exists>n. m nil = Some n"
  by (auto simp: nil_node_def)

lemma root_cell: "rep m nil par t \<Longrightarrow> nil_node m nil \<Longrightarrow> \<exists>n. m (root_ptr nil t) = Some n"
  by (cases t) (auto simp: nil_node_def)

lemma transplant_xrep:
  assumes rc: "rep_ctx (cells h) nil C u" and cu: "cells h u = Some un" and pu: "parent un = ctx_ptr nil C"
    and T: "m_root T = ctx_root C u" "m_nil T = nil"
    and rv: "rep (cells h) nil par vt"
    and d: "distinct (addrs (plug C vt))" "nil \<notin> set (addrs (plug C vt))"
       "u \<notin> set (addrs (plug C vt))" "u \<noteq> nil"
    and nn: "nil_node (cells h) nil"
  shows "\<exists>T' h'. transplant T h u (root_ptr nil vt) = Some (T', h') \<and> xrep nil T' h' C vt \<and>
     next_free h' = next_free h \<and>
     (\<forall>a. a \<notin> set (ctx_addrs C) \<longrightarrow> a \<noteq> root_ptr nil vt \<longrightarrow> cells h' a = cells h a)"
proof -
  let ?v = "root_ptr nil vt"
  from root_cell[OF rv nn] obtain vn where cv: "cells h ?v = Some vn" by blast
  have dc: "distinct (ctx_addrs C)" "nil \<notin> set (ctx_addrs C)" "u \<notin> set (ctx_addrs C)"
    and dv: "distinct (addrs vt)" "nil \<notin> set (addrs vt)" "u \<notin> set (addrs vt)"
    and dj: "set (ctx_addrs C) \<inter> set (addrs vt) = {}"
    using d by (auto simp: distinct_plug set_addrs_plug)
  have vC: "?v \<notin> set (ctx_addrs C)" using root_ptr_cases[of nil vt] dc dj by auto
  have uv: "u \<noteq> ?v" using root_notin[OF d(4) dv(3)] .
  from transplant_ctx[OF rc cu pu T dc vC cv uv d(4)] obtain T' h' where
    tr: "transplant T h u ?v = Some (T', h')" and rc': "rep_ctx (cells h') nil C ?v"
    and T': "m_root T' = ctx_root C ?v" "m_nil T' = nil"
    and cv': "cells h' ?v = Some (vn\<lparr>parent := ctx_ptr nil C\<rparr>)"
    and nf: "next_free h' = next_free h"
    and fr: "\<forall>a. a \<notin> set (ctx_addrs C) \<longrightarrow> a \<noteq> ?v \<longrightarrow> cells h' a = cells h a"
    by blast
  have rv': "rep (cells h') nil (ctx_ptr nil C) vt"
  proof (cases "vt = Leaf")
    case True
    then show ?thesis by simp
  next
    case False
    have "rep ((cells h)(?v \<mapsto> vn\<lparr>parent := ctx_ptr nil C\<rparr>)) nil (ctx_ptr nil C) vt"
      by (rule rep_reparent[OF rv dv(1) cv False])
    moreover have "rep (cells h') nil (ctx_ptr nil C) vt =
        rep ((cells h)(?v \<mapsto> vn\<lparr>parent := ctx_ptr nil C\<rparr>)) nil (ctx_ptr nil C) vt"
      using fr cv' dj by (intro rep_cong) auto
    ultimately show ?thesis by simp
  qed
  have nn': "nil_node (cells h') nil"
  proof (cases "?v = nil")
    case True
    then show ?thesis using nn cv cv' by (auto simp: nil_node_def)
  next
    case False
    then have "cells h' nil = cells h nil" using fr dc by simp
    then show ?thesis using nn by (simp add: nil_node_def)
  qed
  have "xrep nil T' h' C vt"
    unfolding xrep_def using rc' rv' T' d nn' cv' by simp
  then show ?thesis using tr nf fr by blast
qed

lemma lspine_before: "lspine E \<Longrightarrow> before_addrs E = [] \<and> before_keys E = []"
  by (induction E) auto

lemma lspine_comp: "lspine E1 \<Longrightarrow> lspine E2 \<Longrightarrow> lspine (comp_ctx E1 E2)"
  by (induction E2) auto

lemma min_zipper:
  "t \<noteq> Leaf \<Longrightarrow> \<exists>E ky cy sy yr. t = plug E (Node Leaf (hd (addrs t)) ky cy sy yr) \<and> lspine E"
proof (induction t)
  case Leaf
  then show ?case by simp
next
  case (Node l a k c s r)
  show ?case
  proof (cases "l = Leaf")
    case True
    have "Node l a k c s r = plug Top (Node Leaf (hd (addrs (Node l a k c s r))) k c s r)"
      using True by simp
    then show ?thesis using lspine.simps(1) by blast
  next
    case False
    from Node.IH(1)[OF False] obtain E ky cy sy yr where
      l: "l = plug E (Node Leaf (hd (addrs l)) ky cy sy yr)" and sp: "lspine E" by blast
    have ne: "addrs l \<noteq> []" using False by (cases l) auto
    have "Node l a k c s r = plug (comp_ctx (InL Top a k c s r) E) (Node Leaf (hd (addrs l)) ky cy sy yr)"
      using l by (simp add: plug_comp)
    moreover have "hd (addrs (Node l a k c s r)) = hd (addrs l)" using ne by simp
    moreover have "lspine (comp_ctx (InL Top a k c s r) E)" using sp by (simp add: lspine_comp)
    ultimately show ?thesis by metis
  qed
qed

lemma splice_node:
  fixes l :: "'k tree"
  assumes rc: "rep_ctx (cells h) nil C z"
    and cz: "cells h z = Some \<lparr>nsize = s, left = root_ptr nil l, right = zr, parent = ctx_ptr nil C, key = k, color = c\<rparr>"
    and rl: "rep (cells h) nil z l" "l \<noteq> Leaf"
    and cy: "cells h y = Some \<lparr>nsize = n, left = yl, right = root_ptr nil r', parent = yp, key = ky, color = cy\<rparr>"
    and rr: "rep (cells h) nil y r'"
    and T: "m_root T = ctx_root C z" "m_nil T = nil"
    and d: "distinct (addrs (plug C (Node l y ky c s r')))" "nil \<notin> set (addrs (plug C (Node l y ky c s r')))"
      "z \<notin> set (addrs (plug C (Node l y ky c s r')))" "z \<noteq> nil"
  shows "\<exists>T' h'.
     do {
       (T, h) \<leftarrow> transplant T h z y;
       zl \<leftarrow> get_left h z;
       h \<leftarrow> set_left y zl h;
       yl \<leftarrow> get_left h y;
       h \<leftarrow> set_parent yl y h;
       zc \<leftarrow> get_color h z;
       h \<leftarrow> set_color y zc h;
       yl \<leftarrow> get_left h y;
       s \<leftarrow> get_size h yl;
       ys \<leftarrow> get_size h y;
       h \<leftarrow> set_size y (ys + s) h;
       Some (T, h, x, yoc)
     } = Some (T', h', x, yoc) \<and>
     rep_ctx (cells h') nil C y \<and>
     rep (cells h') nil (ctx_ptr nil C) (Node l y ky c (n + stored_size l) r') \<and>
     m_root T' = ctx_root C y \<and> m_nil T' = nil \<and> next_free h' = next_free h \<and>
     (\<forall>a. a \<notin> set (ctx_addrs C) \<longrightarrow> a \<noteq> y \<longrightarrow> a \<noteq> root_ptr nil l \<longrightarrow> cells h' a = cells h a)"
proof -
  obtain ll la lk lc ls lr where l: "l = Node ll la lk lc ls lr" using rl(2) by (cases l) auto
  let ?ln = "\<lparr>nsize = ls, left = root_ptr nil ll, right = root_ptr nil lr, parent = z, key = lk, color = lc\<rparr>"
  let ?yn = "\<lparr>nsize = n, left = yl, right = root_ptr nil r', parent = yp, key = ky, color = cy\<rparr>"
  let ?zn = "\<lparr>nsize = s, left = la, right = zr, parent = ctx_ptr nil C, key = k, color = c\<rparr>"
  have cl: "cells h la = Some ?ln" and rll: "rep (cells h) nil la ll" and rlr: "rep (cells h) nil la lr"
    using rl(1) by (simp_all add: l)
  have cz': "cells h z = Some ?zn" using cz by (simp add: l)
  have dc: "distinct (ctx_addrs C)" "nil \<notin> set (ctx_addrs C)" "z \<notin> set (ctx_addrs C)"
    "y \<notin> set (ctx_addrs C)" "la \<notin> set (ctx_addrs C)"
    and ne: "z \<noteq> y" "y \<noteq> z" "y \<noteq> nil" "la \<noteq> nil" "la \<noteq> y" "y \<noteq> la" "la \<noteq> z" "z \<noteq> la"
    and dl: "la \<notin> set (addrs ll)" "la \<notin> set (addrs lr)" "y \<notin> set (addrs ll)" "y \<notin> set (addrs lr)"
      "la \<notin> set (addrs r')" "y \<notin> set (addrs r')"
    using d by (auto simp: distinct_plug set_addrs_plug l)
  have pz: "parent ?zn = ctx_ptr nil C" by simp
  from transplant_ctx[OF rc cz' pz T dc(1,2,3,4) cy ne(1) d(4)] obtain T1 h1 where
    tr: "transplant T h z y = Some (T1, h1)" and rc1: "rep_ctx (cells h1) nil C y"
    and T1: "m_root T1 = ctx_root C y" "m_nil T1 = nil"
    and cy1: "cells h1 y = Some (?yn\<lparr>parent := ctx_ptr nil C\<rparr>)"
    and nf1: "next_free h1 = next_free h"
    and fr1: "\<forall>a. a \<notin> set (ctx_addrs C) \<longrightarrow> a \<noteq> y \<longrightarrow> cells h1 a = cells h a"
    by blast
  have cz1: "cells h1 z = Some ?zn" using fr1 dc ne cz' by simp
  have cl1: "cells h1 la = Some ?ln" using fr1 dc ne cl by simp
  define h2 where "h2 = h1\<lparr>cells := (cells h1)(y \<mapsto> ?yn\<lparr>parent := ctx_ptr nil C, left := la\<rparr>)\<rparr>"
  define h3 where "h3 = h2\<lparr>cells := (cells h2)(la \<mapsto> ?ln\<lparr>parent := y\<rparr>)\<rparr>"
  define h4 where "h4 = h3\<lparr>cells := (cells h3)(y \<mapsto> ?yn\<lparr>parent := ctx_ptr nil C, left := la, color := c\<rparr>)\<rparr>"
  define h5 where "h5 = h4\<lparr>cells := (cells h4)(y \<mapsto> ?yn\<lparr>parent := ctx_ptr nil C, left := la, color := c, nsize := n + ls\<rparr>)\<rparr>"
  have g1: "get_left h1 z = Some la" using cz1 by (simp add: get_left_def)
  have s2: "set_left y la h1 = Some h2" using cy1 by (simp add: heap_defs h2_def)
  have g2: "get_left h2 y = Some la" by (simp add: get_left_def h2_def)
  have s3: "set_parent la y h2 = Some h3" using cl1 ne by (simp add: heap_defs h3_def h2_def)
  have g3: "get_color h3 z = Some c" using cz1 ne by (simp add: get_color_def h3_def h2_def)
  have s4: "set_color y c h3 = Some h4" using ne by (simp add: heap_defs h4_def h3_def h2_def)
  have g4: "get_left h4 y = Some la" by (simp add: get_left_def h4_def)
  have g4s: "get_size h4 la = Some ls" using ne by (simp add: get_size_def h4_def h3_def)
  have g4y: "get_size h4 y = Some n" by (simp add: get_size_def h4_def)
  have s5: "set_size y (n + ls) h4 = Some h5" by (simp add: heap_defs h5_def h4_def)
  have e: "do {
       (T, h) \<leftarrow> transplant T h z y;
       zl \<leftarrow> get_left h z;
       h \<leftarrow> set_left y zl h;
       yl \<leftarrow> get_left h y;
       h \<leftarrow> set_parent yl y h;
       zc \<leftarrow> get_color h z;
       h \<leftarrow> set_color y zc h;
       yl \<leftarrow> get_left h y;
       s \<leftarrow> get_size h yl;
       ys \<leftarrow> get_size h y;
       h \<leftarrow> set_size y (ys + s) h;
       Some (T, h, x, yoc)
     } = Some (T1, h5, x, yoc)"
    using tr g1 s2 g2 s3 g3 s4 g4 g4s g4y s5 by simp
  have h5c: "cells h5 = (cells h1)(la \<mapsto> ?ln\<lparr>parent := y\<rparr>,
       y \<mapsto> \<lparr>nsize = n + ls, left = la, right = root_ptr nil r', parent = ctx_ptr nil C, key = ky, color = c\<rparr>)"
    using ne by (auto simp: h5_def h4_def h3_def h2_def fun_upd_twist)
  have rc5: "rep_ctx (cells h5) nil C y" using rc1 dc by (simp add: h5c)
  have eq1: "\<And>a. a \<noteq> y \<Longrightarrow> a \<noteq> la \<Longrightarrow> a \<notin> set (ctx_addrs C) \<Longrightarrow> cells h5 a = cells h a"
    using fr1 by (simp add: h5c)
  have dj: "set (ctx_addrs C) \<inter> (set (addrs ll) \<union> set (addrs lr) \<union> set (addrs r')) = {}"
    using d(1) by (auto simp: distinct_plug l)
  have r1: "rep (cells h5) nil la ll = rep (cells h) nil la ll"
    using dl dj by (intro rep_cong eq1) auto
  have r2: "rep (cells h5) nil la lr = rep (cells h) nil la lr"
    using dl dj by (intro rep_cong eq1) auto
  have r3: "rep (cells h5) nil y r' = rep (cells h) nil y r'"
    using dl dj by (intro rep_cong eq1) auto
  have "rep (cells h5) nil (ctx_ptr nil C) (Node l y ky c (n + stored_size l) r')"
    using r1 r2 r3 rll rlr rr ne by (simp add: l h5c)
  moreover have "\<forall>a. a \<notin> set (ctx_addrs C) \<longrightarrow> a \<noteq> y \<longrightarrow> a \<noteq> root_ptr nil l \<longrightarrow> cells h5 a = cells h a"
    using eq1 by (simp add: l)
  moreover have "next_free h5 = next_free h" using nf1 by (simp add: h5_def h4_def h3_def h2_def)
  ultimately show ?thesis using e rc5 T1 by blast
qed

section \<open>Copy, move and iterator assignment on concrete inputs\<close>

text \<open>
  Claim C1 (copy construction and copy assignment duplicate the source: afterwards the
  destination's key set equals the source's). Copy assignment runs \<open>deep_copy\<close> on the
  destination as it is, without emptying it first: with the destination holding the key 1
  and the source holding the key 2, the destination holds 1 and 2 after \<open>dst = src\<close>, while
  the source holds 2 alone.
\<close>

theorem copy_assign_keeps_old_keys:
  "(case build (heap_init :: int heap) [1] of None \<Rightarrow> None
    | Some (dst, h) \<Rightarrow>
       (case build h [2] of None \<Rightarrow> None
        | Some (src, h) \<Rightarrow>
           (case copy_assign dst src h of None \<Rightarrow> None
            | Some (ret, dst, h) \<Rightarrow> Some (traverse 0 dst h, traverse 0 src h))))
   = Some (Some [1, 2], Some [2])"
  by code_simp

text \<open>
  Claim C2 (a move leaves the source a valid empty tree: \<open>size() == 0\<close>,
  \<open>begin() == end()\<close>, every public operation usable). The moved-from object gets a
  sentinel whose \<open>left\<close>, \<open>right\<close> and \<open>parent\<close> are \<open>nullptr\<close>, not the sentinel itself. After
  move construction, and after move assignment, from a tree holding 1 and 2: \<open>size()\<close> of
  the source is 0, but \<open>begin()\<close> and \<open>order_of_key(5)\<close> on the source read through
  \<open>nullptr\<close>; the destination holds 1 and 2.
\<close>

theorem moved_from_source_reads_nullptr:
  "(case build (heap_init :: int heap) [1, 2] of None \<Rightarrow> None
    | Some (src, h) \<Rightarrow>
       (case move_ctor src h of None \<Rightarrow> None
        | Some (dst, src, h) \<Rightarrow>
            Some (size_os src h, begin_os src h, order_of_key src h 5, traverse 0 dst h)))
   = Some (Some 0, None, None, Some [1, 2])
   \<and>
   (case build (heap_init :: int heap) [1, 2] of None \<Rightarrow> None
    | Some (src, h) \<Rightarrow>
       (case build h [3] of None \<Rightarrow> None
        | Some (dst, h) \<Rightarrow>
           (case move_assign dst src h of None \<Rightarrow> None
            | Some (ret, dst, src, h) \<Rightarrow>
                Some (size_os src h, begin_os src h, order_of_key src h 5, traverse 0 dst h))))
   = Some (Some 0, None, None, Some [1, 2])"
  by code_simp

text \<open>
  Claim C10 (after \<open>a = b\<close> on iterators, \<open>a\<close> refers to the node of \<open>b\<close>, and the value of the
  assignment expression is an iterator equal to \<open>b\<close>). The members are assigned, so \<open>a\<close>
  refers to the node and the tree of \<open>b\<close>; but the operator, declared to return a
  \<open>const_iterator\<close>, has no \<open>return\<close> statement, and returns no value.
\<close>

theorem iterator_assign_returns_nothing:
  "fst (iterator_assign a b) = b \<and> snd (iterator_assign a b) = None"
  by (simp add: iterator_assign_def)

text \<open>
  Claim C4 (\<open>order_of_key(key)\<close> returns the count of stored keys strictly less than \<open>key\<close>,
  for every tree and every key, present or absent, and never fails). After its loop,
  \<open>order_of_key\<close> reads \<open>x->right\<close> also when \<open>x\<close> is the sentinel, and then
  \<open>x->right->size\<close> unless that link is the sentinel itself. The default constructor
  links the sentinel to itself; the move constructor and move assignment give the source
  a sentinel whose links are \<open>nullptr\<close>. On a moved-from source refilled with 7, 3 and 9
  (\<open>size()\<close> is 3, the traversal yields 3, 7, 9), \<open>order_of_key(7)\<close> is 1, but
  \<open>order_of_key(5)\<close>, for the absent key 5 with one stored key below it, ends at the
  sentinel and reads through \<open>nullptr\<close>.
\<close>

theorem order_of_key_reads_nullptr_after_refill:
  "(case build (heap_init :: int heap) [1, 2] of None \<Rightarrow> None
    | Some (src, h) \<Rightarrow>
       (case move_ctor src h of None \<Rightarrow> None
        | Some (dst, src, h) \<Rightarrow>
           (case insert_all src h [7, 3, 9] of None \<Rightarrow> None
            | Some (src, h) \<Rightarrow>
                Some (size_os src h, traverse 0 src h, order_of_key src h 7, order_of_key src h 5))))
   = Some (Some 3, Some [3, 7, 9], Some 1, None)"
  by code_simp

text \<open>
  Claim C5 (\<open>find_by_order(rank)\<close> returns the position of the node at in-order position
  \<open>rank\<close> when \<open>rank < size()\<close>, and the sentinel when \<open>rank >= size()\<close>, for every tree).
  When the walk of \<open>find_by_order\<close> steps onto the sentinel it reads \<open>x->left->size\<close>
  there, which is the sentinel's own size only if the sentinel is linked to itself. On
  the moved-from source refilled with 7, 3 and 9, the ranks 0, 1 and 2 give the nodes of
  3, 7 and 9, but \<open>find_by_order(3)\<close>, with \<open>rank = size()\<close>, reads through \<open>nullptr\<close>
  and returns no position.
\<close>

theorem find_by_order_reads_nullptr_after_refill:
  "(case build (heap_init :: int heap) [1, 2] of None \<Rightarrow> None
    | Some (src, h) \<Rightarrow>
       (case move_ctor src h of None \<Rightarrow> None
        | Some (dst, src, h) \<Rightarrow>
           (case insert_all src h [7, 3, 9] of None \<Rightarrow> None
            | Some (src, h) \<Rightarrow>
                Some (size_os src h,
                      map (\<lambda>i. case find_by_order src h i of None \<Rightarrow> None
                                | Some p \<Rightarrow> get_key h p) [0, 1, 2],
                      find_by_order src h 3))))
   = Some (Some 3, [Some 3, Some 7, Some 9], None)"
  by code_simp

text \<open>
  Claim C8 (\<open>insert\<close> of a key already present returns the existing position with
  \<open>inserted = false\<close> and changes nothing). The tree object and the store are returned
  as they were, so \<open>size()\<close>, every rank and the key set are the same.
\<close>

theorem insert_present_noop:
  assumes "valid T h t" "k \<in> set (inorder t)"
  shows "\<exists>p. insert_os T h k = Some ((p, False), T, h) \<and> p \<in> set (addrs t) \<and> get_key h p = Some k"
  using assms by (rule insert_present)

theorem insert_present_noop_witness:
  "valid ex_set ex_heap ex_tree \<and> (12::int) \<in> set (inorder ex_tree) \<and>
   (\<exists>p. insert_os ex_set ex_heap 12 = Some ((p, False), ex_set, ex_heap))"
  using insert_present_noop[OF ex_valid, of 12] ex_valid
  by (auto simp: ex_tree_def)

text \<open>
  Claim C6 (rank/order round trip: on every tree reached by inserting a sequence of keys,
  for every \<open>i\<close> in \<open>[0, size())\<close>, \<open>order_of_key\<close> applied to the key at
  \<open>find_by_order(i)\<close> is \<open>i\<close>). The tree is built by the default constructor and the
  inserts of \<open>build\<close>, in a store whose allocator state is consistent.
\<close>

theorem rank_order_roundtrip:
  assumes "alloc_ok h0" "build h0 ks = Some (T, h)" "size_os T h = Some n" "i < n"
  shows "\<exists>p k. find_by_order T h i = Some p \<and> p \<noteq> m_nil T \<and> get_key h p = Some k \<and>
      order_of_key T h k = Some i"
proof -
  from build_valid[OF assms(1,2)] obtain t where "valid T h t" by blast
  from roundtrip_valid[OF this assms(3,4)] show ?thesis .
qed

theorem rank_order_roundtrip_witness:
  "alloc_ok (heap_init :: int heap) \<and>
   (case build (heap_init :: int heap) [12, 505, 30] of None \<Rightarrow> False
    | Some (T, h) \<Rightarrow> size_os T h = Some 3 \<and> (1 :: size_t) < 3 \<and>
        (\<exists>p k. find_by_order T h 1 = Some p \<and> p \<noteq> m_nil T \<and> get_key h p = Some k \<and>
           order_of_key T h k = Some 1))"
proof -
  have a: "alloc_ok (heap_init :: int heap)" by (simp add: alloc_ok_def heap_init_def)
  have "(case build (heap_init :: int heap) [12, 505, 30] of None \<Rightarrow> False | Some x \<Rightarrow> True)"
    by code_simp
  then obtain T h where b: "build (heap_init :: int heap) [12, 505, 30] = Some (T, h)"
    by (auto split: option.splits)
  have s: "size_os T h = Some 3"
  proof -
    have "(case build (heap_init :: int heap) [12, 505, 30] of None \<Rightarrow> None
           | Some (T, h) \<Rightarrow> size_os T h) = Some 3" by code_simp
    then show ?thesis using b by simp
  qed
  have i: "(1 :: size_t) < 3" by simp
  from rank_order_roundtrip[OF a b s i] show ?thesis using a b s i by simp
qed

end
